(* ===== verification/Prelude.thy ===== *)
theory Prelude
  imports Main "HOL-Library.Multiset"
begin

text \<open>
  The shared base of the development: the collections of rewrite rules the
  component theories extend, the names of Go's basic types in the model, the
  64-bit wrap-around of Go's integers, and the generic facts on lists (exchange
  of two positions, removal of the last element) that the heap and the queue use.

  Go values are represented as follows.  A Go \<^verbatim>\<open>string\<close> or \<^verbatim>\<open>[]byte\<close> is a
  \<^typ>\<open>string\<close>, one \<^typ>\<open>char\<close> per byte.  A Go \<^verbatim>\<open>int\<close>/\<^verbatim>\<open>int64\<close> is an
  \<^typ>\<open>int\<close>, with \<open>i64\<close> written where an operation may leave the 64-bit range.
  A \<^verbatim>\<open>time.Time\<close> is the number of nanoseconds since Go's zero time (1 January of
  year 1, UTC), so that \<^verbatim>\<open>IsZero\<close> is equality with 0; a \<^verbatim>\<open>time.Duration\<close> is a
  number of nanoseconds.
\<close>

type_synonym bytes = string
type_synonym gotime = int
type_synonym duration = int

named_theorems rq_simps \<open>unfolding rules of the request queue\<close>
named_theorems cache_simps \<open>unfolding rules of the in-memory cache\<close>
named_theorems limit_simps \<open>unfolding rules of the rate limiter\<close>
named_theorems http_simps \<open>unfolding rules of headers and response writers\<close>

section \<open>Machine integers\<close>

text \<open>Two's complement reduction of an integer to Go's \<^verbatim>\<open>int64\<close>.\<close>

definition i64 :: "int \<Rightarrow> int" where
  "i64 x = (x + 2 ^ 63) mod 2 ^ 64 - 2 ^ 63"

definition is_i64 :: "int \<Rightarrow> bool" where
  "is_i64 x \<longleftrightarrow> - (2 ^ 63) \<le> x \<and> x < 2 ^ 63"

lemma i64_id [simp]: "is_i64 x \<Longrightarrow> i64 x = x"
  by (simp add: i64_def is_i64_def)

lemma is_i64_i64 [simp, intro]: "is_i64 (i64 x)"
proof -
  have "0 \<le> (x + 2 ^ 63) mod 2 ^ 64" and "(x + 2 ^ 63) mod 2 ^ 64 < 2 ^ 64"
    by (rule pos_mod_sign pos_mod_bound; simp)+
  then show ?thesis by (simp add: i64_def is_i64_def)
qed

lemma i64_add_right: "i64 (x + i64 y) = i64 (x + y)"
proof -
  have "(x + ((y + 2 ^ 63) mod 2 ^ 64 - 2 ^ 63) + 2 ^ 63) mod 2 ^ 64 = (x + y + 2 ^ 63) mod (2 ^ 64 :: int)"
    by (simp add: mod_simps algebra_simps)
  then show ?thesis by (simp add: i64_def)
qed

lemma i64_add_left: "i64 (i64 x + y) = i64 (x + y)"
  using i64_add_right [of y x] by (simp add: add.commute)

section \<open>Time\<close>

definition Second :: duration where
  "Second = 1000000000"

definition Millisecond :: duration where
  "Millisecond = 1000000"

text \<open>\<^verbatim>\<open>t.Unix()\<close>: whole seconds since the Unix epoch, which is 62135596800 seconds
  after Go's zero time.  \<^verbatim>\<open>t.Second()\<close>: the second within the minute.\<close>

definition Unix :: "gotime \<Rightarrow> int" where
  "Unix t = t div Second - 62135596800"

definition second_of :: "gotime \<Rightarrow> int" where
  "second_of t = (t div Second) mod 60"

lemma second_of_bounds: "0 \<le> second_of t" "second_of t < 60"
  by (simp_all add: second_of_def)

section \<open>Go division\<close>

text \<open>Go's integer division truncates towards zero.\<close>

definition go_div :: "int \<Rightarrow> int \<Rightarrow> int" where
  "go_div a b = sgn a * sgn b * (\<bar>a\<bar> div \<bar>b\<bar>)"

lemma go_div_nonneg: "0 \<le> a \<Longrightarrow> 0 < b \<Longrightarrow> go_div a b = a div b"
  by (cases "a = 0") (simp_all add: go_div_def)

section \<open>Lists\<close>

text \<open>Exchange of two positions, as \<^verbatim>\<open>h[i], h[j] = h[j], h[i]\<close>.\<close>

definition swap_at :: "'a list \<Rightarrow> nat \<Rightarrow> nat \<Rightarrow> 'a list" where
  "swap_at xs i j = xs[i := xs ! j, j := xs ! i]"

lemma length_swap_at [simp]: "length (swap_at xs i j) = length xs"
  by (simp add: swap_at_def)

lemma nth_swap_at:
  "i < length xs \<Longrightarrow> j < length xs \<Longrightarrow>
   swap_at xs i j ! k = (if k = i then xs ! j else if k = j then xs ! i else xs ! k)"
  by (auto simp: swap_at_def nth_list_update)

lemma mset_swap_at [simp]:
  "i < length xs \<Longrightarrow> j < length xs \<Longrightarrow> mset (swap_at xs i j) = mset xs"
  by (cases "i = j") (simp_all add: swap_at_def mset_swap)

lemma set_swap_at [simp]:
  "i < length xs \<Longrightarrow> j < length xs \<Longrightarrow> set (swap_at xs i j) = set xs"
  by (metis mset_swap_at set_mset_mset)

lemma mset_butlast: "xs \<noteq> [] \<Longrightarrow> mset (butlast xs) = mset xs - {#last xs#}"
  by (metis append_butlast_last_id diff_union_cancelR mset.simps(1,2) mset_append)

end
