(* ===== verification/Domain.thy ===== *)
theory Domain
  imports Prelude Complex_Main
begin

text \<open>
  The data of \<^verbatim>\<open>internal/domain\<close>: one record per struct, with the fields of the source
  in its order.  Fields of different structs share names in Go; here each record has
  its own prefix.  A pointer that may be nil is an option, a nil slice is the empty
  list.  A \<^verbatim>\<open>map[string]any\<close> is an association list, read through \<^const>\<open>map_of\<close>: Go
  iterates over a map in an unspecified order, and the list is the order of one
  iteration.
\<close>

section \<open>JSON values\<close>

text \<open>The values of an \<^verbatim>\<open>any\<close> that are encoded to or decoded from JSON: \<^verbatim>\<open>nil\<close>, \<^verbatim>\<open>bool\<close>, \<^verbatim>\<open>float64\<close>
  (by its exact rational value), \<^verbatim>\<open>int\<close>/\<^verbatim>\<open>int64\<close> (in configured overrides and in the values the handlers
  encode; decoding yields none), \<^verbatim>\<open>string\<close>, \<^verbatim>\<open>[]any\<close>, \<^verbatim>\<open>map[string]any\<close>.\<close>

datatype json =
    JNull
  | JBool bool
  | JNum rat
  | JInt int
  | JStr string
  | JArr "json list"
  | JObj "(string \<times> json) list"

type_synonym jobject = "(string \<times> json) list"

section \<open>Endpoint types\<close>

type_synonym EndpointType = string

definition EndpointChat :: EndpointType where "EndpointChat = ''chat''"
definition EndpointEmbedding :: EndpointType where "EndpointEmbedding = ''embedding''"
definition EndpointResponses :: EndpointType where "EndpointResponses = ''responses''"
definition EndpointAll :: EndpointType where "EndpointAll = ''all''"

lemmas endpoint_defs = EndpointChat_def EndpointEmbedding_def EndpointResponses_def EndpointAll_def

section \<open>Nodes, keys, limits\<close>

record ModelNode =
  n_ID :: string
  n_Name :: string
  n_Aliases :: "string list"
  n_BaseURL :: string
  n_APIKey :: string
  n_ModelName :: string
  n_EndpointType :: EndpointType
  n_TPM :: int
  n_RPM :: int
  n_Override :: jobject
  n_TimeoutSec :: int
  n_Enabled :: bool
  n_CreatedAt :: gotime
  n_UpdatedAt :: gotime

record RateLimitConfig =
  rl_TPM :: int
  rl_RPM :: int
  rl_MaxRetries :: int

record APIKey =
  k_ID :: string
  k_Key :: string
  k_Name :: string
  k_Enabled :: bool
  k_TPM :: int
  k_RPM :: int
  k_AllowModels :: "string list"
  k_CreatedAt :: gotime
  k_ExpiresAt :: "gotime option"

section \<open>Configuration\<close>

record RedisConfig =
  rc_Addr :: string
  rc_Password :: string
  rc_DB :: int

record RabbitMQConfig =
  rmq_URL :: string

record CacheConfig =
  cc_Type :: string
  cc_Redis :: RedisConfig

record MQConfig =
  mq_Type :: string
  mq_Redis :: RedisConfig
  mq_RabbitMQ :: RabbitMQConfig

record ServerConfig =
  sv_Addr :: string
  sv_CORSOrigins :: "string list"
  sv_AdminToken :: string
  sv_MaxMemoryMB :: int

record LoggingConfig =
  lg_BasicMaxRows :: int
  lg_BasicMaxDays :: int
  lg_BasicMaxSizeMB :: int
  lg_DetailMaxRows :: int
  lg_DetailMaxDays :: int
  lg_DetailMaxSizeMB :: int
  lg_BufferSize :: int
  lg_FlushIntervalMs :: int

record QueueConfig =
  qc_DefaultPriority :: int
  qc_MaxQueueSize :: int

record DomainWorkerConfig =
  dw_PoolSize :: int
  dw_MaxRetryAttempts :: int
  dw_RetryDelayMs :: int
  dw_MaxWaitTimeSec :: int

record AppConfig =
  ac_Server :: ServerConfig
  ac_RateLimit :: RateLimitConfig
  ac_Logging :: LoggingConfig
  ac_Cache :: CacheConfig
  ac_MQ :: MQConfig
  ac_Queue :: QueueConfig
  ac_Worker :: DomainWorkerConfig
  ac_Providers :: "(string \<times> ModelNode) list"
  ac_APIKeys :: "(string \<times> APIKey) list"

section \<open>Requests and logs\<close>

record ProxyContext =
  pc_RequestID :: string
  pc_SessionID :: string
  pc_APIKey :: "APIKey option"
  pc_TargetNode :: "ModelNode option"
  pc_ModelAlias :: string
  pc_Stream :: bool
  pc_StartTime :: gotime

record RequestLog =
  l_ID :: string
  l_SessionID :: string
  l_Timestamp :: gotime
  l_APIKeyID :: string
  l_ModelAlias :: string
  l_NodeID :: string
  l_ActualModel :: string
  l_PromptTokens :: int
  l_CompletionTokens :: int
  l_TotalTokens :: int
  l_DurationMs :: int
  l_StatusCode :: int
  l_Stream :: bool
  l_ErrorMsg :: string
  l_HasDetail :: bool

record DetailLog =
  d_TraceID :: string
  d_SessionID :: string
  d_Timestamp :: gotime
  d_RequestBody :: string
  d_ResponseBody :: string

record LogStats =
  st_TotalRequests :: int
  st_PromptTokens :: int
  st_CompletionTokens :: int
  st_TotalTokens :: int

record LogFilter =
  lf_APIKeyID :: string
  lf_ModelAlias :: string
  lf_NodeID :: string
  lf_SessionID :: string
  lf_StatusCode :: int
  lf_ErrorOnly :: bool
  lf_Keyword :: string
  lf_StartTime :: "gotime option"
  lf_EndTime :: "gotime option"
  lf_Page :: int
  lf_PageSize :: int

record TimeSeriesPoint =
  ts_Timestamp :: gotime
  ts_Requests :: int
  ts_PromptTokens :: int
  ts_CompletionTokens :: int
  ts_TotalTokens :: int

record TopEntity =
  te_Name :: string
  te_Requests :: int
  te_TotalTokens :: int
  te_PromptTokens :: int
  te_CompletionTokens :: int
  te_AvgDurationMs :: int
  te_AvgTokens :: int

record RateLimitStatus =
  RPMCurrent :: int
  RPMLimit :: int
  TPMCurrent :: int
  TPMLimit :: int
  BlockReason :: string

text \<open>
  A Go \<^verbatim>\<open>error\<close>: its text, and what \<^verbatim>\<open>errors.Is\<close> answers for the two sentinel errors the
  code asks about.  Wrapping with \<^verbatim>\<open>fmt.Errorf("...: %w", err)\<close> prefixes the text and keeps
  the answers.
\<close>

record goerror =
  err_text :: string
  err_deadline :: bool
  err_canceled :: bool

definition wrap_error :: "string \<Rightarrow> goerror \<Rightarrow> goerror" where
  "wrap_error pre e = e\<lparr>err_text := pre @ err_text e\<rparr>"

lemma wrap_error_simps [simp]:
  "err_text (wrap_error pre e) = pre @ err_text e"
  "err_deadline (wrap_error pre e) = err_deadline e"
  "err_canceled (wrap_error pre e) = err_canceled e"
  by (simp_all add: wrap_error_def)

record AttemptLog =
  a_Attempt :: int
  a_NodeID :: string
  a_NodeName :: string
  a_DurationMs :: int
  a_StatusCode :: int
  a_ErrorType :: string
  a_Error :: "goerror option"
  a_PromptTokens :: int
  a_CompletionTokens :: int

text \<open>\<^verbatim>\<open>http.Header\<close>: a map from canonical header names to their values.\<close>

type_synonym header = "(string \<times> string list) list"

record ExecutionResult =
  x_StatusCode :: int
  x_Body :: bytes
  x_Headers :: header
  x_PromptTokens :: int
  x_CompletionTokens :: int
  x_TotalTokens :: int
  x_FinalNodeID :: string
  x_Attempts :: "AttemptLog list"
  x_ExecutionMs :: int
  x_Error :: string
  x_ErrorType :: string

end
