(* ===== verification/Go_Heap.thy ===== *)
theory Go_Heap
  imports Prelude
begin

text \<open>
  Go's \<^verbatim>\<open>container/heap\<close> on a slice, as far as \<^verbatim>\<open>internal/queue\<close> uses it: \<^verbatim>\<open>up\<close>,
  \<^verbatim>\<open>down\<close>, \<^verbatim>\<open>Init\<close>, \<^verbatim>\<open>Push\<close>, \<^verbatim>\<open>Pop\<close> and \<^verbatim>\<open>Remove\<close>, with the comparison \<^verbatim>\<open>Less\<close> as
  an argument.  The comparison of the request queue is a strict weak order, not a
  linear one (two requests may have the same priority and timestamp); the locale
  \<open>weak_order\<close> states that contract, and the correctness of the heap operations is
  proved inside it once, for every such comparison.
\<close>

section \<open>The operations of container/heap\<close>

text \<open>\<^verbatim>\<open>up(h, j)\<close>: with natural numbers the parent of 0 is 0, as Go's truncating
  \<^verbatim>\<open>(0-1)/2\<close> gives.\<close>

function heap_up :: "('a \<Rightarrow> 'a \<Rightarrow> bool) \<Rightarrow> 'a list \<Rightarrow> nat \<Rightarrow> 'a list" where
  "heap_up lt h j =
     (let i = (j - 1) div 2
      in if i = j \<or> \<not> lt (h ! j) (h ! i) then h
         else heap_up lt (swap_at h i j) i)"
  by pat_completeness auto
termination
  by (relation "measure (\<lambda>(lt, h, j). j)") auto

text \<open>\<^verbatim>\<open>down(h, i, n)\<close>: the slice after the loop and the index the element stopped at;
  Go returns whether that index is beyond the start.\<close>

function heap_down :: "('a \<Rightarrow> 'a \<Rightarrow> bool) \<Rightarrow> 'a list \<Rightarrow> nat \<Rightarrow> nat \<Rightarrow> 'a list \<times> nat" where
  "heap_down lt h i n =
     (let j1 = 2 * i + 1
      in if j1 \<ge> n then (h, i)
         else let j2 = j1 + 1;
                  j = (if j2 < n \<and> lt (h ! j2) (h ! j1) then j2 else j1)
              in if \<not> lt (h ! j) (h ! i) then (h, i)
                 else heap_down lt (swap_at h i j) j n)"
  by pat_completeness auto
termination
  by (relation "measure (\<lambda>(lt, h, i, n). n - i)") (auto simp: Let_def split: if_splits)

declare heap_up.simps [simp del] heap_down.simps [simp del]

text \<open>\<^verbatim>\<open>Init\<close>: \<^verbatim>\<open>for i := n/2 - 1; i >= 0; i--\<close>, as a recursion on the number of indices
  still to do.\<close>

fun heap_init_from :: "('a \<Rightarrow> 'a \<Rightarrow> bool) \<Rightarrow> 'a list \<Rightarrow> nat \<Rightarrow> 'a list" where
  "heap_init_from lt h 0 = h"
| "heap_init_from lt h (Suc i) = heap_init_from lt (fst (heap_down lt h i (length h))) i"

definition heap_Init :: "('a \<Rightarrow> 'a \<Rightarrow> bool) \<Rightarrow> 'a list \<Rightarrow> 'a list" where
  "heap_Init lt h = heap_init_from lt h (length h div 2)"

definition heap_Push :: "('a \<Rightarrow> 'a \<Rightarrow> bool) \<Rightarrow> 'a list \<Rightarrow> 'a \<Rightarrow> 'a list" where
  "heap_Push lt h x = heap_up lt (h @ [x]) (length h)"

text \<open>\<^verbatim>\<open>Pop\<close> on an empty heap indexes out of range in Go; \<open>None\<close> is that panic.\<close>

definition heap_Pop :: "('a \<Rightarrow> 'a \<Rightarrow> bool) \<Rightarrow> 'a list \<Rightarrow> ('a \<times> 'a list) option" where
  "heap_Pop lt h =
     (if h = [] then None
      else let n = length h - 1;
               h' = fst (heap_down lt (swap_at h 0 n) 0 n)
           in Some (last h', butlast h'))"

text \<open>\<^verbatim>\<open>Remove(h, i)\<close>; an index out of range panics.\<close>

definition heap_Remove :: "('a \<Rightarrow> 'a \<Rightarrow> bool) \<Rightarrow> 'a list \<Rightarrow> nat \<Rightarrow> ('a \<times> 'a list) option" where
  "heap_Remove lt h i =
     (if i \<ge> length h then None
      else let n = length h - 1;
               h' = (if n \<noteq> i
                     then let r = heap_down lt (swap_at h i n) i n
                          in if snd r > i then fst r else heap_up lt (fst r) i
                     else h)
           in Some (last h', butlast h'))"

section \<open>Permutation and length: facts for any comparison\<close>

lemma heap_down_length_mset:
  "i < n \<Longrightarrow> n \<le> length h \<Longrightarrow>
   length (fst (heap_down lt h i n)) = length h \<and> mset (fst (heap_down lt h i n)) = mset h"
proof (induction lt h i n rule: heap_down.induct)
  case (1 lt h i n)
  then show ?case by (subst (1 2) heap_down.simps) (simp add: Let_def)
qed

lemma heap_down_length [simp]:
  "length (fst (heap_down lt h i n)) = length h"
proof (induction lt h i n rule: heap_down.induct)
  case (1 lt h i n)
  then show ?case by (subst heap_down.simps) (simp add: Let_def)
qed

lemma heap_down_mset:
  "i < n \<Longrightarrow> n \<le> length h \<Longrightarrow> mset (fst (heap_down lt h i n)) = mset h"
  using heap_down_length_mset by blast

lemma heap_down_index: "i \<le> snd (heap_down lt h i n)"
proof (induction lt h i n rule: heap_down.induct)
  case (1 lt h i n)
  then show ?case by (subst heap_down.simps) (force simp: Let_def)
qed

text \<open>\<^verbatim>\<open>down\<close> touches neither the part of the slice from \<open>n\<close> on, nor any index
  before its start.\<close>

lemma heap_down_frame:
  "i < n \<Longrightarrow> n \<le> length h \<Longrightarrow> k < i \<or> n \<le> k \<Longrightarrow> fst (heap_down lt h i n) ! k = h ! k"
proof (induction lt h i n rule: heap_down.induct)
  case (1 lt h i n)
  then show ?case
    by (subst heap_down.simps) (auto simp: Let_def nth_swap_at)
qed

lemma heap_up_length [simp]: "length (heap_up lt h j) = length h"
proof (induction lt h j rule: heap_up.induct)
  case (1 lt h j)
  then show ?case by (subst heap_up.simps) (simp add: Let_def)
qed

lemma heap_up_mset: "j < length h \<Longrightarrow> mset (heap_up lt h j) = mset h"
proof (induction lt h j rule: heap_up.induct)
  case (1 lt h j)
  then show ?case by (subst heap_up.simps) (auto simp: Let_def)
qed

lemma heap_up_frame: "j < length h \<Longrightarrow> j < k \<Longrightarrow> heap_up lt h j ! k = h ! k"
proof (induction lt h j rule: heap_up.induct)
  case (1 lt h j)
  then show ?case by (subst heap_up.simps) (auto simp: Let_def nth_swap_at)
qed

section \<open>The heap property\<close>

definition parent :: "nat \<Rightarrow> nat" where
  "parent k = (k - 1) div 2"

lemma parent_less: "0 < k \<Longrightarrow> parent k < k"
  by (simp add: parent_def)

lemma parent_iff: "0 < k \<Longrightarrow> parent k = i \<longleftrightarrow> k = 2 * i + 1 \<or> k = 2 * i + 2"
  by (auto simp: parent_def)

text \<open>No element of the first \<open>n\<close> is before its parent; \<open>heap_from\<close> asks it only of
  the parents from \<open>m\<close> on, as \<^verbatim>\<open>Init\<close> establishes it from the end.\<close>

definition heap_from :: "('a \<Rightarrow> 'a \<Rightarrow> bool) \<Rightarrow> 'a list \<Rightarrow> nat \<Rightarrow> nat \<Rightarrow> bool" where
  "heap_from lt h m n \<longleftrightarrow> (\<forall>k<n. 0 < k \<longrightarrow> m \<le> parent k \<longrightarrow> \<not> lt (h ! k) (h ! parent k))"

definition is_heap :: "('a \<Rightarrow> 'a \<Rightarrow> bool) \<Rightarrow> 'a list \<Rightarrow> bool" where
  "is_heap lt h \<longleftrightarrow> heap_from lt h 0 (length h)"

text \<open>The heap property broken at most between \<open>j\<close> and its parent, respectively
  between \<open>i\<close> and its children: what the loops of \<^verbatim>\<open>up\<close> and \<^verbatim>\<open>down\<close> keep.\<close>

definition heap_but_up :: "('a \<Rightarrow> 'a \<Rightarrow> bool) \<Rightarrow> 'a list \<Rightarrow> nat \<Rightarrow> nat \<Rightarrow> bool" where
  "heap_but_up lt h n j \<longleftrightarrow>
     (\<forall>k<n. 0 < k \<longrightarrow> (k \<noteq> j \<longrightarrow> \<not> lt (h ! k) (h ! parent k)) \<and>
        (parent k = j \<longrightarrow> 0 < j \<longrightarrow> \<not> lt (h ! k) (h ! parent j)))"

definition heap_but_down :: "('a \<Rightarrow> 'a \<Rightarrow> bool) \<Rightarrow> 'a list \<Rightarrow> nat \<Rightarrow> nat \<Rightarrow> nat \<Rightarrow> bool" where
  "heap_but_down lt h m n i \<longleftrightarrow>
     (\<forall>k<n. 0 < k \<longrightarrow> m \<le> parent k \<longrightarrow>
        (parent k \<noteq> i \<longrightarrow> \<not> lt (h ! k) (h ! parent k)) \<and>
        (parent k = i \<longrightarrow> 0 < i \<longrightarrow> m \<le> parent i \<longrightarrow> \<not> lt (h ! k) (h ! parent i)))"

lemma is_heapD: "is_heap lt h \<Longrightarrow> k < length h \<Longrightarrow> 0 < k \<Longrightarrow> \<not> lt (h ! k) (h ! parent k)"
  by (simp add: is_heap_def heap_from_def)

section \<open>Correctness for a strict weak order\<close>

locale weak_order =
  fixes lt :: "'a \<Rightarrow> 'a \<Rightarrow> bool"
  assumes lt_irrefl: "\<not> lt x x"
    and lt_trans: "lt x y \<Longrightarrow> lt y z \<Longrightarrow> lt x z"
    and nlt_trans: "\<not> lt x y \<Longrightarrow> \<not> lt y z \<Longrightarrow> \<not> lt x z"
begin

lemma lt_asym: "lt x y \<Longrightarrow> \<not> lt y x"
  using lt_irrefl lt_trans by blast

text \<open>One exchange of \<^verbatim>\<open>up\<close> moves the broken place to the parent.\<close>

lemma up_step:
  assumes b: "heap_but_up lt h n j" and j: "0 < j" "j < n" "n \<le> length h"
    and l: "lt (h ! j) (h ! parent j)"
  shows "heap_but_up lt (swap_at h (parent j) j) n (parent j)"
  unfolding heap_but_up_def
proof (intro allI impI conjI)
  let ?i = "parent j" and ?h = "swap_at h (parent j) j"
  have i: "?i < j" using j by (simp add: parent_less)
  have nth: "?h ! k = (if k = ?i then h ! j else if k = j then h ! ?i else h ! k)" for k
    using j i by (intro nth_swap_at) auto
  have edge: "\<not> lt (h ! k) (h ! parent k)" if "k < n" "0 < k" "k \<noteq> j" for k
    using b that by (simp add: heap_but_up_def)
  have gedge: "\<not> lt (h ! k) (h ! ?i)" if "k < n" "0 < k" "parent k = j" for k
    using b that j by (simp add: heap_but_up_def)
  fix k assume k: "k < n" "0 < k"
  have pk: "parent k < k" using k by (simp add: parent_less)
  {
    assume "k \<noteq> ?i"
    show "\<not> lt (?h ! k) (?h ! parent k)"
    proof (cases "k = j")
      case True
      then show ?thesis using l i by (simp add: nth lt_asym)
    next
      case False
      then have e: "\<not> lt (h ! k) (h ! parent k)" using edge k by blast
      have "\<not> lt (h ! k) (h ! j)" if "parent k = ?i"
        using e lt_asym [OF l] nlt_trans unfolding that by blast
      then show ?thesis
        using e False \<open>k \<noteq> ?i\<close> gedge [OF k] i by (auto simp: nth)
    qed
  }
  {
    assume p: "parent k = ?i" and ip: "0 < ?i"
    have pi: "parent ?i < ?i" using ip by (rule parent_less)
    have ei: "\<not> lt (h ! ?i) (h ! parent ?i)" using edge [of ?i] i j ip by simp
    show "\<not> lt (?h ! k) (?h ! parent ?i)"
    proof (cases "k = j")
      case True
      then show ?thesis using ei pi i by (simp add: nth)
    next
      case False
      then have "\<not> lt (h ! k) (h ! ?i)" using edge k p by metis
      then have "\<not> lt (h ! k) (h ! parent ?i)" using ei by (rule nlt_trans)
      moreover have "k \<noteq> ?i" using pk p by simp
      ultimately show ?thesis using False pi i by (simp add: nth)
    qed
  }
qed

lemma heap_up_heap_from:
  "j < n \<Longrightarrow> n \<le> length h \<Longrightarrow> heap_but_up lt h n j \<Longrightarrow> heap_from lt (heap_up lt h j) 0 n"
proof (induction j arbitrary: h rule: less_induct)
  case (less j)
  show ?case
  proof (cases "parent j = j \<or> \<not> lt (h ! j) (h ! parent j)")
    case True
    then have "heap_up lt h j = h"
      by (subst heap_up.simps) (auto simp: Let_def parent_def)
    moreover have "\<not> lt (h ! j) (h ! parent j)" using True lt_irrefl by metis
    ultimately show ?thesis
      using less.prems by (auto simp: heap_from_def heap_but_up_def)
  next
    case False
    then have j: "0 < j" by (cases j) (auto simp: parent_def)
    then have pj: "parent j < j" by (rule parent_less)
    from False have "heap_up lt h j = heap_up lt (swap_at h (parent j) j) (parent j)"
      by (subst heap_up.simps) (simp add: Let_def parent_def)
    moreover have "heap_from lt (heap_up lt (swap_at h (parent j) j) (parent j)) 0 n"
      using less.prems False pj j by (intro less.IH) (auto intro: up_step)
    ultimately show ?thesis by simp
  qed
qed

text \<open>One exchange of \<^verbatim>\<open>down\<close> moves the broken place to the child taken.\<close>

lemma down_step:
  assumes b: "heap_but_down lt h m n i" and j: "parent j = i" "0 < j" "j < n" "n \<le> length h"
    and m: "m \<le> i" and l: "lt (h ! j) (h ! i)"
    and sib: "\<And>k. k < n \<Longrightarrow> 0 < k \<Longrightarrow> parent k = i \<Longrightarrow> \<not> lt (h ! k) (h ! j)"
  shows "heap_but_down lt (swap_at h i j) m n j"
  unfolding heap_but_down_def
proof (intro allI impI conjI)
  let ?h = "swap_at h i j"
  have i: "i < j" using j parent_less by blast
  have nth: "?h ! k = (if k = i then h ! j else if k = j then h ! i else h ! k)" for k
    using j i by (intro nth_swap_at) auto
  have edge: "\<not> lt (h ! k) (h ! parent k)"
    if "k < n" "0 < k" "m \<le> parent k" "parent k \<noteq> i" for k
    using b that by (simp add: heap_but_down_def)
  have gedge: "\<not> lt (h ! j) (h ! parent i)" if "0 < i" "m \<le> parent i"
    using b that j m by (auto simp: heap_but_down_def)
  fix k assume k: "k < n" "0 < k" "m \<le> parent k"
  have pk: "parent k < k" using k by (simp add: parent_less)
  {
    assume pj: "parent k \<noteq> j"
    consider "parent k = i" "k = j" | "parent k = i" "k \<noteq> j" | "parent k \<noteq> i" "k = i"
      | "parent k \<noteq> i" "k \<noteq> i" by blast
    then show "\<not> lt (?h ! k) (?h ! parent k)"
    proof cases
      case 1
      then show ?thesis using l i by (simp add: nth lt_asym)
    next
      case 2
      then show ?thesis using sib k pk by (simp add: nth)
    next
      case 3
      then show ?thesis using gedge k pj by (simp add: nth)
    next
      case 4
      then show ?thesis using edge k pj j by (auto simp: nth)
    qed
  }
  {
    assume "parent k = j"
    then show "\<not> lt (?h ! k) (?h ! parent j)"
      using edge [of k] k i pk j by (simp add: nth)
  }
qed

lemma heap_down_heap_from:
  "m \<le> i \<Longrightarrow> i < n \<Longrightarrow> n \<le> length h \<Longrightarrow> heap_but_down lt h m n i \<Longrightarrow>
   heap_from lt (fst (heap_down lt h i n)) m n"
proof (induction "n - i" arbitrary: h i rule: less_induct)
  case less
  define j where
    "j = (if 2 * i + 2 < n \<and> lt (h ! (2 * i + 2)) (h ! (2 * i + 1)) then 2 * i + 2 else 2 * i + 1)"
  have unf: "heap_down lt h i n =
     (if 2 * i + 1 \<ge> n \<or> \<not> lt (h ! j) (h ! i) then (h, i) else heap_down lt (swap_at h i j) j n)"
    by (subst heap_down.simps) (simp add: Let_def j_def)
  have pj: "parent j = i" "0 < j" by (simp_all add: j_def parent_def)
  have sib: "\<not> lt (h ! k) (h ! j)" if "k < n" "0 < k" "parent k = i" for k
    using that lt_irrefl lt_asym by (auto simp: parent_iff j_def)
  show ?case
  proof (cases "2 * i + 1 \<ge> n \<or> \<not> lt (h ! j) (h ! i)")
    case True
    have child: "\<not> lt (h ! k) (h ! i)" if "k < n" "0 < k" "parent k = i" for k
      using True sib [OF that] that nlt_trans [of "h ! k" "h ! j" "h ! i"]
      by (auto simp: parent_iff)
    with True unf less.prems show ?thesis
      by (auto simp: heap_from_def heap_but_down_def)
  next
    case False
    then have jn: "j < n" by (auto simp: j_def)
    have ij: "i < j" using pj parent_less by blast
    have "heap_but_down lt (swap_at h i j) m n j"
      using False less.prems pj jn sib by (intro down_step) auto
    then have "heap_from lt (fst (heap_down lt (swap_at h i j) j n)) m n"
      using less.prems ij jn by (intro less.hyps) auto
    with False unf show ?thesis by simp
  qed
qed

text \<open>\<^verbatim>\<open>Init\<close> makes any slice a heap.\<close>

lemma heap_init_from_heap:
  "i \<le> length h div 2 \<Longrightarrow> heap_from lt h i (length h) \<Longrightarrow>
   heap_from lt (heap_init_from lt h i) 0 (length h)"
proof (induction i arbitrary: h)
  case 0
  then show ?case by simp
next
  case (Suc i)
  have "heap_but_down lt h i (length h) i"
    using Suc.prems parent_less [of i]
    by (fastforce simp: heap_but_down_def heap_from_def)
  then have "heap_from lt (fst (heap_down lt h i (length h))) i (length h)"
    using Suc.prems by (intro heap_down_heap_from) auto
  with Suc.IH [of "fst (heap_down lt h i (length h))"] Suc.prems show ?case by simp
qed

lemma heap_Init_heap: "is_heap lt (heap_Init lt h)"
proof -
  have "heap_from lt h (length h div 2) (length h)"
    by (auto simp: heap_from_def parent_def)
  moreover have "length (heap_init_from lt h i) = length h" for i
    by (induction i arbitrary: h) auto
  ultimately show ?thesis
    by (simp add: is_heap_def heap_Init_def heap_init_from_heap)
qed

lemma heap_Push_heap: "is_heap lt h \<Longrightarrow> is_heap lt (heap_Push lt h x)"
proof -
  assume h: "is_heap lt h"
  have "heap_but_up lt (h @ [x]) (Suc (length h)) (length h)"
    unfolding heap_but_up_def
  proof (intro allI impI conjI)
    fix k assume k: "k < Suc (length h)" "0 < k"
    then have "parent k < k" by (simp add: parent_less)
    then show "\<not> lt ((h @ [x]) ! k) ((h @ [x]) ! parent k)" if "k \<noteq> length h"
      using is_heapD [OF h, of k] k that by (simp add: nth_append)
    show "\<not> lt ((h @ [x]) ! k) ((h @ [x]) ! parent (length h))" if "parent k = length h"
      using \<open>parent k < k\<close> k that by simp
  qed
  then show ?thesis
    using heap_up_heap_from [of "length h" "Suc (length h)" "h @ [x]"]
    by (simp add: is_heap_def heap_Push_def)
qed

text \<open>The root is before or level with every element.\<close>

lemma heap_root_first: "is_heap lt h \<Longrightarrow> k < length h \<Longrightarrow> \<not> lt (h ! k) (h ! 0)"
proof (induction k rule: less_induct)
  case (less k)
  show ?case
  proof (cases "k = 0")
    case True
    then show ?thesis by (simp add: lt_irrefl)
  next
    case False
    then have p: "parent k < k" by (simp add: parent_less)
    then have "\<not> lt (h ! parent k) (h ! 0)" using less by simp
    moreover have "\<not> lt (h ! k) (h ! parent k)" using less.prems False by (simp add: is_heapD)
    ultimately show ?thesis using nlt_trans by blast
  qed
qed

text \<open>Dropping the last cell of a slice whose first cells form a heap.\<close>

lemma heap_butlast:
  "heap_from lt h 0 (length h - 1) \<Longrightarrow> is_heap lt (butlast h)"
  unfolding is_heap_def heap_from_def
  by (metis (no_types, opaque_lifting) length_butlast nth_butlast order.strict_trans parent_less)

lemma heap_Pop_Some:
  assumes h: "is_heap lt h" "h \<noteq> []"
  shows "\<exists>h'. heap_Pop lt h = Some (h ! 0, h') \<and> is_heap lt h' \<and> mset h = add_mset (h ! 0) (mset h')"
proof -
  define n where "n = length h - 1"
  define h1 where "h1 = swap_at h 0 n"
  define h2 where "h2 = fst (heap_down lt h1 0 n)"
  have len: "length h = Suc n" using h(2) by (cases h) (simp_all add: n_def)
  then have len1: "length h1 = Suc n" and len2: "length h2 = Suc n"
    by (simp_all add: h1_def h2_def)
  have nth: "h1 ! k = (if k = 0 then h ! n else if k = n then h ! 0 else h ! k)" for k
    unfolding h1_def using len by (intro nth_swap_at) auto
  have "heap_but_down lt h1 0 n 0"
    using is_heapD [OF h(1)] len parent_less
    by (auto simp: heap_but_down_def nth) (metis less_SucI less_trans not_less_iff_gr_or_eq)+
  then have h2: "heap_from lt h2 0 n"
    using len1 heap_down_heap_from [of 0 0 n h1]
    by (cases "n = 0") (simp_all add: h2_def heap_from_def)
  have "h2 ! n = h1 ! n" and m: "mset h2 = mset h"
    using heap_down_frame [of 0 n h1 n lt] heap_down_mset [of 0 n h1 lt] len len1
    by (cases "n = 0"; simp add: h2_def h1_def heap_down.simps [of lt _ 0 0] Let_def)+
  moreover have ne: "h2 \<noteq> []" using len2 by auto
  ultimately have l: "last h2 = h ! 0"
    using len2 by (cases "n = 0") (auto simp: nth last_conv_nth)
  from ne have "mset h = add_mset (h ! 0) (mset (butlast h2))"
    using mset_butlast [of h2] m l by (metis insert_DiffM last_in_set set_mset_mset)
  moreover have "is_heap lt (butlast h2)" using h2 len2 by (intro heap_butlast) simp
  moreover have "heap_Pop lt h = Some (h ! 0, butlast h2)"
    using h(2) l by (simp add: heap_Pop_def Let_def h1_def h2_def n_def)
  ultimately show ?thesis by blast
qed

lemma heap_from_but_up: "heap_from lt h 0 n \<Longrightarrow> i < n \<Longrightarrow> heap_but_up lt h n i"
  unfolding heap_but_up_def heap_from_def using nlt_trans by (metis le0)

lemma heap_down_stop:
  assumes "\<And>k. k < n \<Longrightarrow> 0 < k \<Longrightarrow> parent k = i \<Longrightarrow> \<not> lt (h ! k) (h ! i)"
  shows "heap_down lt h i n = (h, i)"
  using assms [of "2 * i + 1"] assms [of "2 * i + 2"]
  by (subst heap_down.simps) (auto simp: Let_def parent_def)

text \<open>\<^verbatim>\<open>Remove\<close> repairs the cell filled from the end: by \<^verbatim>\<open>down\<close>, or by \<^verbatim>\<open>up\<close> when the
  element did not go down.\<close>

lemma remove_repair:
  assumes h: "is_heap lt h" and n: "length h = Suc n" "i < n"
  defines "r \<equiv> heap_down lt (swap_at h i n) i n"
  shows "heap_from lt (if snd r > i then fst r else heap_up lt (fst r) i) 0 n"
proof -
  let ?h = "swap_at h i n"
  have nth: "?h ! k = (if k = i then h ! n else if k = n then h ! i else h ! k)" for k
    using n by (intro nth_swap_at) auto
  have edge: "\<not> lt (h ! k) (h ! parent k)" if "k < n" "0 < k" for k
    using is_heapD [OF h, of k] n that by simp
  have pn: "parent k < n" if "k < n" "0 < k" for k
    using parent_less [of k] that by simp
  have gedge: "\<not> lt (?h ! k) (?h ! parent i)" if "k < n" "0 < k" "parent k = i" "0 < i" for k
  proof -
    have "\<not> lt (h ! k) (h ! parent i)"
      using edge [of k] edge [of i] that n nlt_trans by metis
    then show ?thesis using that n parent_less [of k] parent_less [of i] by (simp add: nth)
  qed
  have far: "\<not> lt (?h ! k) (?h ! parent k)" if "k < n" "0 < k" "k \<noteq> i" "parent k \<noteq> i" for k
    using edge [of k] pn [of k] that by (simp add: nth)
  show ?thesis
  proof (cases "0 < i \<and> lt (?h ! i) (?h ! parent i)")
    case True
    then have child: "\<not> lt (?h ! k) (?h ! i)" if "k < n" "0 < k" "parent k = i" for k
      using gedge [of k] that lt_trans by blast
    then have "r = (?h, i)" unfolding r_def by (intro heap_down_stop) blast
    moreover have "heap_but_up lt ?h n i"
      unfolding heap_but_up_def using far child gedge by metis
    ultimately show ?thesis using n by (simp add: heap_up_heap_from)
  next
    case False
    have "heap_but_down lt ?h 0 n i"
      unfolding heap_but_down_def using far gedge False by metis
    then have f: "heap_from lt (fst r) 0 n"
      unfolding r_def using n by (intro heap_down_heap_from) auto
    then have "heap_but_up lt (fst r) n i" using n by (simp add: heap_from_but_up)
    then have "heap_from lt (heap_up lt (fst r) i) 0 n"
      using n by (intro heap_up_heap_from) (simp_all add: r_def)
    with f show ?thesis by simp
  qed
qed

lemma heap_Remove_Some:
  assumes h: "is_heap lt h" and i: "i < length h"
  shows "\<exists>h'. heap_Remove lt h i = Some (h ! i, h') \<and> is_heap lt h' \<and> mset h = add_mset (h ! i) (mset h')"
proof -
  define n where "n = length h - 1"
  define r where "r = heap_down lt (swap_at h i n) i n"
  define h2 where "h2 = (if n \<noteq> i then if snd r > i then fst r else heap_up lt (fst r) i else h)"
  have len: "length h = Suc n" using i by (simp add: n_def)
  have len2: "length h2 = Suc n" using len by (simp add: h2_def r_def)
  have hp: "heap_from lt h2 0 n"
  proof (cases "n = i")
    case True
    then show ?thesis using h len by (simp add: h2_def is_heap_def heap_from_def)
  next
    case False
    then show ?thesis using remove_repair [OF h len, of i] i len by (simp add: h2_def r_def split: if_splits)
  qed
  have nl: "h2 ! n = h ! i" and m: "mset h2 = mset h"
    using i len heap_down_frame [of i n "swap_at h i n" n lt] heap_down_mset [of i n "swap_at h i n" lt]
      heap_up_frame [of i "fst r" n lt] heap_up_mset [of i "fst r" lt]
    by (cases "n = i"; simp add: h2_def r_def nth_swap_at)+
  have ne: "h2 \<noteq> []" using len2 by auto
  then have l: "last h2 = h ! i" using nl len2 by (simp add: last_conv_nth)
  have "heap_Remove lt h i = Some (last h2, butlast h2)"
    using i by (simp add: heap_Remove_def Let_def h2_def r_def n_def)
  then have "heap_Remove lt h i = Some (h ! i, butlast h2)" by (simp add: l)
  moreover have "is_heap lt (butlast h2)" using hp len2 by (intro heap_butlast) simp
  moreover have "mset h = add_mset (h ! i) (mset (butlast h2))"
    using mset_butlast [OF ne] m l by (metis insert_DiffM last_in_set ne set_mset_mset)
  ultimately show ?thesis by blast
qed

end

section \<open>The priority-queue contract\<close>

text \<open>
  What a client of the heap relies on: a bag of elements, an insertion, and a removal
  that takes an element no other one is before.  The contract does not fix which of
  several level elements comes first.
\<close>

locale bag_queue =
  fixes lt :: "'a \<Rightarrow> 'a \<Rightarrow> bool"
    and invar :: "'q \<Rightarrow> bool"
    and elems :: "'q \<Rightarrow> 'a multiset"
    and push :: "'q \<Rightarrow> 'a \<Rightarrow> 'q"
    and pop :: "'q \<Rightarrow> ('a \<times> 'q) option"
  assumes invar_push: "invar q \<Longrightarrow> invar (push q x)"
    and elems_push: "invar q \<Longrightarrow> elems (push q x) = add_mset x (elems q)"
    and pop_None: "invar q \<Longrightarrow> pop q = None \<longleftrightarrow> elems q = {#}"
    and pop_Some: "invar q \<Longrightarrow> pop q = Some (x, q') \<Longrightarrow>
          invar q' \<and> elems q = add_mset x (elems q') \<and> (\<forall>y\<in>#elems q. \<not> lt y x)"

text \<open>Repeated removal, at most \<open>n\<close> times.\<close>

fun pop_all :: "('q \<Rightarrow> ('a \<times> 'q) option) \<Rightarrow> nat \<Rightarrow> 'q \<Rightarrow> 'a list" where
  "pop_all pop 0 q = []"
| "pop_all pop (Suc n) q = (case pop q of None \<Rightarrow> [] | Some (x, q') \<Rightarrow> x # pop_all pop n q')"

context bag_queue
begin

text \<open>Popping everything lists the whole bag, each element before none of the ones
  that came out earlier.\<close>

lemma pop_all_sorted:
  "invar q \<Longrightarrow> size (elems q) \<le> n \<Longrightarrow>
   mset (pop_all pop n q) = elems q \<and> sorted_wrt (\<lambda>x y. \<not> lt y x) (pop_all pop n q)"
proof (induction n arbitrary: q)
  case 0
  then show ?case by simp
next
  case (Suc n)
  show ?case
  proof (cases "pop q")
    case None
    then have "elems q = {#}" using Suc.prems pop_None by blast
    with None show ?thesis by simp
  next
    case (Some p)
    obtain x q' where p: "p = (x, q')" by (cases p)
    have s: "invar q'" "elems q = add_mset x (elems q')" "\<forall>y\<in>#elems q. \<not> lt y x"
      using pop_Some Suc.prems Some p by blast+
    with Suc.IH [of q'] Suc.prems(2) have ih: "mset (pop_all pop n q') = elems q'"
      "sorted_wrt (\<lambda>x y. \<not> lt y x) (pop_all pop n q')" by auto
    then have "set (pop_all pop n q') = set_mset (elems q')" by (metis set_mset_mset)
    with ih s Some p show ?thesis by simp
  qed
qed

end

sublocale weak_order \<subseteq> heapq: bag_queue lt "is_heap lt" mset "heap_Push lt" "heap_Pop lt"
proof
  fix q :: "'a list" and x q'
  assume q: "is_heap lt q"
  then show "is_heap lt (heap_Push lt q x)" by (rule heap_Push_heap)
  show "mset (heap_Push lt q x) = add_mset x (mset q)"
    by (simp add: heap_Push_def heap_up_mset)
  show "heap_Pop lt q = None \<longleftrightarrow> mset q = {#}"
    by (simp add: heap_Pop_def Let_def)
  assume p: "heap_Pop lt q = Some (x, q')"
  then have "q \<noteq> []" by (auto simp: heap_Pop_def)
  with heap_Pop_Some [OF q this] p have "x = q ! 0" "is_heap lt q'" "mset q = add_mset x (mset q')"
    by auto
  moreover have "\<not> lt y (q ! 0)" if "y \<in># mset q" for y
    using that heap_root_first [OF q] by (auto simp: in_set_conv_nth)
  ultimately show "is_heap lt q' \<and> mset q = add_mset x (mset q') \<and> (\<forall>y\<in>#mset q. \<not> lt y x)"
    by blast
qed

end
