(* ===== verification/Request_Queue.thy ===== *)
theory Request_Queue
  imports Domain Go_Heap
begin

text \<open>
  The request queue of \<^verbatim>\<open>internal/queue/priority_queue.go\<close>: \<^verbatim>\<open>PendingRequest\<close>, the
  comparison \<^verbatim>\<open>priorityHeap.Less\<close>, and \<^verbatim>\<open>NewRequestQueue\<close>, \<^verbatim>\<open>Close\<close>, \<^verbatim>\<open>Enqueue\<close>,
  \<^verbatim>\<open>DequeueBlocking\<close>, \<^verbatim>\<open>Length\<close> and \<^verbatim>\<open>Remove\<close> on the heap of \<open>Go_Heap\<close>.  A method is one
  atomic step while it holds the mutex.  \<^verbatim>\<open>cond.Wait\<close> gives the mutex up: a call that reaches it
  is the outcome \<open>Waiting\<close> and leaves its goroutine in \<open>q_waiters\<close>, the list of the condition
  variable, where it sleeps until \<^verbatim>\<open>Signal\<close> or \<^verbatim>\<open>Broadcast\<close> takes it out; it then runs the loop
  again from its head.  \<^verbatim>\<open>Close\<close> broadcasts after it has released the mutex, so it is two steps.

  The theory proves that the comparison is a strict weak order, interprets the heap
  contract on it, and derives what the queue promises: the capacity bound, the order
  of service, the skipping of cancelled requests, and the meaning of the position
  estimate.
\<close>

section \<open>Model\<close>

text \<open>The writer, the result channel and the context are references; they are numbered.\<close>

record PendingRequest =
  p_ID :: string
  p_SessionID :: string
  p_RequestID :: string
  p_Priority :: int
  p_APIKeyID :: string
  p_ModelAlias :: string
  p_EndpointType :: EndpointType
  p_Timestamp :: gotime
  p_BodyBytes :: bytes
  p_Headers :: header
  p_Method :: string
  p_Path :: string
  p_RemoteAddr :: string
  p_ResponseWriter :: nat
  p_ResultChan :: nat
  p_Context :: nat
  p_QueueWaitMs :: int
  p_ExecutionMs :: int
  p_RatelimitRetries :: int

text \<open>\<^verbatim>\<open>priorityHeap.Less\<close> on the two requests: higher priority first, then the earlier
  timestamp.\<close>

definition req_Less :: "PendingRequest \<Rightarrow> PendingRequest \<Rightarrow> bool" where
  "req_Less a b =
     (if p_Priority a = p_Priority b then p_Timestamp a < p_Timestamp b
      else p_Priority a > p_Priority b)"

record RequestQueue =
  q_heap :: "PendingRequest list"
  q_max :: int
  q_closed :: bool
  q_waiters :: "nat list"

definition NewRequestQueue :: "int \<Rightarrow> RequestQueue" where
  "NewRequestQueue maxSize =
     \<lparr>q_heap = heap_Init req_Less [], q_max = maxSize, q_closed = False, q_waiters = []\<rparr>"

text \<open>\<^verbatim>\<open>sync.Cond\<close>: the goroutines in \<^verbatim>\<open>Wait\<close>, the one that has waited longest first.\<close>

definition cond_Wait :: "nat \<Rightarrow> RequestQueue \<Rightarrow> RequestQueue" where
  "cond_Wait g q = q\<lparr>q_waiters := q_waiters q @ [g]\<rparr>"

definition cond_Signal :: "RequestQueue \<Rightarrow> RequestQueue" where
  "cond_Signal q = q\<lparr>q_waiters := drop 1 (q_waiters q)\<rparr>"

definition cond_Broadcast :: "RequestQueue \<Rightarrow> RequestQueue" where
  "cond_Broadcast q = q\<lparr>q_waiters := []\<rparr>"

text \<open>\<^verbatim>\<open>Close\<close>: the part under the mutex, and the whole of it.\<close>

definition queue_close_locked :: "RequestQueue \<Rightarrow> RequestQueue" where
  "queue_close_locked q = q\<lparr>q_closed := True\<rparr>"

definition queue_Close :: "RequestQueue \<Rightarrow> RequestQueue" where
  "queue_Close q = cond_Broadcast (queue_close_locked q)"

text \<open>The loop over the heap that counts the requests ahead.\<close>

fun queue_position :: "PendingRequest list \<Rightarrow> PendingRequest \<Rightarrow> int" where
  "queue_position [] req = 0"
| "queue_position (r # rs) req =
     (if p_Priority r > p_Priority req \<or>
         (p_Priority r = p_Priority req \<and> p_Timestamp r < p_Timestamp req)
      then 1 else 0) + queue_position rs req"

definition queue_Enqueue :: "RequestQueue \<Rightarrow> PendingRequest \<Rightarrow> (int \<times> int) \<times> RequestQueue" where
  "queue_Enqueue q req =
     (if q_closed q \<or> (q_max q > 0 \<and> int (length (q_heap q)) \<ge> q_max q) then ((-1, -1), q)
      else let h = heap_Push req_Less (q_heap q) req
           in ((queue_position h req, int (length h)), cond_Signal (q\<lparr>q_heap := h\<rparr>)))"

datatype dequeue_outcome = Waiting | ClosedNil | Dequeued PendingRequest | DequeuePanic

text \<open>
  \<^verbatim>\<open>DequeueBlocking\<close> up to its next \<^verbatim>\<open>cond.Wait\<close> or return, by the goroutine \<open>g\<close>.  \<open>ctx_done\<close> tells which
  contexts have an error at the moment of the call.  Each round of the loop takes one
  request off the heap; \<open>DequeuePanic\<close> is \<^verbatim>\<open>heap.Pop\<close> on an empty heap, which the guards
  before it exclude (\<open>dequeue_outcome_spec\<close>).
\<close>

function dequeue_heap ::
  "(nat \<Rightarrow> bool) \<Rightarrow> bool \<Rightarrow> PendingRequest list \<Rightarrow> dequeue_outcome \<times> PendingRequest list" where
  "dequeue_heap ctx_done shut h =
     (if h = [] \<and> \<not> shut then (Waiting, h)
      else if shut \<and> h = [] then (ClosedNil, h)
      else case heap_Pop req_Less h of
             None \<Rightarrow> (DequeuePanic, h)
           | Some (item, h') \<Rightarrow>
               if ctx_done (p_Context item) then dequeue_heap ctx_done shut h'
               else (Dequeued item, h'))"
  by pat_completeness auto

lemma heap_Pop_length: "heap_Pop lt h = Some (x, h') \<Longrightarrow> length h' < length h"
  by (auto simp: heap_Pop_def Let_def split: if_splits)

termination dequeue_heap
  by (relation "measure (\<lambda>(d, c, h). length h)") (auto dest: heap_Pop_length)

declare dequeue_heap.simps [simp del]

definition queue_DequeueBlocking ::
  "(nat \<Rightarrow> bool) \<Rightarrow> nat \<Rightarrow> RequestQueue \<Rightarrow> dequeue_outcome \<times> RequestQueue" where
  "queue_DequeueBlocking ctx_done g q =
     (case dequeue_heap ctx_done (q_closed q) (q_heap q) of
        (out, h) \<Rightarrow> let q1 = q\<lparr>q_heap := h\<rparr> in (out, if out = Waiting then cond_Wait g q1 else q1))"

definition queue_Length :: "RequestQueue \<Rightarrow> int" where
  "queue_Length q = int (length (q_heap q))"

text \<open>The search of \<^verbatim>\<open>Remove\<close>: the first index with the given id.  The index found is in
  range, so that the panic of \<^verbatim>\<open>heap.Remove\<close> does not occur (\<open>queue_Remove_found\<close>).\<close>

fun find_request :: "string \<Rightarrow> PendingRequest list \<Rightarrow> nat \<Rightarrow> nat option" where
  "find_request rid [] i = None"
| "find_request rid (r # rs) i = (if p_ID r = rid then Some i else find_request rid rs (Suc i))"

definition queue_Remove :: "RequestQueue \<Rightarrow> string \<Rightarrow> string \<Rightarrow> int \<times> RequestQueue" where
  "queue_Remove q requestID modelAlias =
     (case find_request requestID (q_heap q) 0 of
        None \<Rightarrow> (-1, q)
      | Some i \<Rightarrow>
          (case heap_Remove req_Less (q_heap q) i of
             None \<Rightarrow> (-1, q)
           | Some (_, h) \<Rightarrow> (int i, q\<lparr>q_heap := h\<rparr>)))"

section \<open>The heap contract on requests\<close>

interpretation req_order: weak_order req_Less
  by unfold_locales (auto simp: req_Less_def split: if_splits)

text \<open>A request is live while its context has no error.\<close>

definition live :: "(nat \<Rightarrow> bool) \<Rightarrow> PendingRequest \<Rightarrow> bool" where
  "live ctx_done r \<longleftrightarrow> \<not> ctx_done (p_Context r)"

text \<open>
  One call of the dequeue loop: what is served is live and no live request is before
  it; only cancelled requests disappear besides it; nothing is served exactly when no
  live request is left.
\<close>

definition dequeue_spec ::
  "(nat \<Rightarrow> bool) \<Rightarrow> bool \<Rightarrow> PendingRequest list \<Rightarrow> dequeue_outcome \<Rightarrow> PendingRequest list \<Rightarrow> bool" where
  "dequeue_spec ctx_done shut h out h' \<longleftrightarrow>
     is_heap req_Less h' \<and> mset h' \<subseteq># mset h \<and>
     (case out of
        Dequeued r \<Rightarrow>
          live ctx_done r \<and> (\<forall>s\<in>set h. live ctx_done s \<longrightarrow> \<not> req_Less s r) \<and>
          filter_mset (live ctx_done) (mset h) = add_mset r (filter_mset (live ctx_done) (mset h'))
      | Waiting \<Rightarrow> \<not> shut \<and> h' = [] \<and> (\<forall>s\<in>set h. \<not> live ctx_done s)
      | ClosedNil \<Rightarrow> shut \<and> h' = [] \<and> (\<forall>s\<in>set h. \<not> live ctx_done s)
      | DequeuePanic \<Rightarrow> False)"

lemma dequeue_spec_Cons:
  assumes p: "mset h = add_mset x (mset h1)" and c: "\<not> live d x"
    and s: "dequeue_spec d shut h1 out h'"
  shows "dequeue_spec d shut h out h'"
proof -
  have "set h = insert x (set h1)" using p by (metis set_mset_add_mset_insert set_mset_mset)
  moreover have "mset h1 \<subseteq># mset h" using p by simp
  ultimately show ?thesis
    using s c p by (auto simp: dequeue_spec_def split: dequeue_outcome.splits intro: subset_mset.trans)
qed

lemma dequeue_heap_spec:
  "is_heap req_Less h \<Longrightarrow> dequeue_heap d shut h = (out, h') \<Longrightarrow> dequeue_spec d shut h out h'"
proof (induction d shut h rule: dequeue_heap.induct)
  case (1 d shut h)
  show ?case
  proof (cases "h = []")
    case True
    then show ?thesis using "1.prems"
      by (auto simp: dequeue_heap.simps [of d shut "[]"] dequeue_spec_def split: if_splits)
  next
    case False
    with req_order.heap_Pop_Some [OF "1.prems"(1)] obtain h1 where
      pop: "heap_Pop req_Less h = Some (h ! 0, h1)" and h1: "is_heap req_Less h1"
      and m: "mset h = add_mset (h ! 0) (mset h1)" by blast
    have eq: "(if d (p_Context (h ! 0)) then dequeue_heap d shut h1 else (Dequeued (h ! 0), h1)) = (out, h')"
      using "1.prems"(2) False pop by (simp add: dequeue_heap.simps [of d shut h])
    show ?thesis
    proof (cases "d (p_Context (h ! 0))")
      case True
      with eq have "dequeue_heap d shut h1 = (out, h')" by simp
      then have "dequeue_spec d shut h1 out h'"
        by (rule "1.IH" [OF _ _ pop refl True h1, rotated 2]) (use False in auto)
      then show ?thesis
        using True by (intro dequeue_spec_Cons [OF m]) (simp_all add: live_def)
    next
      case live: False
      have "\<not> req_Less s (h ! 0)" if "s \<in> set h" for s
        using that req_order.heap_root_first [OF "1.prems"(1)] by (auto simp: in_set_conv_nth)
      then show ?thesis
        using eq live h1 m by (auto simp: dequeue_spec_def live_def)
    qed
  qed
qed

section \<open>The queue invariant\<close>

definition queue_inv :: "RequestQueue \<Rightarrow> bool" where
  "queue_inv q \<longleftrightarrow> is_heap req_Less (q_heap q) \<and>
     (q_max q > 0 \<longrightarrow> int (length (q_heap q)) \<le> q_max q)"

lemma queue_inv_new: "queue_inv (NewRequestQueue n)"
  by (simp add: queue_inv_def NewRequestQueue_def req_order.heap_Init_heap)
     (simp add: heap_Init_def)

lemma length_heap_Push [simp]: "length (heap_Push lt h x) = Suc (length h)"
  by (simp add: heap_Push_def)

lemma mset_heap_Push [simp]: "mset (heap_Push lt h x) = add_mset x (mset h)"
  by (simp add: heap_Push_def heap_up_mset)

lemma queue_inv_Enqueue: "queue_inv q \<Longrightarrow> queue_inv (snd (queue_Enqueue q r))"
  by (auto simp: queue_inv_def queue_Enqueue_def cond_Signal_def Let_def intro: req_order.heap_Push_heap)

lemma queue_inv_Close:
  "queue_inv q \<Longrightarrow> queue_inv (queue_close_locked q)" "queue_inv q \<Longrightarrow> queue_inv (cond_Broadcast q)"
  by (simp_all add: queue_inv_def queue_close_locked_def cond_Broadcast_def)

lemma dequeue_outcome_spec:
  "queue_inv q \<Longrightarrow> queue_DequeueBlocking d g q = (out, q') \<Longrightarrow>
   dequeue_spec d (q_closed q) (q_heap q) out (q_heap q') \<and>
   q_max q' = q_max q \<and> q_closed q' = q_closed q \<and>
   q_waiters q' = q_waiters q @ (if out = Waiting then [g] else [])"
  by (auto simp: queue_inv_def queue_DequeueBlocking_def cond_Wait_def Let_def intro: dequeue_heap_spec split: prod.splits)

lemma queue_inv_Dequeue:
  assumes "queue_inv q" shows "queue_inv (snd (queue_DequeueBlocking d g q))"
proof -
  obtain out q' where e: "queue_DequeueBlocking d g q = (out, q')" by fastforce
  have s: "dequeue_spec d (q_closed q) (q_heap q) out (q_heap q')" "q_max q' = q_max q"
    using dequeue_outcome_spec [OF assms e] by blast+
  then have "size (mset (q_heap q')) \<le> size (mset (q_heap q))"
    unfolding dequeue_spec_def by (blast intro: size_mset_mono)
  with s e assms show ?thesis by (auto simp: queue_inv_def dequeue_spec_def)
qed

lemma find_request_Some:
  "find_request rid rs i = Some j \<Longrightarrow> i \<le> j \<and> j - i < length rs \<and> p_ID (rs ! (j - i)) = rid"
proof (induction rid rs i rule: find_request.induct)
  case (2 rid r rs i)
  show ?case
  proof (cases "p_ID r = rid")
    case False
    with 2 have "Suc i \<le> j" "j - Suc i < length rs" "p_ID (rs ! (j - Suc i)) = rid" by auto
    moreover from this have "j - i = Suc (j - Suc i)" by simp
    ultimately show ?thesis by simp
  qed (use 2 in auto)
qed simp

lemma find_request_None: "find_request rid rs i = None \<longleftrightarrow> (\<forall>r\<in>set rs. p_ID r \<noteq> rid)"
  by (induction rid rs i rule: find_request.induct) auto

text \<open>\<^verbatim>\<open>Remove\<close> takes out exactly the request found.\<close>

lemma queue_Remove_found:
  assumes q: "queue_inv q" and f: "find_request rid (q_heap q) 0 = Some i"
  shows "\<exists>h. queue_Remove q rid al = (int i, q\<lparr>q_heap := h\<rparr>) \<and> is_heap req_Less h \<and>
           p_ID (q_heap q ! i) = rid \<and> mset (q_heap q) = add_mset (q_heap q ! i) (mset h)"
proof -
  have i: "i < length (q_heap q)" "p_ID (q_heap q ! i) = rid" using find_request_Some [OF f] by auto
  then show ?thesis
    using req_order.heap_Remove_Some [of "q_heap q" i] q f by (auto simp: queue_inv_def queue_Remove_def)
qed

lemma queue_inv_Remove:
  assumes "queue_inv q" shows "queue_inv (snd (queue_Remove q rid al))"
proof (cases "find_request rid (q_heap q) 0")
  case None
  then show ?thesis using assms by (simp add: queue_Remove_def)
next
  case (Some i)
  from queue_Remove_found [OF assms this] obtain h where
    h: "queue_Remove q rid al = (int i, q\<lparr>q_heap := h\<rparr>)" "is_heap req_Less h"
      "mset (q_heap q) = add_mset (q_heap q ! i) (mset h)" by blast
  then have "length (q_heap q) = Suc (length h)" by (metis size_add_mset size_mset)
  with h assms show ?thesis by (auto simp: queue_inv_def)
qed

lemmas queue_inv_intros =
  queue_inv_new queue_inv_Enqueue queue_inv_Close queue_inv_Dequeue queue_inv_Remove

section \<open>Runs of the queue\<close>

text \<open>
  One atomic part of a method, run by any goroutine that is not asleep.  A run of the queue is a
  sequence of such steps; which contexts are done may change between them.
\<close>

inductive queue_step :: "RequestQueue \<Rightarrow> RequestQueue \<Rightarrow> bool" where
  enqueue: "queue_step q (snd (queue_Enqueue q r))"
| dequeue: "g \<notin> set (q_waiters q) \<Longrightarrow> queue_step q (snd (queue_DequeueBlocking ctx_done g q))"
| remove: "queue_step q (snd (queue_Remove q rid al))"
| close: "queue_step q (queue_close_locked q)"
| broadcast: "queue_step q (cond_Broadcast q)"

inductive queue_reachable :: "int \<Rightarrow> RequestQueue \<Rightarrow> bool" for n where
  start: "queue_reachable n (NewRequestQueue n)"
| step: "queue_reachable n q \<Longrightarrow> queue_step q q' \<Longrightarrow> queue_reachable n q'"

inductive_cases queue_stepE: "queue_step q q'"

lemma queue_step_inv: "queue_step q q' \<Longrightarrow> queue_inv q \<Longrightarrow> queue_inv q'"
  by (erule queue_stepE) (simp_all add: queue_inv_intros)

lemma queue_step_max: "queue_step q q' \<Longrightarrow> q_max q' = q_max q"
  by (erule queue_stepE)
     (auto simp: queue_Enqueue_def queue_DequeueBlocking_def queue_Remove_def queue_close_locked_def cond_Signal_def cond_Wait_def
        cond_Broadcast_def Let_def split: option.splits prod.splits)

lemma queue_reachable_inv_max: "queue_reachable n q \<Longrightarrow> queue_inv q \<and> q_max q = n"
proof (induction rule: queue_reachable.induct)
  case start
  then show ?case using queue_inv_new [of n] by (simp add: NewRequestQueue_def)
next
  case (step q q')
  then show ?case using queue_step_inv queue_step_max by auto
qed

text \<open>Serving the queue: a goroutine, numbered 0, dequeues until nothing is served, at most \<open>n\<close> times.\<close>

fun serve :: "(nat \<Rightarrow> bool) \<Rightarrow> nat \<Rightarrow> RequestQueue \<Rightarrow> PendingRequest list" where
  "serve d 0 q = []"
| "serve d (Suc n) q =
     (case queue_DequeueBlocking d 0 q of
        (Dequeued r, q') \<Rightarrow> r # serve d n q'
      | (_, q') \<Rightarrow> [])"

lemma serve_spec:
  "queue_inv q \<Longrightarrow> length (q_heap q) \<le> n \<Longrightarrow>
   mset (serve d n q) = filter_mset (live d) (mset (q_heap q)) \<and>
   sorted_wrt (\<lambda>a b. \<not> req_Less b a) (serve d n q)"
proof (induction n arbitrary: q)
  case 0
  then show ?case by simp
next
  case (Suc n)
  obtain out q' where e: "queue_DequeueBlocking d 0 q = (out, q')" by fastforce
  have s: "dequeue_spec d (q_closed q) (q_heap q) out (q_heap q')"
    using dequeue_outcome_spec [OF Suc.prems(1) e] by blast
  show ?case
  proof (cases out)
    case (Dequeued r)
    with s have sub: "mset (q_heap q') \<subseteq># mset (q_heap q)"
      and f: "filter_mset (live d) (mset (q_heap q)) = add_mset r (filter_mset (live d) (mset (q_heap q')))"
      and first: "\<forall>s\<in>set (q_heap q). live d s \<longrightarrow> \<not> req_Less s r"
      by (auto simp: dequeue_spec_def)
    have "mset (q_heap q') \<noteq> mset (q_heap q)" using f by auto
    with sub have "length (q_heap q') < length (q_heap q)"
      by (metis mset_subset_size size_mset subset_mset.le_imp_less_or_eq)
    moreover have "queue_inv q'" using queue_inv_Dequeue [OF Suc.prems(1), of d 0] e by simp
    ultimately have ih: "mset (serve d n q') = filter_mset (live d) (mset (q_heap q'))"
      "sorted_wrt (\<lambda>a b. \<not> req_Less b a) (serve d n q')"
      using Suc by auto
    have "\<not> req_Less b r" if "b \<in> set (serve d n q')" for b
    proof -
      from that ih have "b \<in># filter_mset (live d) (mset (q_heap q'))" by (metis set_mset_mset)
      with sub first show ?thesis by (auto dest: mset_subset_eqD)
    qed
    with ih f e Dequeued show ?thesis by simp
  qed (use s e in \<open>auto simp: dequeue_spec_def\<close>)
qed

lemma queue_position_count: "queue_position rs req = int (length (filter (\<lambda>r. req_Less r req) rs))"
  by (induction rs) (auto simp: req_Less_def)

lemma dequeue_outcome_iff:
  assumes "queue_inv q"
  shows "(\<exists>r q'. queue_DequeueBlocking d g q = (Dequeued r, q')) \<longleftrightarrow> (\<exists>s\<in>set (q_heap q). live d s)"
    and "fst (queue_DequeueBlocking d g q) = Waiting \<longleftrightarrow>
      \<not> q_closed q \<and> (\<forall>s\<in>set (q_heap q). \<not> live d s)"
    and "fst (queue_DequeueBlocking d g q) = ClosedNil \<longleftrightarrow>
      q_closed q \<and> (\<forall>s\<in>set (q_heap q). \<not> live d s)"
proof -
  obtain out q' where e: "queue_DequeueBlocking d g q = (out, q')" by fastforce
  have s: "dequeue_spec d (q_closed q) (q_heap q) out (q_heap q')"
    using dequeue_outcome_spec [OF assms e] by blast
  have "\<exists>s\<in>set (q_heap q). live d s" if "out = Dequeued r" for r
  proof -
    have "r \<in># filter_mset (live d) (mset (q_heap q))" using s that by (simp add: dequeue_spec_def)
    then show ?thesis by auto
  qed
  then consider (served) r where "out = Dequeued r" "\<exists>s\<in>set (q_heap q). live d s"
    | (wait) "out = Waiting" "\<not> q_closed q" "\<forall>s\<in>set (q_heap q). \<not> live d s"
    | (nil) "out = ClosedNil" "q_closed q" "\<forall>s\<in>set (q_heap q). \<not> live d s"
    using s by (cases out) (auto simp: dequeue_spec_def)
  note c = this
  show "(\<exists>r q'. queue_DequeueBlocking d g q = (Dequeued r, q')) \<longleftrightarrow> (\<exists>s\<in>set (q_heap q). live d s)"
    by (cases rule: c) (simp_all add: e)
  show "fst (queue_DequeueBlocking d g q) = Waiting \<longleftrightarrow>
      \<not> q_closed q \<and> (\<forall>s\<in>set (q_heap q). \<not> live d s)"
    by (cases rule: c) (simp_all add: e)
  show "fst (queue_DequeueBlocking d g q) = ClosedNil \<longleftrightarrow>
      q_closed q \<and> (\<forall>s\<in>set (q_heap q). \<not> live d s)"
    by (cases rule: c) (simp_all add: e)
qed

text \<open>A request with given id, priority, timestamp and context, for the witnesses.\<close>

definition sample_request :: "string \<Rightarrow> int \<Rightarrow> gotime \<Rightarrow> nat \<Rightarrow> PendingRequest" where
  "sample_request rid prio ts ctx =
     \<lparr>p_ID = rid, p_SessionID = [], p_RequestID = rid, p_Priority = prio, p_APIKeyID = ''k'',
      p_ModelAlias = ''m'', p_EndpointType = EndpointChat, p_Timestamp = ts, p_BodyBytes = [],
      p_Headers = [], p_Method = ''POST'', p_Path = ''/v1/chat/completions'', p_RemoteAddr = [],
      p_ResponseWriter = 0, p_ResultChan = 0, p_Context = ctx, p_QueueWaitMs = 0,
      p_ExecutionMs = 0, p_RatelimitRetries = 0\<rparr>"

text \<open>The queue of the package's own test: a request of low priority, a later one of high
  priority, a still later one of low priority.\<close>

definition sample_queue :: RequestQueue where
  "sample_queue =
     snd (queue_Enqueue (snd (queue_Enqueue (snd (queue_Enqueue (NewRequestQueue 3)
       (sample_request ''low-1'' 1 10 0))) (sample_request ''high-1'' 10 20 1)))
       (sample_request ''low-2'' 1 20 2))"

lemma queue_reachable_Enqueue: "queue_reachable n q \<Longrightarrow> queue_reachable n (snd (queue_Enqueue q r))"
  by (rule queue_reachable.step [OF _ queue_step.enqueue])

lemma sample_queue_reachable: "queue_reachable 3 sample_queue"
  unfolding sample_queue_def by (intro queue_reachable_Enqueue queue_reachable.start)

section \<open>Properties\<close>

text \<open>C1. In every state the queue can reach from \<^verbatim>\<open>NewRequestQueue(n)\<close> by calls of its
  methods in any order, the slice is a heap for \<^verbatim>\<open>Less\<close> and, when \<open>n\<close> is positive, holds
  at most \<open>n\<close> requests.\<close>

theorem queue_invariant:
  assumes "queue_reachable n q"
  shows "is_heap req_Less (q_heap q) \<and> (n > 0 \<longrightarrow> queue_Length q \<le> n)"
  using queue_reachable_inv_max [OF assms] by (auto simp: queue_inv_def queue_Length_def)

theorem queue_invariant_witness: "queue_Length sample_queue \<le> 3"
  using queue_invariant [OF sample_queue_reachable] by simp

text \<open>C2. A request returned by \<^verbatim>\<open>DequeueBlocking\<close> is one of the queue whose context is still
  good, and every other good request has a lower priority, or the same priority and no
  earlier timestamp.  The good requests left in the queue are the ones before the call
  but for the one returned: nothing but it and cancelled requests is taken out.\<close>

theorem dequeue_serves_first:
  assumes q: "queue_reachable n q" and e: "queue_DequeueBlocking d g q = (Dequeued r, q')"
  shows "live d r \<and> r \<in> set (q_heap q) \<and>
    (\<forall>s\<in>set (q_heap q). live d s \<longrightarrow>
       p_Priority s < p_Priority r \<or> (p_Priority s = p_Priority r \<and> p_Timestamp r \<le> p_Timestamp s)) \<and>
    filter_mset (live d) (mset (q_heap q')) = filter_mset (live d) (mset (q_heap q)) - {#r#}"
proof -
  have "queue_inv q" using queue_reachable_inv_max [OF q] by simp
  from dequeue_outcome_spec [OF this e] have
    "live d r" "\<forall>s\<in>set (q_heap q). live d s \<longrightarrow> \<not> req_Less s r"
    and f: "filter_mset (live d) (mset (q_heap q)) = add_mset r (filter_mset (live d) (mset (q_heap q')))"
    by (simp_all add: dequeue_spec_def)
  moreover have "r \<in> set (q_heap q)"
    using f by (metis filter_mset_eq_conv set_mset_mset union_single_eq_member mset_subset_eqD multiset_filter_subset)
  ultimately show ?thesis by (auto simp: req_Less_def split: if_splits)
qed

theorem dequeue_serves_first_witness:
  "live (\<lambda>c. c = 1) (sample_request ''low-1'' 1 10 0) \<and>
   queue_DequeueBlocking (\<lambda>c. c = 1) 0 sample_queue =
     (Dequeued (sample_request ''low-1'' 1 10 0), snd (queue_DequeueBlocking (\<lambda>c. c = 1) 0 sample_queue))"
proof -
  have "queue_DequeueBlocking (\<lambda>c. c = 1) 0 sample_queue =
     (Dequeued (sample_request ''low-1'' 1 10 0), snd (queue_DequeueBlocking (\<lambda>c. c = 1) 0 sample_queue))"
    by code_simp
  from dequeue_serves_first [OF sample_queue_reachable this] this show ?thesis by blast
qed

text \<open>C7. \<^verbatim>\<open>DequeueBlocking\<close> returns a request exactly when the queue holds one whose context is
  good; otherwise it returns nil if the queue is closed and waits if it is open.  It
  never indexes an empty heap.\<close>

theorem dequeue_outcomes:
  assumes "queue_reachable n q"
  shows "((\<exists>r q'. queue_DequeueBlocking d g q = (Dequeued r, q')) \<longleftrightarrow> (\<exists>s\<in>set (q_heap q). live d s)) \<and>
    (fst (queue_DequeueBlocking d g q) = Waiting \<longleftrightarrow>
       \<not> q_closed q \<and> (\<forall>s\<in>set (q_heap q). \<not> live d s)) \<and>
    (fst (queue_DequeueBlocking d g q) = ClosedNil \<longleftrightarrow>
       q_closed q \<and> (\<forall>s\<in>set (q_heap q). \<not> live d s)) \<and>
    fst (queue_DequeueBlocking d g q) \<noteq> DequeuePanic"
proof -
  have i: "queue_inv q" using queue_reachable_inv_max [OF assms] by simp
  obtain out q' where e: "queue_DequeueBlocking d g q = (out, q')" by fastforce
  have "out \<noteq> DequeuePanic" using dequeue_outcome_spec [OF i e] by (auto simp: dequeue_spec_def)
  then show ?thesis using dequeue_outcome_iff [OF i, of d g] e by simp
qed

theorem dequeue_outcomes_witness:
  "fst (queue_DequeueBlocking (\<lambda>c. True) 0 sample_queue) = Waiting"
proof -
  have "\<not> q_closed sample_queue" by code_simp
  then show ?thesis using dequeue_outcomes [OF sample_queue_reachable, of "\<lambda>c. True" 0] by (simp add: live_def)
qed

text \<open>C8. Served until empty, the queue gives every good request once, in an order where no
  request comes out before one of higher priority or, at the same priority, of an
  earlier timestamp.\<close>

theorem serve_order:
  assumes "queue_reachable n q" and "queue_Length q \<le> int k"
  shows "mset (serve d k q) = filter_mset (live d) (mset (q_heap q)) \<and>
    sorted_wrt (\<lambda>a b. p_Priority b < p_Priority a \<or>
      (p_Priority b = p_Priority a \<and> p_Timestamp a \<le> p_Timestamp b)) (serve d k q)"
proof -
  have "(\<lambda>a b. \<not> req_Less b a) =
     (\<lambda>a b. p_Priority b < p_Priority a \<or> (p_Priority b = p_Priority a \<and> p_Timestamp a \<le> p_Timestamp b))"
    by (auto simp: req_Less_def fun_eq_iff)
  then show ?thesis
    using serve_spec [of q k d] queue_reachable_inv_max [OF assms(1)] assms(2)
    by (simp add: queue_Length_def)
qed

theorem serve_order_witness:
  "mset (map p_ID (serve (\<lambda>c. False) 3 sample_queue)) = {#''low-1'', ''high-1'', ''low-2''#} \<and>
   map p_ID (serve (\<lambda>c. False) 3 sample_queue) = [''high-1'', ''low-1'', ''low-2'']"
proof -
  have "queue_Length sample_queue \<le> int 3" by code_simp
  from serve_order [OF sample_queue_reachable this, of "\<lambda>c. False"]
  have "mset (serve (\<lambda>c. False) 3 sample_queue) = mset (q_heap sample_queue)"
    by (simp add: live_def [abs_def])
  then have "mset (map p_ID (serve (\<lambda>c. False) 3 sample_queue)) = mset (map p_ID (q_heap sample_queue))"
    by simp
  moreover have "map p_ID (q_heap sample_queue) = [''high-1'', ''low-1'', ''low-2'']" by code_simp
  moreover have "map p_ID (serve (\<lambda>c. False) 3 sample_queue) = [''high-1'', ''low-1'', ''low-2'']" by code_simp
  ultimately show ?thesis by simp
qed

text \<open>\<^verbatim>\<open>Enqueue\<close> rejects, with \<^verbatim>\<open>(-1, -1)\<close> and the queue unchanged, exactly when the queue
  is closed or a positive capacity is used up.  Otherwise it adds the request and
  nothing else, and returns the number of requests that will be served before it and
  the new length, the former below the latter.\<close>

theorem enqueue_outcome:
  "if q_closed q \<or> (q_max q > 0 \<and> queue_Length q \<ge> q_max q)
   then queue_Enqueue q r = ((-1, -1), q)
   else \<exists>q'. queue_Enqueue q r =
          ((int (length (filter (\<lambda>s. req_Less s r) (q_heap q))), queue_Length q + 1), q') \<and>
        mset (q_heap q') = add_mset r (mset (q_heap q)) \<and>
        q_max q' = q_max q \<and> q_closed q' = q_closed q \<and> q_waiters q' = drop 1 (q_waiters q) \<and>
        fst (fst (queue_Enqueue q r)) < snd (fst (queue_Enqueue q r))"
proof (cases "q_closed q \<or> (q_max q > 0 \<and> queue_Length q \<ge> q_max q)")
  case True
  then show ?thesis by (simp add: queue_Enqueue_def queue_Length_def)
next
  case False
  have "size (filter_mset (\<lambda>s. req_Less s r) (mset (heap_Push req_Less (q_heap q) r))) =
    size (filter_mset (\<lambda>s. req_Less s r) (mset (q_heap q)))"
    by (simp add: req_order.lt_irrefl)
  then have "length (filter (\<lambda>s. req_Less s r) (heap_Push req_Less (q_heap q) r)) =
    length (filter (\<lambda>s. req_Less s r) (q_heap q))"
    by (metis mset_filter size_mset)
  moreover have "int (length (filter (\<lambda>s. req_Less s r) (q_heap q))) < 1 + int (length (q_heap q))"
    using length_filter_le [of "\<lambda>s. req_Less s r" "q_heap q"] by linarith
  ultimately show ?thesis
    using False by (simp add: queue_Enqueue_def queue_Length_def queue_position_count cond_Signal_def Let_def)
qed

text \<open>C11. \<^verbatim>\<open>Remove\<close> takes exactly one request with the given id out of the queue, leaving a heap,
  and returns the index it had; without such a request it returns -1 and changes
  nothing.\<close>

theorem remove_outcome:
  assumes "queue_reachable n q"
  shows "if \<exists>r\<in>set (q_heap q). p_ID r = rid
    then \<exists>i h. queue_Remove q rid al = (int i, q\<lparr>q_heap := h\<rparr>) \<and> is_heap req_Less h \<and>
      i < length (q_heap q) \<and> p_ID (q_heap q ! i) = rid \<and>
      mset (q_heap q) = add_mset (q_heap q ! i) (mset h)
    else queue_Remove q rid al = (-1, q)"
proof -
  have i: "queue_inv q" using queue_reachable_inv_max [OF assms] by simp
  show ?thesis
  proof (cases "find_request rid (q_heap q) 0")
    case None
    then have "\<not> (\<exists>r\<in>set (q_heap q). p_ID r = rid)" by (simp add: find_request_None)
    then show ?thesis using None by (simp add: queue_Remove_def)
  next
    case (Some j)
    then have "\<exists>r\<in>set (q_heap q). p_ID r = rid" using find_request_None [of rid "q_heap q" 0] by auto
    moreover have "j < length (q_heap q)" using find_request_Some [OF Some] by simp
    ultimately show ?thesis using queue_Remove_found [OF i Some, of al] by auto
  qed
qed

theorem remove_outcome_witness:
  "fst (queue_Remove sample_queue ''low-1'' ''m'') = 1 \<and>
   queue_Remove sample_queue ''gone'' ''m'' = (-1, sample_queue)"
proof -
  have "\<not> (\<exists>r\<in>set (q_heap sample_queue). p_ID r = ''gone'')" by code_simp
  then have "queue_Remove sample_queue ''gone'' ''m'' = (-1, sample_queue)"
    using remove_outcome [OF sample_queue_reachable, of "''gone''" "''m''"] by (simp only: if_False)
  moreover have "fst (queue_Remove sample_queue ''low-1'' ''m'') = 1" by code_simp
  ultimately show ?thesis by simp
qed

end
