(* ===== verification/Go_Text.thy ===== *)
theory Go_Text
  imports Prelude
begin

text \<open>
  The parts of Go's \<^verbatim>\<open>strconv\<close>, \<^verbatim>\<open>strings\<close> and \<^verbatim>\<open>unicode/utf8\<close> the program uses: decimal
  formatting and parsing of 64-bit integers with its two errors, prefixes, substring
  search, trimming of white space, splitting, and counting of runes.  The main fact is
  that parsing inverts formatting on the whole \<^verbatim>\<open>int64\<close> range.
\<close>

section \<open>Decimal integers\<close>

definition digit :: "nat \<Rightarrow> char" where
  "digit d = char_of (48 + d)"

definition is_digit :: "char \<Rightarrow> bool" where
  "is_digit c \<longleftrightarrow> 48 \<le> (of_char c :: nat) \<and> (of_char c :: nat) \<le> 57"

definition digit_val :: "char \<Rightarrow> nat" where
  "digit_val c = of_char c - 48"

fun format_nat :: "nat \<Rightarrow> string" where
  "format_nat n = (if n < 10 then [digit n] else format_nat (n div 10) @ [digit (n mod 10)])"

declare format_nat.simps [simp del]

text \<open>\<^verbatim>\<open>strconv.FormatInt(x, 10)\<close>, also the \<^verbatim>\<open>%d\<close> of \<^verbatim>\<open>fmt\<close>.\<close>

definition FormatInt :: "int \<Rightarrow> string" where
  "FormatInt x = (if x < 0 then CHR ''-'' # format_nat (nat (- x)) else format_nat (nat x))"

datatype num_error = ErrSyntax | ErrRange

text \<open>The digit loop of \<^verbatim>\<open>ParseUint(s, 10, 64)\<close>: a bad character is found before an overflow at
  the same position, and an overflow stops the scan.\<close>

fun parse_digits :: "nat \<Rightarrow> string \<Rightarrow> num_error + nat" where
  "parse_digits n [] = Inr n"
| "parse_digits n (c # cs) =
     (if \<not> is_digit c then Inl ErrSyntax
      else if n * 10 + digit_val c \<ge> 2 ^ 64 then Inl ErrRange
      else parse_digits (n * 10 + digit_val c) cs)"

definition ParseUint :: "string \<Rightarrow> num_error + nat" where
  "ParseUint s = (if s = [] then Inl ErrSyntax else parse_digits 0 s)"

text \<open>\<^verbatim>\<open>ParseInt(s, 10, 64)\<close> returns a value also with an error: 0 for bad syntax, the nearest
  bound for a number out of range.\<close>

definition ParseInt :: "string \<Rightarrow> int \<times> num_error option" where
  "ParseInt s =
     (case s of
        [] \<Rightarrow> (0, Some ErrSyntax)
      | c # cs \<Rightarrow>
          let neg = (c = CHR ''-'');
              body = (if c = CHR ''-'' \<or> c = CHR ''+'' then cs else s)
          in (case ParseUint body of
                Inl ErrSyntax \<Rightarrow> (0, Some ErrSyntax)
              | Inl ErrRange \<Rightarrow> (if neg then - (2 ^ 63) else 2 ^ 63 - 1, Some ErrRange)
              | Inr un \<Rightarrow>
                  if \<not> neg \<and> un \<ge> 2 ^ 63 then (2 ^ 63 - 1, Some ErrRange)
                  else if neg \<and> un > 2 ^ 63 then (- (2 ^ 63), Some ErrRange)
                  else (if neg then - int un else int un, None)))"

text \<open>\<^verbatim>\<open>strconv.Atoi\<close> on a 64-bit platform: \<^verbatim>\<open>ParseInt\<close> with the value dropped on an error.\<close>

definition Atoi :: "string \<Rightarrow> int option" where
  "Atoi s = (case ParseInt s of (v, None) \<Rightarrow> Some v | (_, Some _) \<Rightarrow> None)"

lemma of_char_digit: "d < 10 \<Longrightarrow> of_char (digit d) = 48 + d"
  by (simp add: digit_def)

lemma is_digit_digit [simp]: "d < 10 \<Longrightarrow> is_digit (digit d)"
  by (simp add: is_digit_def of_char_digit)

lemma digit_val_digit [simp]: "d < 10 \<Longrightarrow> digit_val (digit d) = d"
  by (simp add: digit_val_def of_char_digit)

lemma format_nat_digits: "c \<in> set (format_nat n) \<Longrightarrow> is_digit c"
proof (induction n rule: format_nat.induct)
  case (1 n)
  then show ?case by (subst (asm) format_nat.simps) (auto split: if_splits)
qed

lemma format_nat_nonempty: "format_nat n \<noteq> []"
  by (subst format_nat.simps) simp

abbreviation digits_value :: "nat \<Rightarrow> string \<Rightarrow> nat" where
  "digits_value \<equiv> foldl (\<lambda>n c. n * 10 + digit_val c)"

lemma digits_value_format: "digits_value 0 (format_nat n) = n"
proof (induction n rule: format_nat.induct)
  case (1 n)
  then show ?case by (subst format_nat.simps) simp
qed

lemma digits_value_ge: "n \<le> digits_value n cs"
proof (induction cs arbitrary: n)
  case (Cons c cs)
  show ?case using Cons.IH [of "n * 10 + digit_val c"] by simp
qed simp

lemma parse_digits_value:
  "\<forall>c\<in>set cs. is_digit c \<Longrightarrow> digits_value n cs < 2 ^ 64 \<Longrightarrow> parse_digits n cs = Inr (digits_value n cs)"
proof (induction cs arbitrary: n)
  case (Cons c cs)
  then show ?case using digits_value_ge [of "n * 10 + digit_val c" cs] by (auto simp: not_le)
qed simp

lemma ParseUint_format: "n < 2 ^ 64 \<Longrightarrow> ParseUint (format_nat n) = Inr n"
  using parse_digits_value [of "format_nat n" 0] format_nat_digits
  by (simp add: ParseUint_def format_nat_nonempty digits_value_format)

lemma is_digit_not_sign: "is_digit c \<Longrightarrow> c \<noteq> CHR ''-'' \<and> c \<noteq> CHR ''+'' \<and> c \<noteq> CHR '':''"
  by (auto simp: is_digit_def)

lemma format_nat_not_sign: "format_nat n = c # cs \<Longrightarrow> c \<noteq> CHR ''-'' \<and> c \<noteq> CHR ''+''"
  using format_nat_digits [of c n] is_digit_not_sign by simp

text \<open>Parsing inverts formatting.\<close>

lemma ParseInt_FormatInt: "is_i64 x \<Longrightarrow> ParseInt (FormatInt x) = (x, None)"
proof (cases "x < 0")
  case True
  assume "is_i64 x"
  then have "ParseUint (format_nat (nat (- x))) = Inr (nat (- x))" "nat (- x) \<le> 2 ^ 63"
    using True by (auto simp: is_i64_def intro: ParseUint_format)
  with True show ?thesis by (simp add: FormatInt_def ParseInt_def)
next
  case False
  assume "is_i64 x"
  then have "ParseUint (format_nat (nat x)) = Inr (nat x)" "nat x < 2 ^ 63"
    using False by (auto simp: is_i64_def nat_less_iff intro: ParseUint_format)
  moreover obtain c cs where "format_nat (nat x) = c # cs"
    using format_nat_nonempty by (cases "format_nat (nat x)") auto
  moreover from this have "c \<noteq> CHR ''-''" "c \<noteq> CHR ''+''" using format_nat_not_sign by blast+
  ultimately show ?thesis using False by (simp add: FormatInt_def ParseInt_def)
qed

lemma ParseInt_range: "is_i64 (fst (ParseInt s))"
  by (auto simp: ParseInt_def is_i64_def Let_def split: list.splits sum.splits num_error.splits)

lemma FormatInt_chars: "c \<in> set (FormatInt x) \<Longrightarrow> is_digit c \<or> c = CHR ''-''"
  by (auto simp: FormatInt_def dest: format_nat_digits split: if_splits)

lemma FormatInt_no_colon: "CHR '':'' \<notin> set (FormatInt x)"
  using FormatInt_chars is_digit_not_sign by fastforce

lemma FormatInt_nonempty: "FormatInt x \<noteq> []"
  by (simp add: FormatInt_def format_nat_nonempty)

lemma FormatInt_inject: "FormatInt x = FormatInt y \<longleftrightarrow> x = y"
proof
  assume e: "FormatInt x = FormatInt y"
  have inj: "m = n" if "format_nat m = format_nat n" for m n
    using that by (metis digits_value_format)
  have sign: "format_nat m \<noteq> CHR ''-'' # cs" for m cs
    using format_nat_not_sign by blast
  show "x = y"
    using e inj sign [symmetric] sign
    by (auto simp: FormatInt_def split: if_splits dest!: inj)
qed simp

lemma format_nat_length:
  "0 < n \<Longrightarrow> 10 ^ (length (format_nat n) - 1) \<le> n \<and> n < 10 ^ length (format_nat n)"
proof (induction n rule: format_nat.induct)
  case (1 n)
  show ?case
  proof (cases "n < 10")
    case True
    then show ?thesis using 1 by (subst (1 2) format_nat.simps) simp
  next
    case False
    define l where "l = length (format_nat (n div 10))"
    have l: "0 < l" using format_nat_nonempty [of "n div 10"] by (simp add: l_def)
    have ih: "10 ^ (l - 1) \<le> n div 10" "n div 10 < 10 ^ l"
      using 1(1) False by (auto simp: l_def)
    have "10 * 10 ^ (l - 1) \<le> n" using ih(1) by (simp add: less_eq_div_iff_mult_less_eq mult.commute)
    moreover have "n < 10 * 10 ^ l" using ih(2) by (simp add: div_less_iff_less_mult mult.commute)
    moreover have "10 * 10 ^ (l - 1) = (10 ^ l :: nat)" using l by (cases l) simp_all
    ultimately show ?thesis using False by (subst (1 2) format_nat.simps) (simp add: l_def)
  qed
qed

lemma format_nat_hd: "0 < n \<Longrightarrow> hd (format_nat n) \<noteq> CHR ''0''"
proof (induction n rule: format_nat.induct)
  case (1 n)
  show ?case
  proof (cases "n < 10")
    case True
    have "digit n \<noteq> CHR ''0''"
    proof
      assume "digit n = CHR ''0''"
      then have "digit_val (digit n) = digit_val (CHR ''0'')" by simp
      then show False using True 1(2) by (simp add: digit_val_def of_char_digit)
    qed
    then show ?thesis using True by (subst format_nat.simps) simp
  next
    case False
    then have "hd (format_nat (n div 10)) \<noteq> CHR ''0''" using 1(1) by simp
    then show ?thesis using False format_nat_nonempty [of "n div 10"] by (subst format_nat.simps) (simp add: hd_append)
  qed
qed

lemma digit_0: "digit 0 = CHR ''0''"
  by code_simp

lemma format_nat_0: "format_nat 0 = ''0''"
  by (subst format_nat.simps) (simp add: digit_0)

lemma digits_value_zeros: "digits_value n (replicate k (CHR ''0'')) = n * 10 ^ k"
  by (induction k arbitrary: n) (simp_all add: digit_val_def)

lemma format_nat_all_digits: "\<forall>c\<in>set (format_nat n). is_digit c"
  using format_nat_digits by blast

section \<open>Strings\<close>

definition HasPrefix :: "string \<Rightarrow> string \<Rightarrow> bool" where
  "HasPrefix s p \<longleftrightarrow> take (length p) s = p"

definition TrimPrefix :: "string \<Rightarrow> string \<Rightarrow> string" where
  "TrimPrefix s p = (if HasPrefix s p then drop (length p) s else s)"

fun str_Contains :: "string \<Rightarrow> string \<Rightarrow> bool" where
  "str_Contains [] sub = (sub = [])"
| "str_Contains (c # cs) sub = (HasPrefix (c # cs) sub \<or> str_Contains cs sub)"

lemma HasPrefix_append [simp]: "HasPrefix (p @ s) p"
  by (simp add: HasPrefix_def)

lemma TrimPrefix_append [simp]: "TrimPrefix (p @ s) p = s"
  by (simp add: TrimPrefix_def)

lemma HasPrefix_iff: "HasPrefix s p \<longleftrightarrow> (\<exists>r. s = p @ r)"
  by (metis HasPrefix_def HasPrefix_append append_take_drop_id)

lemma str_Contains_iff: "str_Contains s sub \<longleftrightarrow> (\<exists>a b. s = a @ sub @ b)"
proof (induction s)
  case (Cons c cs)
  have "(\<exists>a b. c # cs = a @ sub @ b) \<longleftrightarrow> (\<exists>b. c # cs = sub @ b) \<or> (\<exists>a b. cs = a @ sub @ b)"
    by (auto simp: Cons_eq_append_conv)
  then show ?case using Cons.IH by (simp add: HasPrefix_iff)
qed simp

text \<open>\<^verbatim>\<open>strings.Split(s, sep)\<close> for a separator of one character.\<close>

fun split_char :: "char \<Rightarrow> string \<Rightarrow> string list" where
  "split_char sep [] = [[]]"
| "split_char sep (c # cs) =
     (if c = sep then [] # split_char sep cs
      else case split_char sep cs of [] \<Rightarrow> [[c]] | w # ws \<Rightarrow> (c # w) # ws)"

lemma split_char_nonempty: "split_char sep s \<noteq> []"
  by (induction s) (auto split: list.splits)

lemma split_char_append: "split_char c (a @ c # s) = split_char c a @ split_char c s"
proof (induction a)
  case (Cons d a)
  then show ?case using split_char_nonempty [of c a] by (auto split: list.splits)
qed simp

lemma split_char_none: "c \<notin> set l \<Longrightarrow> split_char c l = [l]"
  by (induction l) auto

text \<open>\<^verbatim>\<open>strings.Join\<close>.\<close>

fun join_strings :: "string \<Rightarrow> string list \<Rightarrow> string" where
  "join_strings sep [] = []"
| "join_strings sep [x] = x"
| "join_strings sep (x # y # xs) = x @ sep @ join_strings sep (y # xs)"

text \<open>The UTF-8 encodings of the white space of \<^verbatim>\<open>unicode.IsSpace\<close>, which \<^verbatim>\<open>strings.TrimSpace\<close>
  removes at both ends.\<close>

definition bytes_of :: "nat list \<Rightarrow> string" where
  "bytes_of bs = map char_of bs"

definition space_encodings :: "string list" where
  "space_encodings =
     [[CHR 0x09], [CHR 0x0A], [CHR 0x0B], [CHR 0x0C], [CHR 0x0D], [CHR 0x20],
      [CHR 0xC2, CHR 0x85], [CHR 0xC2, CHR 0xA0], [CHR 0xE1, CHR 0x9A, CHR 0x80],
      [CHR 0xE2, CHR 0x80, CHR 0xA8], [CHR 0xE2, CHR 0x80, CHR 0xA9], [CHR 0xE2, CHR 0x80, CHR 0xAF],
      [CHR 0xE2, CHR 0x81, CHR 0x9F], [CHR 0xE3, CHR 0x80, CHR 0x80],
      [CHR 0xE2, CHR 0x80, CHR 0x80], [CHR 0xE2, CHR 0x80, CHR 0x81], [CHR 0xE2, CHR 0x80, CHR 0x82],
      [CHR 0xE2, CHR 0x80, CHR 0x83], [CHR 0xE2, CHR 0x80, CHR 0x84], [CHR 0xE2, CHR 0x80, CHR 0x85],
      [CHR 0xE2, CHR 0x80, CHR 0x86], [CHR 0xE2, CHR 0x80, CHR 0x87], [CHR 0xE2, CHR 0x80, CHR 0x88],
      [CHR 0xE2, CHR 0x80, CHR 0x89], [CHR 0xE2, CHR 0x80, CHR 0x8A]]"

fun trim_left_fuel :: "nat \<Rightarrow> string \<Rightarrow> string" where
  "trim_left_fuel 0 s = s"
| "trim_left_fuel (Suc n) s =
     (case filter (HasPrefix s) space_encodings of
        [] \<Rightarrow> s
      | w # _ \<Rightarrow> trim_left_fuel n (drop (length w) s))"

fun trim_right_fuel :: "nat \<Rightarrow> string \<Rightarrow> string" where
  "trim_right_fuel 0 s = s"
| "trim_right_fuel (Suc n) s =
     (case filter (\<lambda>w. HasPrefix (rev s) (rev w)) space_encodings of
        [] \<Rightarrow> s
      | w # _ \<Rightarrow> trim_right_fuel n (take (length s - length w) s))"

text \<open>Every round removes at least one byte, so as many rounds as there are bytes suffice.\<close>

definition TrimSpace :: "string \<Rightarrow> string" where
  "TrimSpace s = (let l = trim_left_fuel (length s) s in trim_right_fuel (length l) l)"

section \<open>Runes\<close>

text \<open>The number of bytes the first rune of a non-empty string takes; a byte that starts no
  valid encoding is a rune of its own.\<close>

definition in_range :: "nat \<Rightarrow> nat \<Rightarrow> char \<Rightarrow> bool" where
  "in_range lo hi c \<longleftrightarrow> lo \<le> of_char c \<and> of_char c \<le> hi"

fun rune_len :: "string \<Rightarrow> nat" where
  "rune_len (a # b # c # d # s) =
     (if in_range 0xC2 0xDF a \<and> in_range 0x80 0xBF b then 2
      else if (in_range 0xE0 0xE0 a \<and> in_range 0xA0 0xBF b \<or> in_range 0xE1 0xEC a \<and> in_range 0x80 0xBF b
            \<or> in_range 0xED 0xED a \<and> in_range 0x80 0x9F b \<or> in_range 0xEE 0xEF a \<and> in_range 0x80 0xBF b)
          \<and> in_range 0x80 0xBF c then 3
      else if (in_range 0xF0 0xF0 a \<and> in_range 0x90 0xBF b \<or> in_range 0xF1 0xF3 a \<and> in_range 0x80 0xBF b
            \<or> in_range 0xF4 0xF4 a \<and> in_range 0x80 0x8F b)
          \<and> in_range 0x80 0xBF c \<and> in_range 0x80 0xBF d then 4
      else 1)"
| "rune_len [a, b, c] =
     (if in_range 0xC2 0xDF a \<and> in_range 0x80 0xBF b then 2
      else if (in_range 0xE0 0xE0 a \<and> in_range 0xA0 0xBF b \<or> in_range 0xE1 0xEC a \<and> in_range 0x80 0xBF b
            \<or> in_range 0xED 0xED a \<and> in_range 0x80 0x9F b \<or> in_range 0xEE 0xEF a \<and> in_range 0x80 0xBF b)
          \<and> in_range 0x80 0xBF c then 3
      else 1)"
| "rune_len [a, b] = (if in_range 0xC2 0xDF a \<and> in_range 0x80 0xBF b then 2 else 1)"
| "rune_len s = 1"

lemma rune_len_pos: "0 < rune_len s"
  by (induction s rule: rune_len.induct) auto

text \<open>\<^verbatim>\<open>len([]rune(s))\<close>.\<close>

function rune_count :: "string \<Rightarrow> nat" where
  "rune_count s = (if s = [] then 0 else Suc (rune_count (drop (rune_len s) s)))"
  by pat_completeness auto
termination
  by (relation "measure length") (auto simp: rune_len_pos)

declare rune_count.simps [simp del]

lemma rune_count_le: "rune_count s \<le> length s"
proof (induction s rule: rune_count.induct)
  case (1 s)
  then show ?case
    using rune_len_pos [of s] by (subst rune_count.simps) (auto simp: Suc_le_eq neq_Nil_conv)
qed

lemma rune_count_zero: "rune_count s = 0 \<longleftrightarrow> s = []"
  by (subst rune_count.simps) simp

end
