(* ===== verification/Cache_Interface.thy ===== *)
theory Cache_Interface
  imports Domain Go_Text
begin

text \<open>
  The interface \<^verbatim>\<open>storage.Cache\<close> of \<^verbatim>\<open>internal/storage/interfaces.go\<close> as a record of
  operations on a cache state \<open>'c\<close>.  An implementation reads the clock inside each call;
  the reading is the first argument of every operation, so that no two calls need to see
  the same time.  The error result of \<^verbatim>\<open>IncrBy\<close> is the left side of a sum.

  The locales state what the rate limiter needs of a cache used for counters:
  \<open>counter_cache\<close> for the calls that succeed, \<open>total_counter_cache\<close> for a cache whose
  \<^verbatim>\<open>IncrBy\<close> always does.
\<close>

record 'c cache_ops =
  Cache_Get :: "gotime \<Rightarrow> 'c \<Rightarrow> string \<Rightarrow> bytes option"
  Cache_Set :: "gotime \<Rightarrow> 'c \<Rightarrow> string \<Rightarrow> bytes \<Rightarrow> duration \<Rightarrow> goerror option \<times> 'c"
  Cache_Delete :: "gotime \<Rightarrow> 'c \<Rightarrow> string \<Rightarrow> goerror option \<times> 'c"
  Cache_IncrBy :: "gotime \<Rightarrow> 'c \<Rightarrow> string \<Rightarrow> int \<Rightarrow> duration \<Rightarrow> (goerror + int) \<times> 'c"

text \<open>The number a stored counter stands for: an absent one is 0, and a text that does not
  parse is whatever \<^verbatim>\<open>ParseInt\<close> returns with its error.\<close>

definition counter_value :: "bytes option \<Rightarrow> int" where
  "counter_value v = (case v of None \<Rightarrow> 0 | Some s \<Rightarrow> fst (ParseInt s))"

lemma counter_value_simps [simp]:
  "counter_value None = 0"
  "is_i64 x \<Longrightarrow> counter_value (Some (FormatInt x)) = x"
  by (simp_all add: counter_value_def ParseInt_FormatInt)

lemma counter_value_i64: "is_i64 (counter_value v)"
  using ParseInt_range by (auto simp: counter_value_def is_i64_def split: option.splits)

text \<open>
  The contract.  \<open>keeps c k s T\<close> says that the entry under \<open>k\<close>, if there is one, does not
  expire between the times \<open>s\<close> and \<open>T\<close>.  As long as that holds the counter does not depend on
  the time in that span at which it is read; an increment adds to it with 64-bit wrap-around
  and leaves it good for the span, a fresh one because of its time to live; and no other key
  is touched.
\<close>

locale counter_cache =
  fixes ops :: "'c cache_ops" and keeps :: "'c \<Rightarrow> string \<Rightarrow> gotime \<Rightarrow> gotime \<Rightarrow> bool"
  assumes get_stable: "keeps c k s T \<Longrightarrow> s \<le> t \<Longrightarrow> t \<le> T \<Longrightarrow> s \<le> t' \<Longrightarrow> t' \<le> T \<Longrightarrow>
      Cache_Get ops t c k = Cache_Get ops t' c k"
    and incr_value: "keeps c k s T \<Longrightarrow> s \<le> t \<Longrightarrow> t \<le> T \<Longrightarrow> T \<le> t + ttl \<Longrightarrow> 0 < ttl \<Longrightarrow> is_i64 d \<Longrightarrow>
      Cache_IncrBy ops t c k d ttl = (Inr v, c') \<Longrightarrow>
      v = i64 (counter_value (Cache_Get ops t c k) + d) \<and>
      counter_value (Cache_Get ops t c' k) = v \<and> keeps c' k s T"
    and incr_frame: "Cache_IncrBy ops t c k d ttl = (r, c') \<Longrightarrow> k' \<noteq> k \<Longrightarrow>
      Cache_Get ops t' c' k' = Cache_Get ops t' c k' \<and> keeps c' k' s T = keeps c k' s T"

locale total_counter_cache = counter_cache +
  assumes incr_total: "\<exists>v c'. Cache_IncrBy ops t c k d ttl = (Inr v, c')"
begin

lemma incr_cases:
  obtains v c' where "Cache_IncrBy ops t c k d ttl = (Inr v, c')"
  using incr_total by blast

end

end
