(* ===== verification/Mem_Cache.thy ===== *)
theory Mem_Cache
  imports Cache_Interface
begin

text \<open>
  The in-memory cache of \<^verbatim>\<open>internal/storage/memory/cache.go\<close>: entries with an expiry time,
  \<^verbatim>\<open>Get\<close>, \<^verbatim>\<open>Set\<close>, \<^verbatim>\<open>Delete\<close>, \<^verbatim>\<open>IncrBy\<close>, the sweep of the background goroutine and \<^verbatim>\<open>Close\<close>.
  Each method holds the lock, so a method is one step; \<open>now\<close> is the clock reading of the
  call.  The last section interprets the cache contract on these operations.
\<close>

section \<open>Model\<close>

record cacheEntry =
  ce_value :: bytes
  ce_expireAt :: gotime

definition entry_expired :: "cacheEntry \<Rightarrow> gotime \<Rightarrow> bool" where
  "entry_expired e now \<longleftrightarrow> ce_expireAt e \<noteq> 0 \<and> now > ce_expireAt e"

record MemoryCache =
  mc_entries :: "string \<rightharpoonup> cacheEntry"
  mc_done :: bool

definition NewMemoryCache :: MemoryCache where
  "NewMemoryCache = \<lparr>mc_entries = Map.empty, mc_done = False\<rparr>"

text \<open>One tick of \<^verbatim>\<open>cleanup\<close>: expired entries are deleted.  After \<^verbatim>\<open>Close\<close> the goroutine has
  returned and no tick happens.\<close>

definition mem_cleanup :: "gotime \<Rightarrow> MemoryCache \<Rightarrow> MemoryCache" where
  "mem_cleanup now c =
     (if mc_done c then c
      else c\<lparr>mc_entries := (\<lambda>k. case mc_entries c k of
                None \<Rightarrow> None | Some e \<Rightarrow> if entry_expired e now then None else Some e)\<rparr>)"

definition mem_Get :: "gotime \<Rightarrow> MemoryCache \<Rightarrow> string \<Rightarrow> bytes option" where
  "mem_Get now c key =
     (case mc_entries c key of
        None \<Rightarrow> None
      | Some e \<Rightarrow> if entry_expired e now then None else Some (ce_value e))"

definition mem_Set ::
  "gotime \<Rightarrow> MemoryCache \<Rightarrow> string \<Rightarrow> bytes \<Rightarrow> duration \<Rightarrow> goerror option \<times> MemoryCache" where
  "mem_Set now c key v ttl =
     (None, c\<lparr>mc_entries := (mc_entries c)(key \<mapsto>
        \<lparr>ce_value = v, ce_expireAt = (if ttl > 0 then now + ttl else 0)\<rparr>)\<rparr>)"

definition mem_Delete :: "gotime \<Rightarrow> MemoryCache \<Rightarrow> string \<Rightarrow> goerror option \<times> MemoryCache" where
  "mem_Delete now c key = (None, c\<lparr>mc_entries := (mc_entries c)(key := None)\<rparr>)"

definition mem_IncrBy ::
  "gotime \<Rightarrow> MemoryCache \<Rightarrow> string \<Rightarrow> int \<Rightarrow> duration \<Rightarrow> (goerror + int) \<times> MemoryCache" where
  "mem_IncrBy now c key delta ttl =
     (let fresh = (Inr delta, c\<lparr>mc_entries := (mc_entries c)(key \<mapsto>
            \<lparr>ce_value = FormatInt delta, ce_expireAt = (if ttl > 0 then now + ttl else 0)\<rparr>)\<rparr>)
      in case mc_entries c key of
           None \<Rightarrow> fresh
         | Some e \<Rightarrow>
             if entry_expired e now then fresh
             else let current = (if ce_value e = [] then 0 else fst (ParseInt (ce_value e)));
                      current' = i64 (current + delta)
                  in (Inr current',
                      c\<lparr>mc_entries := (mc_entries c)(key \<mapsto> e\<lparr>ce_value := FormatInt current'\<rparr>)\<rparr>))"

text \<open>\<^verbatim>\<open>Close\<close> closes the channel; doing it twice panics.\<close>

definition mem_Close :: "MemoryCache \<Rightarrow> MemoryCache option" where
  "mem_Close c = (if mc_done c then None else Some (c\<lparr>mc_done := True\<rparr>))"

definition memory_ops :: "MemoryCache cache_ops" where
  "memory_ops = \<lparr>Cache_Get = mem_Get, Cache_Set = mem_Set, Cache_Delete = mem_Delete,
                 Cache_IncrBy = mem_IncrBy\<rparr>"

lemma memory_ops_simps [simp]:
  "Cache_Get memory_ops = mem_Get" "Cache_Set memory_ops = mem_Set"
  "Cache_Delete memory_ops = mem_Delete" "Cache_IncrBy memory_ops = mem_IncrBy"
  by (simp_all add: memory_ops_def)

lemmas mem_defs [cache_simps] =
  mem_Get_def mem_Set_def mem_Delete_def mem_IncrBy_def entry_expired_def

section \<open>The cache contract\<close>

definition mem_keeps :: "MemoryCache \<Rightarrow> string \<Rightarrow> gotime \<Rightarrow> gotime \<Rightarrow> bool" where
  "mem_keeps c k s T \<longleftrightarrow>
     (case mc_entries c k of None \<Rightarrow> True | Some e \<Rightarrow> entry_expired e s \<or> \<not> entry_expired e T)"

lemma mem_incr_value:
  assumes k: "mem_keeps c k s T" "s \<le> t" "t \<le> T" and T: "T \<le> t + ttl" "0 < ttl" and d: "is_i64 d"
    and e: "mem_IncrBy t c k d ttl = (Inr v, c')"
  shows "v = i64 (counter_value (mem_Get t c k) + d) \<and> counter_value (mem_Get t c' k) = v \<and>
    mem_keeps c' k s T"
proof (cases "mem_Get t c k")
  case None
  then show ?thesis using e T d k(2,3)
    by (auto simp: cache_simps mem_keeps_def split: option.splits if_splits)
next
  case (Some a)
  then obtain x where x: "mc_entries c k = Some x" "\<not> entry_expired x t" "ce_value x = a"
    by (auto simp: mem_Get_def split: option.splits if_splits)
  then have "\<not> entry_expired x T" using k by (auto simp: mem_keeps_def entry_expired_def)
  moreover have "counter_value (Some a) = (if a = [] then 0 else fst (ParseInt a))"
    by (simp add: counter_value_def ParseInt_def)
  ultimately show ?thesis using x e k by (auto simp: cache_simps mem_keeps_def Let_def)
qed

interpretation mem: total_counter_cache memory_ops mem_keeps
proof
  fix c k s T t t' ttl d v c' k' r
  show "mem_keeps c k s T \<Longrightarrow> s \<le> t \<Longrightarrow> t \<le> T \<Longrightarrow> s \<le> t' \<Longrightarrow> t' \<le> T \<Longrightarrow>
      Cache_Get memory_ops t c k = Cache_Get memory_ops t' c k"
    by (auto simp: mem_keeps_def cache_simps split: option.splits)
  show "mem_keeps c k s T \<Longrightarrow> s \<le> t \<Longrightarrow> t \<le> T \<Longrightarrow> T \<le> t + ttl \<Longrightarrow> 0 < ttl \<Longrightarrow> is_i64 d \<Longrightarrow>
      Cache_IncrBy memory_ops t c k d ttl = (Inr v, c') \<Longrightarrow>
      v = i64 (counter_value (Cache_Get memory_ops t c k) + d) \<and>
      counter_value (Cache_Get memory_ops t c' k) = v \<and> mem_keeps c' k s T"
    by (simp add: mem_incr_value)
  show "Cache_IncrBy memory_ops t c k d ttl = (r, c') \<Longrightarrow> k' \<noteq> k \<Longrightarrow>
      Cache_Get memory_ops t' c' k' = Cache_Get memory_ops t' c k' \<and> mem_keeps c' k' s T = mem_keeps c k' s T"
    by (auto simp: cache_simps mem_keeps_def Let_def split: option.splits if_splits)
  show "\<exists>v c'. Cache_IncrBy memory_ops t c k d ttl = (Inr v, c')"
    by (auto simp: cache_simps Let_def split: option.splits)
qed

section \<open>Runs of increments\<close>

text \<open>A sequence of \<^verbatim>\<open>IncrBy\<close> calls on one key, each with its clock reading.\<close>

fun incr_run :: "(gotime \<times> int) list \<Rightarrow> string \<Rightarrow> duration \<Rightarrow> MemoryCache \<Rightarrow> MemoryCache" where
  "incr_run [] k ttl c = c"
| "incr_run ((t, d) # xs) k ttl c = incr_run xs k ttl (snd (mem_IncrBy t c k d ttl))"

lemma incr_run_alive:
  assumes "\<forall>(t, d)\<in>set xs. t \<le> T"
    and "mc_entries c k = Some \<lparr>ce_value = FormatInt (i64 s), ce_expireAt = T\<rparr>"
  shows "mc_entries (incr_run xs k ttl c) k =
     Some \<lparr>ce_value = FormatInt (i64 (s + sum_list (map snd xs))), ce_expireAt = T\<rparr>"
  using assms
proof (induction xs arbitrary: c s)
  case (Cons x xs)
  obtain t d where x: "x = (t, d)" by fastforce
  have "mc_entries (snd (mem_IncrBy t c k d ttl)) k =
      Some \<lparr>ce_value = FormatInt (i64 (s + d)), ce_expireAt = T\<rparr>"
    using Cons.prems x
    by (simp add: cache_simps Let_def FormatInt_nonempty ParseInt_FormatInt i64_add_left)
  then have "mc_entries (incr_run xs k ttl (snd (mem_IncrBy t c k d ttl))) k =
      Some \<lparr>ce_value = FormatInt (i64 (s + d + sum_list (map snd xs))), ce_expireAt = T\<rparr>"
    using Cons.IH Cons.prems by simp
  then show ?case by (simp add: x add.assoc)
qed simp

section \<open>Properties\<close>

text \<open>C10. The time to live of a counter is fixed when it is created: whatever increments
  follow in its lifetime, the counter reads as the (64-bit) sum of all of them up to the
  creation time plus the time to live, and is gone after it.\<close>

theorem incr_lifetime:
  assumes "mem_Get t0 c k = None" and "0 < ttl" and "0 \<le> t0" and "is_i64 d0"
    and "\<forall>(t, d)\<in>set xs. t \<le> t0 + ttl"
  shows "(\<forall>t\<le>t0 + ttl. counter_value (mem_Get t (incr_run ((t0, d0) # xs) k ttl c) k) =
        i64 (d0 + sum_list (map snd xs))) \<and>
    (\<forall>t>t0 + ttl. mem_Get t (incr_run ((t0, d0) # xs) k ttl c) k = None)"
proof -
  have "mc_entries (snd (mem_IncrBy t0 c k d0 ttl)) k =
      Some \<lparr>ce_value = FormatInt (i64 d0), ce_expireAt = t0 + ttl\<rparr>"
    using assms(1,2,4) by (auto simp: cache_simps Let_def split: option.splits if_splits)
  from incr_run_alive [OF assms(5) this, of ttl] show ?thesis
    using assms(2,3) by (auto simp: cache_simps)
qed

theorem incr_lifetime_witness:
  "counter_value (mem_Get (100 * Second) (incr_run [(40 * Second, 1), (90 * Second, 1)] ''k'' (61 * Second) NewMemoryCache) ''k'') = 2 \<and>
   mem_Get (102 * Second) (incr_run [(40 * Second, 1), (90 * Second, 1)] ''k'' (61 * Second) NewMemoryCache) ''k'' = None"
proof -
  have "is_i64 1" "i64 2 = 2" by (simp_all add: is_i64_def i64_def)
  then show ?thesis
    using incr_lifetime [of "40 * Second" NewMemoryCache "''k''" "61 * Second" 1 "[(90 * Second, 1)]"]
    by (simp add: Second_def NewMemoryCache_def mem_Get_def)
qed

text \<open>C16. \<^verbatim>\<open>Set\<close> and \<^verbatim>\<open>Get\<close>: a value set at time \<open>now\<close> is read back until its time to live has
  passed (for ever if it is not positive) and not after; other keys are not affected.\<close>

theorem set_get:
  assumes "0 \<le> now"
  shows "mem_Get t (snd (mem_Set now c k v ttl)) k' =
    (if k' = k then if 0 < ttl \<and> now + ttl < t then None else Some v else mem_Get t c k')"
  using assms by (auto simp: cache_simps)

theorem set_get_witness:
  "mem_Get 15 (snd (mem_Set 5 NewMemoryCache ''health:probe'' ''1'' 10)) ''health:probe'' = Some ''1'' \<and>
   mem_Get 16 (snd (mem_Set 5 NewMemoryCache ''health:probe'' ''1'' 10)) ''health:probe'' = None"
  using set_get [of 5 15 NewMemoryCache "''health:probe''" "''1''" 10 "''health:probe''"]
    set_get [of 5 16 NewMemoryCache "''health:probe''" "''1''" 10 "''health:probe''"]
  by simp

text \<open>C15. The sweep of the background goroutine cannot be observed: no later read, and no later
  increment of any key, gives a different result because of it.\<close>

theorem cleanup_invisible:
  assumes "now \<le> t"
  shows "mem_Get t (mem_cleanup now c) k = mem_Get t c k \<and>
    fst (mem_IncrBy t (mem_cleanup now c) k d ttl) = fst (mem_IncrBy t c k d ttl) \<and>
    (\<forall>t'\<ge>t. mem_Get t' (snd (mem_IncrBy t (mem_cleanup now c) k d ttl)) k' =
             mem_Get t' (snd (mem_IncrBy t c k d ttl)) k')"
  using assms by (auto simp: cache_simps mem_cleanup_def Let_def split: option.splits)

theorem cleanup_invisible_witness:
  "mem_Get 20 (mem_cleanup 16 (snd (mem_Set 5 NewMemoryCache ''a'' ''1'' 10))) ''a'' = None"
proof -
  have "mem_Get 20 (snd (mem_Set 5 NewMemoryCache ''a'' ''1'' 10)) ''a'' = None"
    by (simp add: cache_simps NewMemoryCache_def)
  then show ?thesis
    using cleanup_invisible [of 16 20 "snd (mem_Set 5 NewMemoryCache ''a'' ''1'' 10)" "''a''"] by simp
qed

end
