(* ===== verification/Float64.thy ===== *)
theory Float64
  imports Prelude Complex_Main "HOL-Library.Log_Nat"
begin

text \<open>
  Go's \<^verbatim>\<open>float64\<close> arithmetic as the rate limiter uses it.  A float is represented by its
  exact rational value; every operation is the exact one followed by \<open>f64\<close>, rounding to
  53 significant bits, to nearest with ties to even.  The limiter's numbers stay between
  \<open>2 powi (-6)\<close> and \<open>2 powi 65\<close> in magnitude, or are 0, so overflow, subnormal numbers and
  signed zeros do not arise and are left out.

  The locale \<open>rounding\<close> states the two facts clients need, monotonicity and exactness on
  integers up to \<open>2 ^ 53\<close>; it is interpreted on \<open>f64\<close>.
\<close>

section \<open>Rounding to nearest even\<close>

definition round_even :: "rat \<Rightarrow> int" where
  "round_even y =
     (let f = \<lfloor>y\<rfloor>; d = y - of_int f
      in if d < 1 / 2 then f else if d > 1 / 2 then f + 1 else if even f then f else f + 1)"

lemma round_even_of_int [simp]: "round_even (of_int n) = n"
  by (simp add: round_even_def)

lemma round_even_bounds: "\<lfloor>y\<rfloor> \<le> round_even y" "round_even y \<le> \<lfloor>y\<rfloor> + 1"
  by (simp_all add: round_even_def Let_def)

lemma round_even_mono: "x \<le> y \<Longrightarrow> round_even x \<le> round_even y"
proof -
  assume le: "x \<le> y"
  then have fl: "\<lfloor>x\<rfloor> \<le> \<lfloor>y\<rfloor>" by (rule floor_mono)
  show ?thesis
  proof (cases "\<lfloor>x\<rfloor> = \<lfloor>y\<rfloor>")
    case True
    then show ?thesis using le by (auto simp: round_even_def Let_def)
  next
    case False
    then have "\<lfloor>x\<rfloor> + 1 \<le> \<lfloor>y\<rfloor>" using fl by simp
    then show ?thesis using round_even_bounds [of x] round_even_bounds [of y] by linarith
  qed
qed

section \<open>The binary exponent\<close>

definition bin_exp :: "rat \<Rightarrow> int" where
  "bin_exp x =
     (let (p, q) = quotient_of x; k = bitlen p - bitlen q
      in if 2 powi k \<le> x then k else k - 1)"

lemma bitlen_powi: "0 < p \<Longrightarrow> 2 powi (bitlen p - 1) \<le> (of_int p :: rat) \<and> (of_int p :: rat) < 2 powi bitlen p"
proof -
  assume p: "0 < p"
  then have b: "2 ^ nat (bitlen p - 1) \<le> p" "p < 2 ^ nat (bitlen p)" "0 < bitlen p"
    using bitlen_bounds [of p] bitlen_nonneg [of p] bitlen_eq_zero_iff [of p] by (auto simp: less_le)
  have "(of_int (2 ^ nat (bitlen p - 1)) :: rat) \<le> of_int p" "(of_int p :: rat) < of_int (2 ^ nat (bitlen p))"
    using b(1,2) by (simp_all only: of_int_le_iff of_int_less_iff)
  with b(3) show ?thesis by (simp add: power_int_def)
qed

lemma bin_exp_bounds:
  assumes x: "0 < x" shows "2 powi (bin_exp x) \<le> x \<and> x < 2 powi (bin_exp x + 1)"
proof -
  obtain p q where pq: "quotient_of x = (p, q)" by fastforce
  have q: "0 < q" using quotient_of_denom_pos [OF pq] .
  have xe: "x = of_int p / of_int q" using quotient_of_div [OF pq] .
  have p: "0 < p" using x xe q by (simp add: zero_less_divide_iff)
  define k where "k = bitlen p - bitlen q"
  have bp: "2 powi (bitlen p - 1) \<le> (of_int p :: rat)" "(of_int p :: rat) < 2 powi bitlen p"
    and bq: "2 powi (bitlen q - 1) \<le> (of_int q :: rat)" "(of_int q :: rat) < 2 powi bitlen q"
    using bitlen_powi p q by auto
  have "2 powi (k - 1) = (2 powi (bitlen p - 1) / 2 powi bitlen q :: rat)"
    by (simp add: k_def power_int_diff power_int_add field_simps)
  also have "\<dots> < x" unfolding xe using bp bq q by (intro frac_less2) auto
  finally have lo: "2 powi (k - 1) < x" .
  have "x < 2 powi bitlen p / 2 powi (bitlen q - 1)" unfolding xe using bp bq p by (intro frac_less) auto
  also have "\<dots> = 2 powi (k + 1)" by (simp add: k_def power_int_diff power_int_add)
  finally have hi: "x < 2 powi (k + 1)" .
  have "bin_exp x = (if 2 powi k \<le> x then k else k - 1)" by (simp add: bin_exp_def pq k_def)
  then show ?thesis using lo hi by auto
qed

lemma powi2_le_iff: "(2 powi m :: rat) \<le> 2 powi n \<longleftrightarrow> m \<le> n"
  using power_int_increasing [of m n "2 :: rat"] power_int_strict_increasing [of n m "2 :: rat"]
  by (meson linorder_not_le not_le one_less_numeral_iff order_less_imp_le semiring_norm(76))

section \<open>Rounding to a double\<close>

definition f64_pos :: "rat \<Rightarrow> rat" where
  "f64_pos x = (let u = 2 powi (bin_exp x - 52) in of_int (round_even (x / u)) * u)"

definition f64 :: "rat \<Rightarrow> rat" where
  "f64 x = (if x = 0 then 0 else if x < 0 then - f64_pos (- x) else f64_pos x)"

text \<open>The rounded value stays within the binade.\<close>

lemma f64_pos_binade:
  assumes x: "0 < x" shows "2 powi (bin_exp x) \<le> f64_pos x \<and> f64_pos x \<le> 2 powi (bin_exp x + 1)"
proof -
  define u :: rat where "u = 2 powi (bin_exp x - 52)"
  have u: "0 < u" by (simp add: u_def)
  have e: "2 powi (bin_exp x) = of_int (2 ^ 52) * u" "2 powi (bin_exp x + 1) = of_int (2 ^ 53) * u"
    by (simp_all add: u_def power_int_diff power_int_add)
  have "of_int (2 ^ 52) \<le> x / u" "x / u \<le> of_int (2 ^ 53)"
    using bin_exp_bounds [OF x] u unfolding e by (simp_all add: field_simps)
  then have "2 ^ 52 \<le> round_even (x / u)" "round_even (x / u) \<le> 2 ^ 53"
    using round_even_mono [of "of_int (2 ^ 52)" "x / u"] round_even_mono [of "x / u" "of_int (2 ^ 53)"]
    by (simp_all only: round_even_of_int)
  then have "(of_int (2 ^ 52) :: rat) \<le> of_int (round_even (x / u))" "(of_int (round_even (x / u)) :: rat) \<le> of_int (2 ^ 53)"
    by (simp_all only: of_int_le_iff)
  with u show ?thesis
    unfolding e by (simp add: f64_pos_def Let_def flip: u_def)
qed

lemma f64_pos_pos: "0 < x \<Longrightarrow> 0 < f64_pos x"
  using f64_pos_binade [of x] by (meson less_le_trans zero_less_power_int zero_less_numeral)

lemma f64_pos_mono:
  assumes x: "0 < x" and le: "x \<le> y" shows "f64_pos x \<le> f64_pos y"
proof -
  have y: "0 < y" using x le by simp
  have "2 powi bin_exp x < (2 powi (bin_exp y + 1) :: rat)"
    using bin_exp_bounds [OF x] bin_exp_bounds [OF y] le by linarith
  then have "\<not> bin_exp y + 1 \<le> bin_exp x" by (simp flip: powi2_le_iff)
  then have ee: "bin_exp x \<le> bin_exp y" by simp
  show ?thesis
  proof (cases "bin_exp x = bin_exp y")
    case True
    define u :: rat where "u = 2 powi (bin_exp y - 52)"
    have u: "0 < u" by (simp add: u_def)
    then have "round_even (x / u) \<le> round_even (y / u)"
      using le by (intro round_even_mono) (simp add: divide_right_mono)
    then show ?thesis using u True by (simp add: f64_pos_def Let_def mult_right_mono flip: u_def)
  next
    case False
    then have "2 powi (bin_exp x + 1) \<le> (2 powi (bin_exp y) :: rat)"
      using ee by (simp add: powi2_le_iff)
    then show ?thesis using f64_pos_binade [OF x] f64_pos_binade [OF y] by linarith
  qed
qed

lemma f64_mono: "x \<le> y \<Longrightarrow> f64 x \<le> f64 y"
  using f64_pos_mono [of x y] f64_pos_mono [of "- y" "- x"] f64_pos_pos [of y] f64_pos_pos [of "- x"]
  by (auto simp: f64_def)

text \<open>Integers of at most 53 bits are represented exactly.\<close>

lemma f64_pos_int:
  assumes n: "0 < n" "n \<le> 2 ^ 53" shows "f64_pos (of_int n) = of_int n"
proof -
  define e where "e = bin_exp (of_int n)"
  have pos: "(0 :: rat) < of_int n" using n by simp
  have b: "2 powi e \<le> (of_int n :: rat)" "(of_int n :: rat) < 2 powi (e + 1)"
    using bin_exp_bounds [OF pos] by (simp_all add: e_def)
  have "(of_int n :: rat) \<le> 2 powi 53" using n(2) by (simp add: power_int_def flip: of_int_le_iff)
  with b have "(2 powi e :: rat) \<le> 2 powi 53" by linarith
  then have e53: "e \<le> 53" by (simp only: powi2_le_iff)
  show ?thesis
  proof (cases "e = 53")
    case True
    then have "(of_int n :: rat) = of_int (2 ^ 53)" using b n by (simp add: power_int_def)
    then have "n = 2 ^ 53" by (simp only: of_int_eq_iff)
    moreover have "round_even (of_int (2 ^ 53) / 2) = 2 ^ 52"
      using round_even_of_int [of "2 ^ 52"] by simp
    moreover have "f64_pos (of_int n) = of_int (round_even (of_int n / 2 powi (e - 52))) * 2 powi (e - 52)"
      by (simp add: f64_pos_def Let_def e_def)
    ultimately show ?thesis using True by simp
  next
    case False
    define k where "k = nat (52 - e)"
    have u: "(2 powi (e - 52) :: rat) = inverse (2 ^ k)"
      using e53 False by (simp add: k_def power_int_def power_inverse inverse_eq_divide power_divide)
    have "of_int n / inverse (2 ^ k) = (of_int (n * 2 ^ k) :: rat)" by (simp add: field_simps)
    then have "round_even (of_int n / inverse (2 ^ k)) = n * 2 ^ k"
      by (simp only: round_even_of_int)
    then show ?thesis by (simp add: f64_pos_def Let_def u flip: e_def)
  qed
qed

lemma f64_int: "\<bar>n\<bar> \<le> 2 ^ 53 \<Longrightarrow> f64 (of_int n) = of_int n"
  using f64_pos_int [of n] f64_pos_int [of "- n"] by (auto simp: f64_def)

section \<open>The contract\<close>

locale rounding =
  fixes rnd :: "rat \<Rightarrow> rat"
  assumes rnd_mono: "x \<le> y \<Longrightarrow> rnd x \<le> rnd y"
    and rnd_int: "\<bar>n\<bar> \<le> 2 ^ 53 \<Longrightarrow> rnd (of_int n) = of_int n"
begin

lemma rnd_0 [simp]: "rnd 0 = 0"
  using rnd_int [of 0] by simp

lemma rnd_1 [simp]: "rnd 1 = 1"
  using rnd_int [of 1] by simp

lemma rnd_nonneg: "0 \<le> x \<Longrightarrow> 0 \<le> rnd x"
  using rnd_mono [of 0 x] by simp

lemma rnd_le_int: "x \<le> of_int n \<Longrightarrow> \<bar>n\<bar> \<le> 2 ^ 53 \<Longrightarrow> rnd x \<le> of_int n"
  using rnd_mono [of x "of_int n"] by (simp add: rnd_int)

lemma rnd_ge_int: "of_int n \<le> x \<Longrightarrow> \<bar>n\<bar> \<le> 2 ^ 53 \<Longrightarrow> of_int n \<le> rnd x"
  using rnd_mono [of "of_int n" x] by (simp add: rnd_int)

end

interpretation f64: rounding f64
  by unfold_locales (simp_all add: f64_mono f64_int)

end
