(* ===== verification/Rate_Limiter.thy ===== *)
theory Rate_Limiter
  imports Mem_Cache Float64
begin

text \<open>
  The three-layer rate limiter of \<^verbatim>\<open>internal/ratelimit/limiter.go\<close> over any cache
  (\<open>cache_ops\<close>).  The cache state and the number of clock readings made so far are passed
  explicitly: \<open>clk i\<close> is what the \<open>i\<close>-th reading of the clock returns, be it the limiter's own
  or the one inside a cache operation.  The lock only guards \<^verbatim>\<open>modelLimits\<close>; a call is
  modelled as running alone.  \<^verbatim>\<open>keyLimits\<close> is a function that may be nil.

  The float expressions are rounded after each operation.  \<^verbatim>\<open>int(estimated)\<close> truncates; its
  value outside the 64-bit range, which Go leaves open, is not described.

  The lemmas are proved for every cache that satisfies the contract of
  \<^verbatim>\<open>Cache_Interface\<close>, the properties are their instances for the in-memory cache.
\<close>

section \<open>Model\<close>

record Limiter =
  lim_global :: RateLimitConfig
  lim_models :: "string \<rightharpoonup> RateLimitConfig"
  lim_keys :: "(string \<Rightarrow> RateLimitConfig option) option"
  lim_logged :: "string set"

definition lim_New ::
  "RateLimitConfig \<Rightarrow> (string \<rightharpoonup> RateLimitConfig) option \<Rightarrow>
   (string \<Rightarrow> RateLimitConfig option) option \<Rightarrow> Limiter" where
  "lim_New global modelLimits keyLimits =
     \<lparr>lim_global = global,
      lim_models = (case modelLimits of None \<Rightarrow> Map.empty | Some m \<Rightarrow> m),
      lim_keys = keyLimits, lim_logged = {}\<rparr>"

definition UpdateModelLimits :: "Limiter \<Rightarrow> (string \<rightharpoonup> RateLimitConfig) \<Rightarrow> Limiter" where
  "UpdateModelLimits l limits = l\<lparr>lim_models := limits\<rparr>"

definition modelRPM :: "Limiter \<Rightarrow> string \<Rightarrow> int" where
  "modelRPM l alias = (case lim_models l alias of Some cfg \<Rightarrow> rl_RPM cfg | None \<Rightarrow> 0)"

definition modelTPM :: "Limiter \<Rightarrow> string \<Rightarrow> int" where
  "modelTPM l alias = (case lim_models l alias of Some cfg \<Rightarrow> rl_TPM cfg | None \<Rightarrow> 0)"

definition keyRPM :: "Limiter \<Rightarrow> string \<Rightarrow> int" where
  "keyRPM l keyID =
     (case lim_keys l of None \<Rightarrow> 0
      | Some f \<Rightarrow> (case f keyID of None \<Rightarrow> 0 | Some cfg \<Rightarrow> rl_RPM cfg))"

definition keyTPM :: "Limiter \<Rightarrow> string \<Rightarrow> int" where
  "keyTPM l keyID =
     (case lim_keys l of None \<Rightarrow> 0
      | Some f \<Rightarrow> (case f keyID of None \<Rightarrow> 0 | Some cfg \<Rightarrow> rl_TPM cfg))"

definition rpmKey :: "string \<Rightarrow> string \<Rightarrow> int \<Rightarrow> string" where
  "rpmKey scope ident ts =
     (if ident = [] then ''rl:rpm:'' @ scope @ '':'' @ FormatInt ts
      else ''rl:rpm:'' @ scope @ '':'' @ ident @ '':'' @ FormatInt ts)"

definition tpmKey :: "string \<Rightarrow> string \<Rightarrow> int \<Rightarrow> string" where
  "tpmKey scope ident ts =
     (if ident = [] then ''rl:tpm:'' @ scope @ '':'' @ FormatInt ts
      else ''rl:tpm:'' @ scope @ '':'' @ ident @ '':'' @ FormatInt ts)"

definition window_of :: "gotime \<Rightarrow> int" where
  "window_of now = go_div (Unix now) 60"

text \<open>\<^verbatim>\<open>weight\<close> and \<^verbatim>\<open>estimated\<close>, with the rounding of each float operation.\<close>

definition window_weight :: "gotime \<Rightarrow> rat" where
  "window_weight now = f64 (f64 (of_int (second_of now)) / 60)"

definition estimated :: "int \<Rightarrow> int \<Rightarrow> rat \<Rightarrow> rat" where
  "estimated currCount prevCount weight =
     f64 (f64 (of_int currCount) + f64 (f64 (of_int prevCount) * f64 (1 - weight)))"

definition go_trunc :: "rat \<Rightarrow> int" where
  "go_trunc x = (if 0 \<le> x then \<lfloor>x\<rfloor> else \<lceil>x\<rceil>)"

text \<open>The cache state with the index of the next clock reading.\<close>

type_synonym 'c cworld = "'c \<times> nat"
type_synonym clock = "nat \<Rightarrow> gotime"
type_synonym layer = "string \<times> string \<times> int"

definition limit_ttl :: duration where
  "limit_ttl = 61 * Second"

definition getCount :: "'c cache_ops \<Rightarrow> clock \<Rightarrow> 'c cworld \<Rightarrow> string \<Rightarrow> int \<times> 'c cworld" where
  "getCount ops clk w key =
     (counter_value (Cache_Get ops (clk (snd w)) (fst w) key), (fst w, Suc (snd w)))"

definition cache_incr ::
  "'c cache_ops \<Rightarrow> clock \<Rightarrow> 'c cworld \<Rightarrow> string \<Rightarrow> int \<Rightarrow> (goerror + int) \<times> 'c cworld" where
  "cache_incr ops clk w key d =
     (let (r, c') = Cache_IncrBy ops (clk (snd w)) (fst w) key d limit_ttl in (r, (c', Suc (snd w))))"

fun undo :: "'c cache_ops \<Rightarrow> clock \<Rightarrow> 'c cworld \<Rightarrow> string list \<Rightarrow> 'c cworld" where
  "undo ops clk w [] = w"
| "undo ops clk w (k # ks) = undo ops clk (snd (cache_incr ops clk w k (-1))) ks"

definition empty_status :: RateLimitStatus where
  "empty_status = \<lparr>RPMCurrent = 0, RPMLimit = 0, TPMCurrent = 0, TPMLimit = 0, BlockReason = []\<rparr>"

type_synonym verdict = "bool \<times> RateLimitStatus \<times> goerror option"

text \<open>The two loops.  \<open>Inl\<close> is an early return of \<^verbatim>\<open>AllowRequest\<close>, \<open>Inr\<close> the end of the loop, with
  the list \<^verbatim>\<open>incremented\<close>.\<close>

fun rpm_loop ::
  "'c cache_ops \<Rightarrow> clock \<Rightarrow> int \<Rightarrow> rat \<Rightarrow> layer list \<Rightarrow> string list \<Rightarrow> 'c cworld \<Rightarrow>
   (verdict + string list) \<times> 'c cworld" where
  "rpm_loop ops clk ts weight [] incremented w = (Inr incremented, w)"
| "rpm_loop ops clk ts weight ((scope, ident, limit) # layers) incremented w =
     (if limit \<le> 0 then rpm_loop ops clk ts weight layers incremented w
      else let currKey = rpmKey scope ident ts; prevKey = rpmKey scope ident (ts - 1);
               (prevCount, w1) = getCount ops clk w prevKey
           in (case cache_incr ops clk w1 currKey 1 of
                 (Inl err, w2) \<Rightarrow>
                   (Inl (False, empty_status\<lparr>BlockReason := ''cache_error''\<rparr>,
                         Some (wrap_error ''ratelimit: rpm cache error: '' err)),
                    undo ops clk w2 incremented)
               | (Inr currCount, w2) \<Rightarrow>
                   let est = estimated currCount prevCount weight
                   in if est > f64 (of_int limit)
                      then (Inl (False, empty_status\<lparr>BlockReason := ''limit_exceeded'',
                                   RPMCurrent := go_trunc est, RPMLimit := limit\<rparr>, None),
                            undo ops clk w2 (incremented @ [currKey]))
                      else rpm_loop ops clk ts weight layers (incremented @ [currKey]) w2))"

fun tpm_loop ::
  "'c cache_ops \<Rightarrow> clock \<Rightarrow> int \<Rightarrow> rat \<Rightarrow> layer list \<Rightarrow> string list \<Rightarrow> 'c cworld \<Rightarrow>
   verdict \<times> 'c cworld" where
  "tpm_loop ops clk ts weight [] incremented w = ((True, empty_status, None), w)"
| "tpm_loop ops clk ts weight ((scope, ident, limit) # layers) incremented w =
     (if limit \<le> 0 then tpm_loop ops clk ts weight layers incremented w
      else let (currCount, w1) = getCount ops clk w (tpmKey scope ident ts);
               (prevCount, w2) = getCount ops clk w1 (tpmKey scope ident (ts - 1));
               est = estimated currCount prevCount weight
           in if est \<ge> f64 (of_int limit)
              then ((False, empty_status\<lparr>BlockReason := ''limit_exceeded'',
                       TPMCurrent := go_trunc est, TPMLimit := limit\<rparr>, None),
                    undo ops clk w2 incremented)
              else tpm_loop ops clk ts weight layers incremented w2)"

definition rpm_layers :: "Limiter \<Rightarrow> string \<Rightarrow> string \<Rightarrow> layer list" where
  "rpm_layers l keyID alias =
     [(''global'', '''', rl_RPM (lim_global l)), (''model'', alias, modelRPM l alias),
      (''key'', keyID, keyRPM l keyID)]"

definition tpm_layers :: "Limiter \<Rightarrow> string \<Rightarrow> string \<Rightarrow> layer list" where
  "tpm_layers l keyID alias =
     [(''global'', '''', rl_TPM (lim_global l)), (''model'', alias, modelTPM l alias),
      (''key'', keyID, keyTPM l keyID)]"

text \<open>The state change of \<^verbatim>\<open>logActiveLimit\<close>: the pairs whose limits were logged.  The log line
  itself is output only.\<close>

definition logActiveLimit :: "Limiter \<Rightarrow> string \<Rightarrow> string \<Rightarrow> Limiter" where
  "logActiveLimit l keyID model = l\<lparr>lim_logged := insert (model @ '':'' @ keyID) (lim_logged l)\<rparr>"

definition no_limits :: "Limiter \<Rightarrow> string \<Rightarrow> string \<Rightarrow> bool" where
  "no_limits l keyID alias \<longleftrightarrow>
     rl_RPM (lim_global l) \<le> 0 \<and> rl_TPM (lim_global l) \<le> 0 \<and> modelRPM l alias \<le> 0 \<and>
     modelTPM l alias \<le> 0 \<and> keyRPM l keyID \<le> 0 \<and> keyTPM l keyID \<le> 0"

definition AllowRequest ::
  "'c cache_ops \<Rightarrow> clock \<Rightarrow> Limiter \<Rightarrow> 'c cworld \<Rightarrow> string \<Rightarrow> string \<Rightarrow> verdict \<times> Limiter \<times> 'c cworld" where
  "AllowRequest ops clk l w keyID alias =
     (if no_limits l keyID alias then ((True, empty_status, None), l, w)
      else let l' = logActiveLimit l keyID alias;
               now = clk (snd w); w0 = (fst w, Suc (snd w));
               ts = window_of now; weight = window_weight now
           in (case rpm_loop ops clk ts weight (rpm_layers l' keyID alias) [] w0 of
                 (Inl v, w1) \<Rightarrow> (v, l', w1)
               | (Inr incremented, w1) \<Rightarrow>
                   let (v, w2) = tpm_loop ops clk ts weight (tpm_layers l' keyID alias) incremented w1
                   in (v, l', w2)))"

fun record_loop ::
  "'c cache_ops \<Rightarrow> clock \<Rightarrow> int \<Rightarrow> string list \<Rightarrow> 'c cworld \<Rightarrow> goerror option \<times> 'c cworld" where
  "record_loop ops clk delta [] w = (None, w)"
| "record_loop ops clk delta (k # ks) w =
     (case cache_incr ops clk w k delta of
        (Inl err, w') \<Rightarrow> (Some (wrap_error ''ratelimit: record tokens: '' err), w')
      | (Inr _, w') \<Rightarrow> record_loop ops clk delta ks w')"

definition RecordTokens ::
  "'c cache_ops \<Rightarrow> clock \<Rightarrow> 'c cworld \<Rightarrow> string \<Rightarrow> string \<Rightarrow> int \<Rightarrow> goerror option \<times> 'c cworld" where
  "RecordTokens ops clk w keyID alias actualTokens =
     (if actualTokens \<le> 0 then (None, w)
      else let ts = window_of (clk (snd w))
           in record_loop ops clk actualTokens
                [tpmKey ''global'' '''' ts, tpmKey ''model'' alias ts, tpmKey ''key'' keyID ts]
                (fst w, Suc (snd w)))"

definition plain_error :: "string \<Rightarrow> goerror" where
  "plain_error s = \<lparr>err_text = s, err_deadline = False, err_canceled = False\<rparr>"

definition lim_Check :: "'c cache_ops \<Rightarrow> clock \<Rightarrow> 'c cworld \<Rightarrow> goerror option \<times> 'c cworld" where
  "lim_Check ops clk w =
     (case Cache_Set ops (clk (snd w)) (fst w) ''health:probe'' ''1'' (10 * Second) of
        (Some err, c') \<Rightarrow> (Some (wrap_error ''cache write: '' err), (c', Suc (snd w)))
      | (None, c') \<Rightarrow>
          (if Cache_Get ops (clk (Suc (snd w))) c' ''health:probe'' = None
           then (Some (plain_error ''cache read: wrote but could not read back''), (c', Suc (Suc (snd w))))
           else (None, (c', Suc (Suc (snd w))))))"

section \<open>Counter keys\<close>

lemma split_at_colon:
  "CHR '':'' \<notin> set a \<Longrightarrow> CHR '':'' \<notin> set b \<Longrightarrow>
   a @ CHR '':'' # x = b @ CHR '':'' # y \<longleftrightarrow> a = b \<and> x = y"
  by (auto simp: append_eq_append_conv2 append_eq_Cons_conv Cons_eq_append_conv)

lemma split_at_last_colon:
  "CHR '':'' \<notin> set x \<Longrightarrow> CHR '':'' \<notin> set y \<Longrightarrow>
   a @ CHR '':'' # x = b @ CHR '':'' # y \<longleftrightarrow> a = b \<and> x = y"
  by (auto simp: append_eq_append_conv2 append_eq_Cons_conv Cons_eq_append_conv)

lemma colon_neq: "CHR '':'' \<notin> set x \<Longrightarrow> x \<noteq> a @ CHR '':'' # y"
  by auto

lemmas key_simps = split_at_colon split_at_last_colon colon_neq colon_neq [symmetric]
  FormatInt_no_colon FormatInt_inject

lemma rpmKey_eq_iff:
  assumes "CHR '':'' \<notin> set sc" "CHR '':'' \<notin> set sc'"
  shows "rpmKey sc i ts = rpmKey sc' i' ts' \<longleftrightarrow> sc = sc' \<and> i = i' \<and> ts = ts'"
  using assms by (auto simp: rpmKey_def key_simps)

lemma tpmKey_eq_iff:
  assumes "CHR '':'' \<notin> set sc" "CHR '':'' \<notin> set sc'"
  shows "tpmKey sc i ts = tpmKey sc' i' ts' \<longleftrightarrow> sc = sc' \<and> i = i' \<and> ts = ts'"
  using assms by (auto simp: tpmKey_def key_simps)

lemma rpmKey_neq_tpmKey [simp]: "rpmKey sc i ts \<noteq> tpmKey sc' i' ts'"
  by (simp add: rpmKey_def tpmKey_def)

section \<open>Counters over a span of time\<close>

abbreviation cval :: "'c cache_ops \<Rightarrow> gotime \<Rightarrow> 'c \<Rightarrow> string \<Rightarrow> int" where
  "cval ops t c k \<equiv> counter_value (Cache_Get ops t c k)"

text \<open>All clock readings fall in a span no longer than the time to live.\<close>

definition clock_within :: "clock \<Rightarrow> gotime \<Rightarrow> gotime \<Rightarrow> bool" where
  "clock_within clk s T \<longleftrightarrow> (\<forall>i. s \<le> clk i \<and> clk i \<le> T) \<and> T \<le> s + limit_ttl"

text \<open>Over the span every counter \<open>k\<close> has moved by \<open>f k\<close>.\<close>

definition shifts ::
  "'c cache_ops \<Rightarrow> ('c \<Rightarrow> string \<Rightarrow> gotime \<Rightarrow> gotime \<Rightarrow> bool) \<Rightarrow> gotime \<Rightarrow> gotime \<Rightarrow>
   (string \<Rightarrow> int) \<Rightarrow> 'c \<Rightarrow> 'c \<Rightarrow> bool" where
  "shifts ops keeps s T f c c' \<longleftrightarrow>
     (\<forall>k t. s \<le> t \<and> t \<le> T \<longrightarrow> cval ops t c' k = i64 (cval ops t c k + f k)) \<and>
     (\<forall>k. keeps c k s T \<longrightarrow> keeps c' k s T)"

lemma shifts_refl: "shifts ops keeps s T (\<lambda>_. 0) c c"
  by (simp add: shifts_def counter_value_i64)

lemma shifts_trans:
  "shifts ops keeps s T f c c' \<Longrightarrow> shifts ops keeps s T g c' c'' \<Longrightarrow>
   shifts ops keeps s T (\<lambda>k. f k + g k) c c''"
  by (simp add: shifts_def i64_add_left add.assoc)

lemma shifts_cval:
  "shifts ops keeps s T f c c' \<Longrightarrow> s \<le> t \<Longrightarrow> t \<le> T \<Longrightarrow> cval ops t c' k = i64 (cval ops t c k + f k)"
  by (simp add: shifts_def)

lemma shifts_cval_0:
  "shifts ops keeps s T f c c' \<Longrightarrow> s \<le> t \<Longrightarrow> t \<le> T \<Longrightarrow> f k = 0 \<Longrightarrow> cval ops t c' k = cval ops t c k"
  by (simp add: shifts_def counter_value_i64)

lemma shifts_keeps: "shifts ops keeps s T f c c' \<Longrightarrow> keeps c k s T \<Longrightarrow> keeps c' k s T"
  by (simp add: shifts_def)

lemma shifts_cong: "shifts ops keeps s T f c c' \<Longrightarrow> (\<And>k. f k = g k) \<Longrightarrow> shifts ops keeps s T g c c'"
  by (simp add: shifts_def)

abbreviation bump :: "string \<Rightarrow> int \<Rightarrow> string \<Rightarrow> int" where
  "bump k d k' \<equiv> (if k' = k then d else 0)"

abbreviation drops :: "string list \<Rightarrow> string \<Rightarrow> int" where
  "drops ks k \<equiv> - int (count_list ks k)"

text \<open>What a layer contributes: the reading of the current counter, incremented, with the
  previous window's counter as read at some time of the span.\<close>

definition distinct_scopes :: "layer list \<Rightarrow> bool" where
  "distinct_scopes layers \<longleftrightarrow> distinct (map fst layers) \<and> (\<forall>x\<in>set layers. CHR '':'' \<notin> set (fst x))"

definition active_keys :: "int \<Rightarrow> layer list \<Rightarrow> string list" where
  "active_keys ts layers = [rpmKey sc i ts. (sc, i, L) \<leftarrow> layers, 0 < L]"

definition rpm_admitted ::
  "'c cache_ops \<Rightarrow> gotime \<Rightarrow> gotime \<Rightarrow> 'c \<Rightarrow> int \<Rightarrow> rat \<Rightarrow> layer \<Rightarrow> bool" where
  "rpm_admitted ops s T c ts wt = (\<lambda>(sc, i, L). L \<le> 0 \<or>
     (\<exists>t. s \<le> t \<and> t \<le> T \<and> estimated (i64 (cval ops s c (rpmKey sc i ts) + 1))
        (cval ops t c (rpmKey sc i (ts - 1))) wt \<le> f64 (of_int L)))"

definition rpm_blocked ::
  "'c cache_ops \<Rightarrow> gotime \<Rightarrow> gotime \<Rightarrow> 'c \<Rightarrow> int \<Rightarrow> rat \<Rightarrow> layer \<Rightarrow> bool" where
  "rpm_blocked ops s T c ts wt = (\<lambda>(sc, i, L). 0 < L \<and>
     (\<exists>t. s \<le> t \<and> t \<le> T \<and> estimated (i64 (cval ops s c (rpmKey sc i ts) + 1))
        (cval ops t c (rpmKey sc i (ts - 1))) wt > f64 (of_int L)))"

text \<open>Either loop end is described from the state at its start: \<open>Inl\<close> is a blocked layer with
  every counter put back, \<open>Inr\<close> has every active layer within its limit and counted once.\<close>

definition rpm_post ::
  "'c cache_ops \<Rightarrow> ('c \<Rightarrow> string \<Rightarrow> gotime \<Rightarrow> gotime \<Rightarrow> bool) \<Rightarrow> gotime \<Rightarrow> gotime \<Rightarrow>
   int \<Rightarrow> rat \<Rightarrow> layer list \<Rightarrow> string list \<Rightarrow> 'c \<Rightarrow> verdict + string list \<Rightarrow> 'c \<Rightarrow> bool" where
  "rpm_post ops keeps s T ts wt layers inc c r c' = (case r of
      Inl v \<Rightarrow> \<not> fst v \<and> snd (snd v) = None \<and> shifts ops keeps s T (drops inc) c c' \<and>
        (\<exists>x\<in>set layers. rpm_blocked ops s T c ts wt x)
    | Inr inc' \<Rightarrow> inc' = inc @ active_keys ts layers \<and>
        shifts ops keeps s T (\<lambda>k. int (count_list (active_keys ts layers) k)) c c' \<and>
        (\<forall>x\<in>set layers. rpm_admitted ops s T c ts wt x))"

definition tpm_admitted ::
  "'c cache_ops \<Rightarrow> gotime \<Rightarrow> gotime \<Rightarrow> 'c \<Rightarrow> int \<Rightarrow> rat \<Rightarrow> layer \<Rightarrow> bool" where
  "tpm_admitted ops s T c ts wt = (\<lambda>(sc, i, L). L \<le> 0 \<or>
     (\<exists>t t'. s \<le> t \<and> t \<le> T \<and> s \<le> t' \<and> t' \<le> T \<and> estimated (cval ops t c (tpmKey sc i ts))
        (cval ops t' c (tpmKey sc i (ts - 1))) wt < f64 (of_int L)))"

definition tpm_blocked ::
  "'c cache_ops \<Rightarrow> gotime \<Rightarrow> gotime \<Rightarrow> 'c \<Rightarrow> int \<Rightarrow> rat \<Rightarrow> layer \<Rightarrow> bool" where
  "tpm_blocked ops s T c ts wt = (\<lambda>(sc, i, L). 0 < L \<and>
     (\<exists>t t'. s \<le> t \<and> t \<le> T \<and> s \<le> t' \<and> t' \<le> T \<and> estimated (cval ops t c (tpmKey sc i ts))
        (cval ops t' c (tpmKey sc i (ts - 1))) wt \<ge> f64 (of_int L)))"

text \<open>When the readings do not depend on the time, each layer is judged by one estimate.\<close>

lemma rpm_admitted_stable:
  assumes "s \<le> T" "\<And>t k. s \<le> t \<Longrightarrow> t \<le> T \<Longrightarrow> cval ops t c k = cval ops s c k"
  shows
    "rpm_admitted ops s T c ts wt (sc, i, L) \<longleftrightarrow> (0 < L \<longrightarrow>
       estimated (i64 (cval ops s c (rpmKey sc i ts) + 1)) (cval ops s c (rpmKey sc i (ts - 1))) wt \<le> f64 (of_int L))"
    "rpm_blocked ops s T c ts wt (sc, i, L) \<longleftrightarrow> \<not> (0 < L \<longrightarrow>
       estimated (i64 (cval ops s c (rpmKey sc i ts) + 1)) (cval ops s c (rpmKey sc i (ts - 1))) wt \<le> f64 (of_int L))"
    "tpm_admitted ops s T c ts wt (sc, i, L) \<longleftrightarrow> (0 < L \<longrightarrow>
       estimated (cval ops s c (tpmKey sc i ts)) (cval ops s c (tpmKey sc i (ts - 1))) wt < f64 (of_int L))"
    "tpm_blocked ops s T c ts wt (sc, i, L) \<longleftrightarrow> \<not> (0 < L \<longrightarrow>
       estimated (cval ops s c (tpmKey sc i ts)) (cval ops s c (tpmKey sc i (ts - 1))) wt < f64 (of_int L))"
proof -
  have ex: "(\<exists>t. s \<le> t \<and> t \<le> T \<and> P (cval ops t c k)) \<longleftrightarrow> P (cval ops s c k)" for P k
    using assms by (metis order.refl)
  have ex2: "(\<exists>t t'. s \<le> t \<and> t \<le> T \<and> s \<le> t' \<and> t' \<le> T \<and> P (cval ops t c k) (cval ops t' c k')) \<longleftrightarrow>
      P (cval ops s c k) (cval ops s c k')" for P k k'
    using assms by (metis order.refl)
  show "rpm_admitted ops s T c ts wt (sc, i, L) \<longleftrightarrow> (0 < L \<longrightarrow>
       estimated (i64 (cval ops s c (rpmKey sc i ts) + 1)) (cval ops s c (rpmKey sc i (ts - 1))) wt \<le> f64 (of_int L))"
    unfolding rpm_admitted_def prod.case ex [of "\<lambda>x. estimated _ x wt \<le> _"] by auto
  show "rpm_blocked ops s T c ts wt (sc, i, L) \<longleftrightarrow> \<not> (0 < L \<longrightarrow>
       estimated (i64 (cval ops s c (rpmKey sc i ts) + 1)) (cval ops s c (rpmKey sc i (ts - 1))) wt \<le> f64 (of_int L))"
    unfolding rpm_blocked_def prod.case ex [of "\<lambda>x. estimated _ x wt > _"] by auto
  show "tpm_admitted ops s T c ts wt (sc, i, L) \<longleftrightarrow> (0 < L \<longrightarrow>
       estimated (cval ops s c (tpmKey sc i ts)) (cval ops s c (tpmKey sc i (ts - 1))) wt < f64 (of_int L))"
    unfolding tpm_admitted_def prod.case ex2 [of "\<lambda>x y. estimated x y wt < _"] by auto
  show "tpm_blocked ops s T c ts wt (sc, i, L) \<longleftrightarrow> \<not> (0 < L \<longrightarrow>
       estimated (cval ops s c (tpmKey sc i ts)) (cval ops s c (tpmKey sc i (ts - 1))) wt < f64 (of_int L))"
    unfolding tpm_blocked_def prod.case ex2 [of "\<lambda>x y. estimated x y wt \<ge> _"] by auto
qed

lemma rpm_reads_same:
  assumes "shifts ops keeps s T (bump (rpmKey sc i ts) d) c c'" "s \<le> T"
    and "fst y \<noteq> sc" "CHR '':'' \<notin> set (fst y)" "CHR '':'' \<notin> set sc"
  shows "rpm_blocked ops s T c' ts wt y = rpm_blocked ops s T c ts wt y \<and>
    rpm_admitted ops s T c' ts wt y = rpm_admitted ops s T c ts wt y"
proof -
  have "cval ops t c' (rpmKey (fst y) j ts') = cval ops t c (rpmKey (fst y) j ts')"
    if "s \<le> t" "t \<le> T" for t j ts'
    using shifts_cval_0 [OF assms(1) that] assms(3-5) by (simp add: rpmKey_eq_iff)
  then show ?thesis using assms(2)
    by (cases y) (auto simp: rpm_blocked_def rpm_admitted_def)
qed

lemma tpm_reads_same:
  assumes sh: "shifts ops keeps s T (\<lambda>k. int (count_list (active_keys ts layers) k)) c c'"
  shows "tpm_blocked ops s T c' ts wt y = tpm_blocked ops s T c ts wt y \<and>
    tpm_admitted ops s T c' ts wt y = tpm_admitted ops s T c ts wt y"
proof -
  have "cval ops t c' (tpmKey sc j ts') = cval ops t c (tpmKey sc j ts')"
    if "s \<le> t" "t \<le> T" for t sc j ts'
    by (rule shifts_cval_0 [OF sh that])
      (auto simp: count_list_0_iff active_keys_def rpmKey_neq_tpmKey [symmetric])
  then show ?thesis by (cases y) (simp add: tpm_blocked_def tpm_admitted_def cong: conj_cong)
qed

text \<open>The outcome of \<^verbatim>\<open>AllowRequest\<close>: an accepted request is within every limit and is counted
  once in each active layer, a refused one is over some limit and leaves no trace.\<close>

definition allow_post ::
  "'c cache_ops \<Rightarrow> ('c \<Rightarrow> string \<Rightarrow> gotime \<Rightarrow> gotime \<Rightarrow> bool) \<Rightarrow> gotime \<Rightarrow> gotime \<Rightarrow>
   int \<Rightarrow> rat \<Rightarrow> layer list \<Rightarrow> layer list \<Rightarrow> 'c \<Rightarrow> bool \<Rightarrow> 'c \<Rightarrow> bool" where
  "allow_post ops keeps s T ts wt R U c ok c' =
     (if ok then shifts ops keeps s T (\<lambda>k. int (count_list (active_keys ts R) k)) c c' \<and>
        (\<forall>x\<in>set R. rpm_admitted ops s T c ts wt x) \<and> (\<forall>x\<in>set U. tpm_admitted ops s T c ts wt x)
      else shifts ops keeps s T (\<lambda>_. 0) c c' \<and>
        ((\<exists>x\<in>set R. rpm_blocked ops s T c ts wt x) \<or> (\<exists>x\<in>set U. tpm_blocked ops s T c ts wt x)))"

lemma allow_post_shifts:
  "allow_post ops keeps s T ts wt R U c ok c' \<Longrightarrow>
   shifts ops keeps s T (\<lambda>k. if ok then int (count_list (active_keys ts R) k) else 0) c c'"
  by (cases ok) (simp_all add: allow_post_def)

lemma layers_logged [simp]:
  "rpm_layers (logActiveLimit l k m) kid al = rpm_layers l kid al"
  "tpm_layers (logActiveLimit l k m) kid al = tpm_layers l kid al"
  by (simp_all add: logActiveLimit_def rpm_layers_def tpm_layers_def modelRPM_def modelTPM_def
      keyRPM_def keyTPM_def)

lemma distinct_scopes_rpm_layers [simp]: "distinct_scopes (rpm_layers l kid al)"
  by (simp add: distinct_scopes_def rpm_layers_def)

lemma clock_within_at:
  assumes "clock_within clk s T"
  shows "s \<le> clk i" "clk i \<le> T" "T \<le> clk i + limit_ttl" "s \<le> T"
proof -
  show a: "s \<le> clk i" "clk i \<le> T" using assms by (simp_all add: clock_within_def)
  then show "s \<le> T" by linarith
  show "T \<le> clk i + limit_ttl" using assms a unfolding clock_within_def by linarith
qed

lemma limit_ttl_pos [simp]: "0 < limit_ttl"
  by (simp add: limit_ttl_def Second_def)

lemma is_i64_unit [simp]: "is_i64 1" "is_i64 (-1)" "is_i64 0"
  by (simp_all add: is_i64_def)

context total_counter_cache
begin

lemma cache_incr_shifts:
  assumes cw: "clock_within clk s T" and k: "keeps (fst w) k s T" and d: "is_i64 d"
  obtains c' where
    "cache_incr ops clk w k d = (Inr (i64 (cval ops s (fst w) k + d)), (c', Suc (snd w)))"
    "shifts ops keeps s T (bump k d) (fst w) c'"
proof -
  obtain v c' where e: "Cache_IncrBy ops (clk (snd w)) (fst w) k d limit_ttl = (Inr v, c')"
    using incr_total by blast
  have at: "s \<le> clk (snd w)" "clk (snd w) \<le> T" "T \<le> clk (snd w) + limit_ttl" "s \<le> T"
    by (rule clock_within_at [OF cw])+
  have v: "v = i64 (cval ops (clk (snd w)) (fst w) k + d)" "cval ops (clk (snd w)) c' k = v" "keeps c' k s T"
    using incr_value [OF k at(1-3) limit_ttl_pos d e] by simp_all
  have st: "Cache_Get ops t c k = Cache_Get ops (clk (snd w)) c k"
    if "keeps c k s T" "s \<le> t" "t \<le> T" for c t
    using get_stable [OF that at(1,2)] .
  have "keeps c' k' s T" if "keeps (fst w) k' s T" for k'
    using that v(3) incr_frame [OF e, of k'] by (cases "k' = k") auto
  then have "shifts ops keeps s T (bump k d) (fst w) c'"
    using v st [OF v(3)] st [OF k] incr_frame [OF e]
    by (auto simp: shifts_def counter_value_i64)
  moreover have "cache_incr ops clk w k d = (Inr (i64 (cval ops s (fst w) k + d)), (c', Suc (snd w)))"
    using e v(1) st [OF k order.refl at(4)] by (simp add: cache_incr_def)
  ultimately show ?thesis using that by blast
qed

lemma undo_shifts:
  assumes cw: "clock_within clk s T" and "\<forall>k\<in>set ks. keeps (fst w) k s T"
  shows "shifts ops keeps s T (drops ks) (fst w) (fst (undo ops clk w ks))"
  using assms(2)
proof (induction ks arbitrary: w)
  case Nil
  then show ?case by (simp add: shifts_refl)
next
  case (Cons k ks)
  obtain v c' where e: "cache_incr ops clk w k (-1) = (v, (c', Suc (snd w)))"
      and sh: "shifts ops keeps s T (bump k (-1)) (fst w) c'"
    using cache_incr_shifts [OF cw, of w k "-1" thesis] Cons.prems by auto
  have "shifts ops keeps s T (drops ks) c' (fst (undo ops clk (c', Suc (snd w)) ks))"
    using Cons.IH [of "(c', Suc (snd w))"] Cons.prems shifts_keeps [OF sh] by simp
  from shifts_trans [OF sh this] show ?case
    using e by (auto intro: shifts_cong)
qed

lemma rpm_loop_active:
  assumes cw: "clock_within clk s T" and k: "keeps (fst w) (rpmKey sc i ts) s T" and L: "0 < L"
  obtains v p c' where
    "rpm_loop ops clk ts wt ((sc, i, L) # layers) inc w =
      (if estimated v p wt > f64 (of_int L)
       then (Inl (False, empty_status\<lparr>BlockReason := ''limit_exceeded'',
                RPMCurrent := go_trunc (estimated v p wt), RPMLimit := L\<rparr>, None),
             undo ops clk (c', Suc (Suc (snd w))) (inc @ [rpmKey sc i ts]))
       else rpm_loop ops clk ts wt layers (inc @ [rpmKey sc i ts]) (c', Suc (Suc (snd w))))"
    "shifts ops keeps s T (bump (rpmKey sc i ts) 1) (fst w) c'"
    "estimated v p wt > f64 (of_int L) \<longrightarrow> rpm_blocked ops s T (fst w) ts wt (sc, i, L)"
    "\<not> estimated v p wt > f64 (of_int L) \<longrightarrow> rpm_admitted ops s T (fst w) ts wt (sc, i, L)"
proof -
  define ck where "ck = rpmKey sc i ts"
  define p where "p = cval ops (clk (snd w)) (fst w) (rpmKey sc i (ts - 1))"
  define v where "v = i64 (cval ops s (fst w) ck + 1)"
  obtain c' where e: "cache_incr ops clk (fst w, Suc (snd w)) ck 1 = (Inr v, (c', Suc (Suc (snd w))))"
    and sh: "shifts ops keeps s T (bump ck 1) (fst w) c'"
    using cache_incr_shifts [OF cw, of "(fst w, Suc (snd w))" ck 1 thesis] k by (auto simp: v_def ck_def)
  have rd: "s \<le> clk (snd w)" "clk (snd w) \<le> T" by (rule clock_within_at [OF cw])+
  show ?thesis
  proof (rule that [of v p c'])
    show "shifts ops keeps s T (bump (rpmKey sc i ts) 1) (fst w) c'" using sh by (simp add: ck_def)
    show "estimated v p wt > f64 (of_int L) \<longrightarrow> rpm_blocked ops s T (fst w) ts wt (sc, i, L)"
      using L rd by (auto simp: rpm_blocked_def v_def p_def ck_def)
    show "\<not> estimated v p wt > f64 (of_int L) \<longrightarrow> rpm_admitted ops s T (fst w) ts wt (sc, i, L)"
      using L rd by (auto simp: rpm_admitted_def v_def p_def ck_def not_less)
  qed (use L e in \<open>simp add: ck_def p_def getCount_def Let_def\<close>)
qed

lemma rpm_post_skip:
  "L \<le> 0 \<Longrightarrow> rpm_post ops keeps s T ts wt layers inc c r c' \<Longrightarrow> rpm_post ops keeps s T ts wt ((sc, i, L) # layers) inc c r c'"
  by (auto simp: rpm_post_def rpm_admitted_def active_keys_def split: sum.splits)

lemma rpm_post_step:
  assumes sh: "shifts ops keeps s T (bump (rpmKey sc i ts) 1) c c1" and sT: "s \<le> T"
    and d: "distinct_scopes ((sc, i, L) # layers)" and L: "0 < L"
    and ad: "rpm_admitted ops s T c ts wt (sc, i, L)"
    and post: "rpm_post ops keeps s T ts wt layers (inc @ [rpmKey sc i ts]) c1 r c'"
  shows "rpm_post ops keeps s T ts wt ((sc, i, L) # layers) inc c r c'"
proof -
  have same: "rpm_blocked ops s T c1 ts wt y = rpm_blocked ops s T c ts wt y \<and>
      rpm_admitted ops s T c1 ts wt y = rpm_admitted ops s T c ts wt y" if "y \<in> set layers" for y
    by (rule rpm_reads_same [OF sh sT]) (use that d in \<open>auto simp: distinct_scopes_def\<close>)
  have ak: "active_keys ts ((sc, i, L) # layers) = rpmKey sc i ts # active_keys ts layers"
    using L by (simp add: active_keys_def)
  show ?thesis
  proof (cases r)
    case (Inl v)
    then have "shifts ops keeps s T (drops inc) c c'"
      using post shifts_trans [OF sh, of "drops (inc @ [rpmKey sc i ts])" c']
      by (auto simp: rpm_post_def intro: shifts_cong)
    then show ?thesis using Inl post same by (auto simp: rpm_post_def)
  next
    case (Inr inc')
    then have "shifts ops keeps s T (\<lambda>k. int (count_list (active_keys ts ((sc, i, L) # layers)) k)) c c'"
      using post shifts_trans [OF sh, of "\<lambda>k. int (count_list (active_keys ts layers) k)" c']
      by (auto simp: rpm_post_def ak intro: shifts_cong)
    then show ?thesis using Inr post same ad by (auto simp: rpm_post_def ak)
  qed
qed

lemma rpm_loop_spec:
  assumes cw: "clock_within clk s T"
    and "rpm_loop ops clk ts wt layers inc w = (r, w')"
    and "distinct_scopes layers"
    and "\<forall>(sc, i, L)\<in>set layers. keeps (fst w) (rpmKey sc i ts) s T"
    and "\<forall>k\<in>set inc. keeps (fst w) k s T"
  shows "rpm_post ops keeps s T ts wt layers inc (fst w) r (fst w')"
  using assms(2-)
proof (induction layers arbitrary: inc w)
  case Nil
  then show ?case by (auto simp: rpm_post_def shifts_refl active_keys_def)
next
  case (Cons x layers)
  obtain sc i L where x: "x = (sc, i, L)" by (cases x)
  have d: "distinct_scopes layers" using Cons.prems(2) by (simp add: distinct_scopes_def)
  show ?case
  proof (cases "0 < L")
    case False
    then show ?thesis
      using Cons.IH [OF _ d, of inc w] Cons.prems by (simp add: x rpm_post_skip)
  next
    case True
    have k: "keeps (fst w) (rpmKey sc i ts) s T" using Cons.prems(3) by (simp add: x)
    obtain v p c' where step: "rpm_loop ops clk ts wt ((sc, i, L) # layers) inc w =
      (if estimated v p wt > f64 (of_int L)
       then (Inl (False, empty_status\<lparr>BlockReason := ''limit_exceeded'',
                RPMCurrent := go_trunc (estimated v p wt), RPMLimit := L\<rparr>, None),
             undo ops clk (c', Suc (Suc (snd w))) (inc @ [rpmKey sc i ts]))
       else rpm_loop ops clk ts wt layers (inc @ [rpmKey sc i ts]) (c', Suc (Suc (snd w))))"
      and sh: "shifts ops keeps s T (bump (rpmKey sc i ts) 1) (fst w) c'"
      and bl: "estimated v p wt > f64 (of_int L) \<longrightarrow> rpm_blocked ops s T (fst w) ts wt (sc, i, L)"
      and ad: "\<not> estimated v p wt > f64 (of_int L) \<longrightarrow> rpm_admitted ops s T (fst w) ts wt (sc, i, L)"
      by (rule rpm_loop_active [OF cw k True, where wt = wt and layers = layers and inc = inc])
    have kinc: "\<forall>k\<in>set (inc @ [rpmKey sc i ts]). keeps c' k s T"
      using Cons.prems(4) k shifts_keeps [OF sh] by auto
    show ?thesis
    proof (cases "estimated v p wt > f64 (of_int L)")
      case True
      have "shifts ops keeps s T (drops (inc @ [rpmKey sc i ts])) c' (fst w')"
        using undo_shifts [OF cw, of "inc @ [rpmKey sc i ts]" "(c', Suc (Suc (snd w)))"]
          kinc Cons.prems(1) step True by (auto simp: x)
      from shifts_trans [OF sh this] have "shifts ops keeps s T (drops inc) (fst w) (fst w')"
        by (rule shifts_cong) auto
      then show ?thesis using Cons.prems(1) step True bl by (auto simp: x rpm_post_def)
    next
      case False
      have "\<forall>(sc, i, L)\<in>set layers. keeps c' (rpmKey sc i ts) s T"
        using Cons.prems(3) shifts_keeps [OF sh] by auto
      then have "rpm_post ops keeps s T ts wt layers (inc @ [rpmKey sc i ts]) c' r (fst w')"
        using Cons.IH [of "inc @ [rpmKey sc i ts]" "(c', Suc (Suc (snd w)))"] d kinc Cons.prems(1) step False
        by (simp add: x)
      then show ?thesis
        using rpm_post_step [OF sh clock_within_at(4) [OF cw] _ True ad [rule_format, OF False]] Cons.prems(2) by (simp add: x)
    qed
  qed
qed

lemma tpm_loop_spec:
  assumes cw: "clock_within clk s T"
    and "tpm_loop ops clk ts wt layers inc w = (v, w')"
    and "\<forall>k\<in>set inc. keeps (fst w) k s T"
  shows "snd (snd v) = None \<and>
    (if fst v then fst w' = fst w \<and> (\<forall>x\<in>set layers. tpm_admitted ops s T (fst w) ts wt x)
     else shifts ops keeps s T (drops inc) (fst w) (fst w') \<and>
          (\<exists>x\<in>set layers. tpm_blocked ops s T (fst w) ts wt x))"
  using assms(2-)
proof (induction layers arbitrary: w)
  case (Cons x layers)
  obtain sc i L where x: "x = (sc, i, L)" by (cases x)
  define cu where "cu = cval ops (clk (snd w)) (fst w) (tpmKey sc i ts)"
  define p where "p = cval ops (clk (Suc (snd w))) (fst w) (tpmKey sc i (ts - 1))"
  have rd: "s \<le> clk j \<and> clk j \<le> T" for j using clock_within_at [OF cw] by blast
  show ?case
  proof (cases "0 < L \<and> estimated cu p wt \<ge> f64 (of_int L)")
    case True
    then have "tpm_blocked ops s T (fst w) ts wt x"
      using rd by (auto simp: x tpm_blocked_def cu_def p_def)
    then show ?thesis
      using True Cons.prems undo_shifts [OF cw, of inc "(fst w, Suc (Suc (snd w)))"]
      by (auto simp: x getCount_def Let_def cu_def p_def)
  next
    case False
    then have "tpm_admitted ops s T (fst w) ts wt x"
      using rd by (auto simp: x tpm_admitted_def cu_def p_def not_le)
    moreover have "tpm_loop ops clk ts wt layers inc (fst w, if 0 < L then Suc (Suc (snd w)) else snd w) = (v, w')"
      using False Cons.prems(1) by (auto simp: x getCount_def Let_def cu_def p_def split: if_splits)
    ultimately show ?thesis using Cons.IH Cons.prems(2) by fastforce
  qed
qed auto

lemma allow_spec:
  assumes cw: "clock_within clk s T"
    and run: "AllowRequest ops clk l w kid al = (v, l', w')"
    and ts: "window_of (clk (snd w)) = ts"
    and k: "\<forall>(sc, i, L)\<in>set (rpm_layers l kid al). keeps (fst w) (rpmKey sc i ts) s T"
  shows "snd (snd v) = None \<and> l' = (if no_limits l kid al then l else logActiveLimit l kid al) \<and>
    allow_post ops keeps s T ts (window_weight (clk (snd w))) (rpm_layers l kid al) (tpm_layers l kid al)
      (fst w) (fst v) (fst w')"
proof (cases "no_limits l kid al")
  case True
  then show ?thesis using run
    by (auto simp: AllowRequest_def no_limits_def allow_post_def active_keys_def shifts_refl
        rpm_layers_def tpm_layers_def rpm_admitted_def tpm_admitted_def)
next
  case False
  define wt where "wt = window_weight (clk (snd w))"
  define R where "R = rpm_layers l kid al"
  define U where "U = tpm_layers l kid al"
  have l': "l' = logActiveLimit l kid al"
    using run False by (auto simp: AllowRequest_def Let_def split: prod.splits sum.splits)
  obtain r w1 where r: "rpm_loop ops clk ts wt R [] (fst w, Suc (snd w)) = (r, w1)"
    by (meson surj_pair)
  have rp: "rpm_post ops keeps s T ts wt R [] (fst w) r (fst w1)"
    using rpm_loop_spec [OF cw r] k by (simp add: R_def)
  show ?thesis
  proof (cases r)
    case (Inl v1)
    then have "v = v1" "w' = w1"
      using run False r ts by (auto simp: AllowRequest_def Let_def wt_def R_def)
    then show ?thesis using rp Inl l' False
      by (auto simp: rpm_post_def allow_post_def wt_def R_def)
  next
    case (Inr inc)
    then have t: "tpm_loop ops clk ts wt U inc w1 = (v, w')"
      using run False r ts by (auto simp: AllowRequest_def Let_def wt_def R_def U_def split: prod.splits)
    have inc: "inc = active_keys ts R"
      and sh: "shifts ops keeps s T (\<lambda>k. int (count_list (active_keys ts R) k)) (fst w) (fst w1)"
      and ad: "\<forall>x\<in>set R. rpm_admitted ops s T (fst w) ts wt x"
      using rp Inr by (auto simp: rpm_post_def)
    have ki: "\<forall>k\<in>set inc. keeps (fst w1) k s T"
      using k shifts_keeps [OF sh] by (auto simp: inc R_def active_keys_def)
    note tp = tpm_loop_spec [OF cw t ki]
    have same: "tpm_blocked ops s T (fst w1) ts wt y = tpm_blocked ops s T (fst w) ts wt y \<and>
        tpm_admitted ops s T (fst w1) ts wt y = tpm_admitted ops s T (fst w) ts wt y" for y
      by (rule tpm_reads_same [OF sh])
    have "shifts ops keeps s T (\<lambda>_. 0) (fst w) (fst w')" if "\<not> fst v"
      by (rule shifts_cong, rule shifts_trans [OF sh]) (use tp that inc in auto)
    then show ?thesis using tp same sh ad l' False
      by (auto simp: allow_post_def wt_def R_def U_def split: if_splits)
  qed
qed

end

section \<open>The estimate\<close>

lemma window_weight_bounds: "0 \<le> window_weight now" "window_weight now \<le> 1"
proof -
  have q: "0 \<le> f64 (of_int (second_of now)) / 60" "f64 (of_int (second_of now)) / 60 \<le> 1"
    using second_of_bounds [of now] f64.rnd_nonneg [of "of_int (second_of now)"]
      f64.rnd_le_int [of "of_int (second_of now)" 60] by auto
  show "0 \<le> window_weight now" unfolding window_weight_def by (rule f64.rnd_nonneg [OF q(1)])
  show "window_weight now \<le> 1"
    unfolding window_weight_def using f64.rnd_le_int [of _ 1] q(2) by simp
qed

lemma rest_weight_bounds: "0 \<le> f64 (1 - window_weight now)" "f64 (1 - window_weight now) \<le> 1"
  using window_weight_bounds [of now] f64.rnd_nonneg [of "1 - window_weight now"]
    f64.rnd_le_int [of "1 - window_weight now" 1] by auto

lemma estimated_lower:
  assumes "0 \<le> p" "\<bar>c\<bar> \<le> 2 ^ 53"
  shows "of_int c \<le> estimated c p (window_weight now)"
proof -
  have "0 \<le> f64 (f64 (of_int p) * f64 (1 - window_weight now))"
    using assms(1) window_weight_bounds by (intro f64.rnd_nonneg mult_nonneg_nonneg) auto
  then show ?thesis unfolding estimated_def
    using assms(2) by (intro f64.rnd_ge_int) (auto simp: f64_int)
qed

lemma estimated_upper:
  assumes "0 \<le> c" "0 \<le> p" "c + p \<le> 2 ^ 53"
  shows "estimated c p (window_weight now) \<le> of_int (c + p)"
proof -
  have "f64 (of_int p) * f64 (1 - window_weight now) \<le> of_int p * 1"
    using assms rest_weight_bounds by (intro mult_mono) (auto simp: f64_int)
  then have "f64 (f64 (of_int p) * f64 (1 - window_weight now)) \<le> of_int p"
    using assms by (intro f64.rnd_le_int) auto
  then show ?thesis unfolding estimated_def
    using assms by (intro f64.rnd_le_int) (auto simp: f64_int)
qed

section \<open>Recording tokens\<close>

context counter_cache
begin

lemma cache_incr_frame:
  assumes "cache_incr ops clk w k d = (r, w')" "k' \<noteq> k"
  shows "Cache_Get ops t (fst w') k' = Cache_Get ops t (fst w) k' \<and> keeps (fst w') k' s T = keeps (fst w) k' s T"
  using assms incr_frame by (auto simp: cache_incr_def split: prod.splits)

lemma record_loop_frame:
  assumes "record_loop ops clk d ks w = (r, w')" "k' \<notin> set ks"
  shows "Cache_Get ops t (fst w') k' = Cache_Get ops t (fst w) k' \<and> keeps (fst w') k' s T = keeps (fst w) k' s T"
  using assms
proof (induction ks arbitrary: w)
  case (Cons k ks)
  obtain q w1 where q: "cache_incr ops clk w k d = (q, w1)" by (meson surj_pair)
  note f = cache_incr_frame [OF q, of k' t s T]
  show ?case
  proof (cases q)
    case Inl
    then show ?thesis using Cons.prems q f by auto
  next
    case Inr
    then show ?thesis using Cons.prems q f Cons.IH [of w1] by auto
  qed
qed simp

lemma RecordTokens_frame:
  assumes "RecordTokens ops clk w kid al n = (r, w')" "\<And>sc i ts. k' \<noteq> tpmKey sc i ts"
  shows "Cache_Get ops t (fst w') k' = Cache_Get ops t (fst w) k' \<and> keeps (fst w') k' s T = keeps (fst w) k' s T"
  using assms record_loop_frame [of clk n _ "(fst w, Suc (snd w))" r w' k' t s T]
  by (auto simp: RecordTokens_def Let_def simp del: record_loop.simps split: if_splits)

end

context total_counter_cache
begin

lemma record_loop_shifts:
  assumes cw: "clock_within clk s T" and d: "is_i64 d" and "\<forall>k\<in>set ks. keeps (fst w) k s T"
  shows "fst (record_loop ops clk d ks w) = None \<and>
    shifts ops keeps s T (\<lambda>k. int (count_list ks k) * d) (fst w) (fst (snd (record_loop ops clk d ks w)))"
  using assms(3)
proof (induction ks arbitrary: w)
  case Nil
  then show ?case by (simp add: shifts_refl)
next
  case (Cons k ks)
  obtain v c' where e: "cache_incr ops clk w k d = (Inr v, (c', Suc (snd w)))"
      and sh: "shifts ops keeps s T (bump k d) (fst w) c'"
    using cache_incr_shifts [OF cw, of w k d thesis] Cons.prems d by auto
  have ih: "fst (record_loop ops clk d ks (c', Suc (snd w))) = None \<and>
      shifts ops keeps s T (\<lambda>k. int (count_list ks k) * d) c' (fst (snd (record_loop ops clk d ks (c', Suc (snd w)))))"
    using Cons.IH [of "(c', Suc (snd w))"] Cons.prems shifts_keeps [OF sh] by simp
  have "shifts ops keeps s T (\<lambda>k'. int (count_list (k # ks) k') * d) (fst w)
      (fst (snd (record_loop ops clk d ks (c', Suc (snd w)))))"
    by (rule shifts_cong, rule shifts_trans [OF sh conjunct2 [OF ih]]) (auto simp: algebra_simps)
  then show ?case using e ih by simp
qed

end

section \<open>Runs within one window\<close>

text \<open>Calls on the limiter one after the other, each with its own clock readings.
  \<open>admitted\<close> counts the accepted requests that fall under the layer \<open>(sc, i)\<close>.\<close>

datatype lim_event = Ask clock string string | Tokens clock string string int

fun event_clock :: "lim_event \<Rightarrow> clock" where
  "event_clock (Ask clk kid al) = clk"
| "event_clock (Tokens clk kid al n) = clk"

fun asks_in :: "int \<Rightarrow> lim_event \<Rightarrow> bool" where
  "asks_in ts (Ask clk kid al) = (window_of (clk 0) = ts)"
| "asks_in ts (Tokens clk kid al n) = True"

definition under_layer :: "string \<Rightarrow> string \<Rightarrow> string \<Rightarrow> string \<Rightarrow> bool" where
  "under_layer sc i kid al \<longleftrightarrow>
     sc = ''global'' \<and> i = '''' \<or> sc = ''model'' \<and> i = al \<or> sc = ''key'' \<and> i = kid"

definition layer_limit :: "Limiter \<Rightarrow> string \<Rightarrow> string \<Rightarrow> int" where
  "layer_limit l sc i =
     (if sc = ''global'' then rl_RPM (lim_global l) else if sc = ''model'' then modelRPM l i
      else if sc = ''key'' then keyRPM l i else 0)"

fun admitted :: "'c cache_ops \<Rightarrow> string \<Rightarrow> string \<Rightarrow> Limiter \<Rightarrow> 'c \<Rightarrow> lim_event list \<Rightarrow> nat" where
  "admitted ops sc i l c [] = 0"
| "admitted ops sc i l c (Ask clk kid al # es) =
     (case AllowRequest ops clk l (c, 0) kid al of (v, l', w') \<Rightarrow>
        (if fst v \<and> under_layer sc i kid al then 1 else 0) + admitted ops sc i l' (fst w') es)"
| "admitted ops sc i l c (Tokens clk kid al n # es) =
     admitted ops sc i l (fst (snd (RecordTokens ops clk (c, 0) kid al n))) es"

lemma layer_limit_logged [simp]: "layer_limit (logActiveLimit l k m) sc i = layer_limit l sc i"
  by (simp add: layer_limit_def logActiveLimit_def modelRPM_def keyRPM_def)

lemma count_active_keys:
  assumes "sc \<in> {''global'', ''model'', ''key''}"
  shows "count_list (active_keys ts (rpm_layers l kid al)) (rpmKey sc i ts') =
    (if ts' = ts \<and> under_layer sc i kid al \<and> 0 < layer_limit l sc i then 1 else 0)"
proof -
  have eqs: "rpmKey ''global'' j ts = rpmKey sc i ts' \<longleftrightarrow> sc = ''global'' \<and> i = j \<and> ts' = ts"
    "rpmKey ''model'' j ts = rpmKey sc i ts' \<longleftrightarrow> sc = ''model'' \<and> i = j \<and> ts' = ts"
    "rpmKey ''key'' j ts = rpmKey sc i ts' \<longleftrightarrow> sc = ''key'' \<and> i = j \<and> ts' = ts" for j
    using assms by (subst rpmKey_eq_iff; fastforce)+
  have "active_keys ts (rpm_layers l kid al) =
      (if 0 < rl_RPM (lim_global l) then [rpmKey ''global'' '''' ts] else []) @
      (if 0 < modelRPM l al then [rpmKey ''model'' al ts] else []) @
      (if 0 < keyRPM l kid then [rpmKey ''key'' kid ts] else [])"
    by (simp add: active_keys_def rpm_layers_def)
  moreover have "count_list (if b then [x] else []) y = (if b \<and> x = y then 1 else 0)" for b and x y :: string
    by simp
  ultimately have "count_list (active_keys ts (rpm_layers l kid al)) (rpmKey sc i ts') =
      (if 0 < rl_RPM (lim_global l) \<and> sc = ''global'' \<and> i = '''' \<and> ts' = ts then 1 else 0) +
      (if 0 < modelRPM l al \<and> sc = ''model'' \<and> i = al \<and> ts' = ts then 1 else 0) +
      (if 0 < keyRPM l kid \<and> sc = ''key'' \<and> i = kid \<and> ts' = ts then 1 else 0)"
    by (simp only: count_list_append eqs add.assoc)
  then show ?thesis by (auto simp: under_layer_def layer_limit_def)
qed

lemma under_layer_mem:
  "under_layer sc i kid al \<Longrightarrow> (sc, i, layer_limit l sc i) \<in> set (rpm_layers l kid al)"
  by (auto simp: under_layer_def rpm_layers_def layer_limit_def)

lemma rpm_admitted_le:
  assumes "rpm_admitted ops s T c ts (window_weight now) (sc, i, L)" "0 < L" "L < 2 ^ 53"
    and "0 \<le> cval ops s c (rpmKey sc i ts)" "cval ops s c (rpmKey sc i ts) \<le> L"
    and prev: "\<forall>t. s \<le> t \<and> t \<le> T \<longrightarrow> 0 \<le> cval ops t c (rpmKey sc i (ts - 1))"
  shows "cval ops s c (rpmKey sc i ts) + 1 \<le> L"
proof -
  define n where "n = cval ops s c (rpmKey sc i ts) + 1"
  have n: "i64 n = n" "\<bar>n\<bar> \<le> 2 ^ 53" using assms(3-5) by (auto simp: n_def is_i64_def)
  obtain t where t: "s \<le> t" "t \<le> T"
      "estimated (i64 n) (cval ops t c (rpmKey sc i (ts - 1))) (window_weight now) \<le> f64 (of_int L)"
    using assms(1,2) by (auto simp: rpm_admitted_def n_def)
  have "of_int n \<le> f64 (of_int L)"
    using estimated_lower [of "cval ops t c (rpmKey sc i (ts - 1))" n now] prev t n by fastforce
  then show ?thesis using assms(2,3) by (simp add: f64_int n_def)
qed

text \<open>What a run needs of the cache, and that every event keeps it.\<close>

definition run_inv ::
  "'c cache_ops \<Rightarrow> ('c \<Rightarrow> string \<Rightarrow> gotime \<Rightarrow> gotime \<Rightarrow> bool) \<Rightarrow> gotime \<Rightarrow> gotime \<Rightarrow>
   int \<Rightarrow> string \<Rightarrow> string \<Rightarrow> 'c \<Rightarrow> int \<Rightarrow> bool" where
  "run_inv ops keeps s T ts sc i c n \<longleftrightarrow> (\<forall>sc i. keeps c (rpmKey sc i ts) s T) \<and>
     cval ops s c (rpmKey sc i ts) = n \<and>
     (\<forall>t. s \<le> t \<and> t \<le> T \<longrightarrow> 0 \<le> cval ops t c (rpmKey sc i (ts - 1)))"

lemma run_inv_shift:
  assumes "run_inv ops keeps s T ts sc i c n" "shifts ops keeps s T f c c'" "s \<le> T"
    and "is_i64 (n + f (rpmKey sc i ts))" "f (rpmKey sc i (ts - 1)) = 0"
  shows "run_inv ops keeps s T ts sc i c' (n + f (rpmKey sc i ts))"
proof -
  have "cval ops s c' (rpmKey sc i ts) = n + f (rpmKey sc i ts)"
    using shifts_cval [OF assms(2) order.refl assms(3)] assms(1,4) by (simp add: run_inv_def)
  moreover have "cval ops t c' (rpmKey sc i (ts - 1)) = cval ops t c (rpmKey sc i (ts - 1))"
    if "s \<le> t" "t \<le> T" for t
    by (rule shifts_cval_0 [OF assms(2) that assms(5)])
  ultimately show ?thesis
    using assms(1) shifts_keeps [OF assms(2)] by (simp add: run_inv_def)
qed

context total_counter_cache
begin

lemma run_inv_ask:
  assumes cw: "clock_within clk s T" and a: "AllowRequest ops clk l (c, 0) kid al = (v, l', w')"
    and ts: "window_of (clk 0) = ts" and inv: "run_inv ops keeps s T ts sc i c n"
    and sc: "sc \<in> {''global'', ''model'', ''key''}" and L: "layer_limit l sc i = L" "0 < L" "L < 2 ^ 53"
    and n: "0 \<le> n" "n \<le> L"
  defines "m \<equiv> n + (if fst v \<and> under_layer sc i kid al then 1 else 0)"
  shows "layer_limit l' sc i = L \<and> m \<le> L \<and> run_inv ops keeps s T ts sc i (fst w') m"
proof -
  have k: "\<forall>(sc, i, L)\<in>set (rpm_layers l kid al). keeps (fst (c, 0)) (rpmKey sc i ts) s T"
    using inv by (auto simp: run_inv_def)
  note spec = allow_spec [OF cw a _ k, simplified, OF ts]
  have l': "layer_limit l' sc i = L" using spec L(1) by simp
  have "n + 1 \<le> L" if ok: "fst v" and u: "under_layer sc i kid al"
  proof -
    have "rpm_admitted ops s T c ts (window_weight (clk 0)) (sc, i, L)"
      using spec ok under_layer_mem [OF u, of l] L(1) by (auto simp: allow_post_def)
    then show ?thesis
      using rpm_admitted_le [of ops s T c ts "clk 0" sc i L] L n inv by (auto simp: run_inv_def)
  qed
  then have m: "m \<le> L" using n by (simp add: m_def)
  define f where "f k = (if fst v then int (count_list (active_keys ts (rpm_layers l kid al)) k) else 0)" for k
  have "shifts ops keeps s T f c (fst w')"
    unfolding f_def by (rule allow_post_shifts) (use spec in blast)
  moreover have "n + f (rpmKey sc i ts) = m" "f (rpmKey sc i (ts - 1)) = 0"
    using L(1,2) by (simp_all add: f_def m_def count_active_keys [OF sc])
  moreover have "is_i64 m" using m n L by (auto simp: m_def is_i64_def)
  ultimately show ?thesis
    using run_inv_shift [OF inv, of f "fst w'"] clock_within_at(4) [OF cw] l' m by simp
qed

lemma admitted_le:
  assumes "\<forall>e\<in>set es. clock_within (event_clock e) s T \<and> asks_in ts e"
    and "run_inv ops keeps s T ts sc i c n" "sc \<in> {''global'', ''model'', ''key''}"
    and "layer_limit l sc i = L" "0 < L" "L < 2 ^ 53" "0 \<le> n" "n \<le> L"
  shows "n + int (admitted ops sc i l c es) \<le> L"
  using assms
proof (induction es arbitrary: l c n)
  case (Cons e es)
  show ?case
  proof (cases e)
    case (Ask clk kid al)
    obtain v l' w' where a: "AllowRequest ops clk l (c, 0) kid al = (v, l', w')" by (metis surj_pair)
    define m where "m = n + (if fst v \<and> under_layer sc i kid al then 1 else 0)"
    have cw: "clock_within clk s T" "window_of (clk 0) = ts" using Cons.prems(1) Ask by auto
    note st = run_inv_ask [OF cw(1) a cw(2) Cons.prems(2-8), folded m_def]
    have "m + int (admitted ops sc i l' (fst w') es) \<le> L"
      by (rule Cons.IH) (use Cons.prems st in \<open>auto simp: m_def\<close>)
    then show ?thesis using Ask a by (auto simp: m_def)
  next
    case (Tokens clk kid al k)
    obtain r w' where t: "RecordTokens ops clk (c, 0) kid al k = (r, w')" by (meson surj_pair)
    have "run_inv ops keeps s T ts sc i (fst w') n"
      using Cons.prems(2) RecordTokens_frame [OF t] by (auto simp: run_inv_def)
    then have "n + int (admitted ops sc i l (fst w') es) \<le> L"
      by (rule Cons.IH [rotated]) (use Cons.prems in auto)
    then show ?thesis using Tokens t by simp
  qed
qed simp

end

context total_counter_cache
begin

lemma allow_iff:
  assumes cw: "clock_within clk s T" and k: "\<forall>k. keeps (fst w) k s T"
  shows "fst (fst (AllowRequest ops clk l w kid al)) \<longleftrightarrow>
    (\<forall>(sc, i, L)\<in>set (rpm_layers l kid al). 0 < L \<longrightarrow>
       estimated (i64 (cval ops s (fst w) (rpmKey sc i (window_of (clk (snd w)))) + 1))
         (cval ops s (fst w) (rpmKey sc i (window_of (clk (snd w)) - 1))) (window_weight (clk (snd w))) \<le> f64 (of_int L)) \<and>
    (\<forall>(sc, i, L)\<in>set (tpm_layers l kid al). 0 < L \<longrightarrow>
       estimated (cval ops s (fst w) (tpmKey sc i (window_of (clk (snd w)))))
         (cval ops s (fst w) (tpmKey sc i (window_of (clk (snd w)) - 1))) (window_weight (clk (snd w))) < f64 (of_int L))"
proof -
  obtain v l' w' where a: "AllowRequest ops clk l w kid al = (v, l', w')" by (metis surj_pair)
  have sT: "s \<le> T" by (rule clock_within_at(4) [OF cw])
  have st: "cval ops t (fst w) k = cval ops s (fst w) k" if "s \<le> t" "t \<le> T" for t k
    using get_stable [of "fst w" k s T t s] assms(2) that sT by simp
  note reads = rpm_admitted_stable [OF sT st, simplified]
  have "allow_post ops keeps s T (window_of (clk (snd w))) (window_weight (clk (snd w)))
      (rpm_layers l kid al) (tpm_layers l kid al) (fst w) (fst v) (fst w')"
    using allow_spec [OF cw a refl] k by auto
  then show ?thesis
    by (cases "fst v") (fastforce simp: a allow_post_def reads)+
qed

end

section \<open>A sample limiter\<close>

text \<open>One request and one hundred tokens per minute for everyone, at the Unix epoch.\<close>

definition sample_limiter :: Limiter where
  "sample_limiter = lim_New \<lparr>rl_TPM = 100, rl_RPM = 1, rl_MaxRetries = 0\<rparr> None None"

definition epoch :: gotime where
  "epoch = 62135596800 * Second"

lemma sample_layers:
  "rpm_layers sample_limiter kid al = [(''global'', [], 1), (''model'', al, 0), (''key'', kid, 0)]"
  "tpm_layers sample_limiter kid al = [(''global'', [], 100), (''model'', al, 0), (''key'', kid, 0)]"
  "layer_limit sample_limiter ''global'' [] = 1"
  by (simp_all add: rpm_layers_def tpm_layers_def layer_limit_def sample_limiter_def lim_New_def
      modelRPM_def keyRPM_def modelTPM_def keyTPM_def)

lemma sample_window [simp]: "window_of epoch = 0"
  by (simp add: window_of_def Unix_def epoch_def Second_def go_div_def)

lemma sample_clock [simp]: "clock_within (\<lambda>_. epoch) epoch epoch"
  by (simp add: clock_within_def limit_ttl_def Second_def)

lemma sample_cache [simp]: "mem_keeps NewMemoryCache k s T" "mem_Get t NewMemoryCache k = None"
  by (simp_all add: mem_keeps_def mem_Get_def NewMemoryCache_def)

section \<open>Properties\<close>

text \<open>C3. Request limits hold: whatever sequence of calls is made in one window, accepted or refused
  requests mixed with recorded tokens, the number of accepted requests under the global
  layer, under a model or under a key is at most that layer's RPM limit.\<close>

theorem rpm_limit_respected:
  assumes "\<forall>e\<in>set es. clock_within (event_clock e) s T \<and> asks_in ts e"
    and "\<forall>sc i. mem_keeps c (rpmKey sc i ts) s T"
    and "counter_value (mem_Get s c (rpmKey sc i ts)) = 0"
    and "\<forall>t. s \<le> t \<and> t \<le> T \<longrightarrow> 0 \<le> counter_value (mem_Get t c (rpmKey sc i (ts - 1)))"
    and "sc \<in> {''global'', ''model'', ''key''}" "0 < layer_limit l sc i" "layer_limit l sc i < 2 ^ 53"
  shows "int (admitted memory_ops sc i l c es) \<le> layer_limit l sc i"
  using mem.admitted_le [of es s T ts sc i c 0 l "layer_limit l sc i"] assms
  by (simp add: run_inv_def)

theorem rpm_limit_respected_witness:
  "int (admitted memory_ops ''global'' [] sample_limiter NewMemoryCache
     [Ask (\<lambda>_. epoch) ''k1'' ''m'', Tokens (\<lambda>_. epoch) ''k1'' ''m'' 7, Ask (\<lambda>_. epoch) ''k2'' ''m'']) \<le> 1"
  using rpm_limit_respected [of "[Ask (\<lambda>_. epoch) ''k1'' ''m'', Tokens (\<lambda>_. epoch) ''k1'' ''m'' 7,
      Ask (\<lambda>_. epoch) ''k2'' ''m'']" epoch epoch 0 NewMemoryCache "''global''" "[]" sample_limiter]
  by (simp add: sample_layers del: admitted.simps)

text \<open>C5. \<^verbatim>\<open>AllowRequest\<close> keeps its accounts: a refused request leaves every counter at the value it
  had, an accepted one adds one to the counter of each layer that has a limit, and no other
  counter moves.\<close>

theorem allow_counters:
  assumes "clock_within clk s T" "AllowRequest memory_ops clk l (c, n) kid al = (v, l', w')"
    and "\<forall>(sc, i, L)\<in>set (rpm_layers l kid al). mem_keeps c (rpmKey sc i (window_of (clk n))) s T"
    and "s \<le> t" "t \<le> T"
  shows "snd (snd v) = None \<and> counter_value (mem_Get t (fst w') k) = i64 (counter_value (mem_Get t c k) +
    (if fst v then int (count_list (active_keys (window_of (clk n)) (rpm_layers l kid al)) k) else 0))"
proof -
  note spec = mem.allow_spec [OF assms(1,2), simplified, OF refl assms(3)]
  have "shifts memory_ops mem_keeps s T
      (\<lambda>k. if fst v then int (count_list (active_keys (window_of (clk n)) (rpm_layers l kid al)) k) else 0) c (fst w')"
    by (rule allow_post_shifts) (use spec in blast)
  from shifts_cval [OF this assms(4,5), of k] show ?thesis using spec by simp
qed

theorem allow_counters_witness:
  "\<exists>v l' w'. AllowRequest memory_ops (\<lambda>_. epoch) sample_limiter (NewMemoryCache, 0) ''k'' ''m'' = (v, l', w') \<and>
     snd (snd v) = None \<and>
     counter_value (mem_Get epoch (fst w') (rpmKey ''global'' [] 0)) = (if fst v then 1 else 0)"
proof -
  obtain v l' w' where a:
    "AllowRequest memory_ops (\<lambda>_. epoch) sample_limiter (NewMemoryCache, 0) ''k'' ''m'' = (v, l', w')"
    by (metis surj_pair)
  then show ?thesis
    using allow_counters [OF sample_clock a, of epoch "rpmKey ''global'' [] 0"]
    by (simp add: sample_layers active_keys_def)
qed

text \<open>C6. The verdict of \<^verbatim>\<open>AllowRequest\<close>: when no counter expires during the call, a request is
  accepted exactly when in every layer with a request limit the sliding estimate, this
  request counted, does not exceed the limit, and in every layer with a token limit the
  estimate is below it.\<close>

theorem allow_verdict:
  assumes "clock_within clk s T" "\<forall>k. mem_keeps c k s T"
  shows "fst (fst (AllowRequest memory_ops clk l (c, n) kid al)) \<longleftrightarrow>
    (\<forall>(sc, i, L)\<in>set (rpm_layers l kid al). 0 < L \<longrightarrow>
       estimated (i64 (counter_value (mem_Get s c (rpmKey sc i (window_of (clk n)))) + 1))
         (counter_value (mem_Get s c (rpmKey sc i (window_of (clk n) - 1)))) (window_weight (clk n)) \<le> f64 (of_int L)) \<and>
    (\<forall>(sc, i, L)\<in>set (tpm_layers l kid al). 0 < L \<longrightarrow>
       estimated (counter_value (mem_Get s c (tpmKey sc i (window_of (clk n)))))
         (counter_value (mem_Get s c (tpmKey sc i (window_of (clk n) - 1)))) (window_weight (clk n)) < f64 (of_int L))"
  using mem.allow_iff [of clk s T "(c, n)"] assms by simp

theorem allow_verdict_witness:
  "fst (fst (AllowRequest memory_ops (\<lambda>_. epoch) sample_limiter (NewMemoryCache, 0) ''k'' ''m''))"
proof -
  have "estimated 1 0 (window_weight epoch) \<le> 1" "estimated 0 0 (window_weight epoch) \<le> 0"
    using estimated_upper [of 1 0 epoch] estimated_upper [of 0 0 epoch] by simp_all
  moreover have "f64 100 = 100" using f64_int [of 100] by simp
  ultimately show ?thesis
    using allow_verdict [of "\<lambda>_. epoch" epoch epoch NewMemoryCache sample_limiter 0 "''k''" "''m''"]
    by (simp add: sample_layers)
qed

text \<open>C13. The sliding estimate lies between the current count and the sum of the current and the
  previous count, for counts whose sum a float represents exactly.\<close>

theorem estimated_bounds:
  assumes "0 \<le> c" "0 \<le> p" "c + p \<le> 2 ^ 53"
  shows "of_int c \<le> estimated c p (window_weight now) \<and>
    estimated c p (window_weight now) \<le> of_int (c + p)"
  using estimated_lower [of p c now] estimated_upper [OF assms, of now] assms by auto

theorem estimated_bounds_witness:
  "of_int 3 \<le> estimated 3 40 (window_weight 0) \<and> estimated 3 40 (window_weight 0) \<le> of_int 43"
  using estimated_bounds [of 3 40 0] by simp

text \<open>C12. No two counters share a cache key: the key determines the kind of the counter, the layer,
  the model or API key and the window, whatever characters the name of the model or key has.\<close>

theorem limit_keys_distinct:
  assumes "sc \<in> {''global'', ''model'', ''key''}" "sc' \<in> {''global'', ''model'', ''key''}"
  shows "(rpmKey sc i ts = rpmKey sc' i' ts' \<longleftrightarrow> sc = sc' \<and> i = i' \<and> ts = ts') \<and>
    (tpmKey sc i ts = tpmKey sc' i' ts' \<longleftrightarrow> sc = sc' \<and> i = i' \<and> ts = ts') \<and>
    rpmKey sc i ts \<noteq> tpmKey sc' i' ts'"
proof -
  have "CHR '':'' \<notin> set sc" "CHR '':'' \<notin> set sc'" using assms by auto
  then show ?thesis by (simp add: rpmKey_eq_iff tpmKey_eq_iff)
qed

theorem limit_keys_distinct_witness:
  "rpmKey ''model'' ''gpt:1'' 7 \<noteq> rpmKey ''model'' ''gpt'' 17"
  using limit_keys_distinct [of "''model''" "''model''" "''gpt:1''" 7 "''gpt''" 17] by simp



end
