(* ===== verification/Router.thy ===== *)
theory Router
  imports Domain "HOL-Library.Word"
begin

text \<open>
  The node table of \<^verbatim>\<open>internal/router/router.go\<close> and the two selection functions of
  \<^verbatim>\<open>internal/router/balancer.go\<close>.  Every method of the table holds the lock for its whole
  body and is one step.  Go iterates over a map in an unspecified order that may differ
  each time; a method that ranges over the node map takes that order, a list of the keys,
  as an argument.  The index \<^verbatim>\<open>aliasIdx\<close> is a function, a missing key being the nil slice.
\<close>

section \<open>Model\<close>

record Router =
  rt_nodes :: "string \<rightharpoonup> ModelNode"
  rt_aliasIdx :: "string \<Rightarrow> ModelNode list"

definition router_New :: Router where
  "router_New = \<lparr>rt_nodes = Map.empty, rt_aliasIdx = (\<lambda>_. [])\<rparr>"

text \<open>The values a \<^verbatim>\<open>range\<close> over the map yields when it visits the keys in this order.\<close>

definition range_nodes :: "string list \<Rightarrow> (string \<rightharpoonup> ModelNode) \<Rightarrow> ModelNode list" where
  "range_nodes order nodes = List.map_filter nodes order"

definition range_order :: "string list \<Rightarrow> (string \<rightharpoonup> ModelNode) \<Rightarrow> bool" where
  "range_order order nodes \<longleftrightarrow> distinct order \<and> set order = dom nodes"

fun index_aliases ::
  "ModelNode \<Rightarrow> string list \<Rightarrow> (string \<Rightarrow> ModelNode list) \<Rightarrow> string \<Rightarrow> ModelNode list" where
  "index_aliases n [] idx = idx"
| "index_aliases n (alias # as) idx = index_aliases n as (idx(alias := idx alias @ [n]))"

fun index_nodes :: "ModelNode list \<Rightarrow> (string \<Rightarrow> ModelNode list) \<Rightarrow> string \<Rightarrow> ModelNode list" where
  "index_nodes [] idx = idx"
| "index_nodes (n # ns) idx = index_nodes ns (index_aliases n (n_Aliases n) idx)"

definition rebuildAliasIdx :: "string list \<Rightarrow> Router \<Rightarrow> Router" where
  "rebuildAliasIdx order r =
     r\<lparr>rt_aliasIdx := index_nodes (range_nodes order (rt_nodes r)) (\<lambda>_. [])\<rparr>"

fun put_nodes :: "ModelNode list \<Rightarrow> (string \<rightharpoonup> ModelNode) \<Rightarrow> string \<rightharpoonup> ModelNode" where
  "put_nodes [] m = m"
| "put_nodes (n # ns) m = put_nodes ns (m(n_ID n \<mapsto> n))"

definition router_Sync :: "string list \<Rightarrow> Router \<Rightarrow> ModelNode list \<Rightarrow> Router" where
  "router_Sync order r nodes = rebuildAliasIdx order (r\<lparr>rt_nodes := put_nodes nodes Map.empty\<rparr>)"

definition AddOrUpdate :: "string list \<Rightarrow> Router \<Rightarrow> ModelNode \<Rightarrow> Router" where
  "AddOrUpdate order r node =
     rebuildAliasIdx order (r\<lparr>rt_nodes := (rt_nodes r)(n_ID node \<mapsto> node)\<rparr>)"

definition router_Remove :: "string list \<Rightarrow> Router \<Rightarrow> string \<Rightarrow> Router" where
  "router_Remove order r ident = rebuildAliasIdx order (r\<lparr>rt_nodes := (rt_nodes r)(ident := None)\<rparr>)"

definition endpointMatches :: "EndpointType \<Rightarrow> EndpointType \<Rightarrow> bool" where
  "endpointMatches nodeType requested =
     (if nodeType = EndpointAll \<or> requested = EndpointAll then True else nodeType = requested)"

fun resolve_loop :: "EndpointType \<Rightarrow> ModelNode list \<Rightarrow> ModelNode list \<Rightarrow> ModelNode list" where
  "resolve_loop et [] candidates = candidates"
| "resolve_loop et (n # ns) candidates =
     (if \<not> n_Enabled n then resolve_loop et ns candidates
      else if \<not> endpointMatches (n_EndpointType n) et then resolve_loop et ns candidates
      else resolve_loop et ns (candidates @ [n]))"

definition Resolve :: "Router \<Rightarrow> string \<Rightarrow> EndpointType \<Rightarrow> ModelNode list" where
  "Resolve r alias et = resolve_loop et (rt_aliasIdx r alias) []"

fun list_enabled_loop :: "ModelNode list \<Rightarrow> ModelNode list \<Rightarrow> ModelNode list" where
  "list_enabled_loop [] out = out"
| "list_enabled_loop (n # ns) out =
     (if n_Enabled n then list_enabled_loop ns (out @ [n]) else list_enabled_loop ns out)"

definition ListEnabled :: "string list \<Rightarrow> Router \<Rightarrow> ModelNode list" where
  "ListEnabled order r = list_enabled_loop (range_nodes order (rt_nodes r)) []"

text \<open>\<^verbatim>\<open>Pick\<close> with the source of random numbers as argument; \<^verbatim>\<open>PickRoundRobin\<close> with the global
  64-bit counter, which wraps around.\<close>

definition Pick :: "(nat \<Rightarrow> nat) \<Rightarrow> ModelNode list \<Rightarrow> ModelNode option" where
  "Pick intn candidates =
     (if length candidates = 0 then None
      else if length candidates = 1 then Some (candidates ! 0)
      else Some (candidates ! intn (length candidates)))"

definition PickRoundRobin :: "64 word \<Rightarrow> ModelNode list \<Rightarrow> ModelNode option \<times> 64 word" where
  "PickRoundRobin counter candidates =
     (if length candidates = 0 then (None, counter)
      else let counter' = counter + 1
           in (Some (candidates ! unat (counter' mod of_nat (length candidates))), counter'))"

section \<open>The index\<close>

lemma index_aliases_at:
  "index_aliases n as idx alias = idx alias @ replicate (count_list as alias) n"
  by (induction as arbitrary: idx) auto

lemma index_nodes_at:
  "index_nodes ns idx alias = idx alias @ concat (map (\<lambda>n. replicate (count_list (n_Aliases n) alias) n) ns)"
  by (induction ns arbitrary: idx) (simp_all add: index_aliases_at)

lemma resolve_loop_filter:
  "resolve_loop et ns acc = acc @ filter (\<lambda>n. n_Enabled n \<and> endpointMatches (n_EndpointType n) et) ns"
  by (induction ns arbitrary: acc) auto

lemma list_enabled_filter: "list_enabled_loop ns acc = acc @ filter n_Enabled ns"
  by (induction ns arbitrary: acc) auto

lemma put_nodes_map_of: "put_nodes ns m = m ++ map_of (rev (map (\<lambda>n. (n_ID n, n)) ns))"
  by (induction ns arbitrary: m) (auto simp: map_add_def fun_eq_iff split: option.splits)

text \<open>The table files every node under its own identifier.\<close>

definition ids_ok :: "(string \<rightharpoonup> ModelNode) \<Rightarrow> bool" where
  "ids_ok m \<longleftrightarrow> (\<forall>k n. m k = Some n \<longrightarrow> n_ID n = k)"

lemma ids_ok_empty: "ids_ok Map.empty"
  by (simp add: ids_ok_def)

lemma ids_ok_upd: "ids_ok m \<Longrightarrow> ids_ok (m(n_ID n \<mapsto> n))"
  by (simp add: ids_ok_def)

lemma ids_ok_del: "ids_ok m \<Longrightarrow> ids_ok (m(i := None))"
  by (simp add: ids_ok_def)

lemma ids_ok_put: "ids_ok m \<Longrightarrow> ids_ok (put_nodes ns m)"
  by (induction ns arbitrary: m) (simp_all add: ids_ok_upd)

lemma range_nodes_map:
  assumes "range_order order m" shows "range_nodes order m = map (\<lambda>k. the (m k)) order"
proof -
  have "filter (\<lambda>x. m x \<noteq> None) order = order"
    using assms by (auto simp: range_order_def filter_id_conv)
  then show ?thesis by (simp add: range_nodes_def map_filter_def)
qed

lemma set_range_nodes: "range_order order m \<Longrightarrow> set (range_nodes order m) = ran m"
  by (simp add: range_nodes_map) (force simp: range_order_def ran_def dom_def)

lemma range_nodes_distinct:
  assumes "range_order order m" "ids_ok m" shows "distinct (range_nodes order m)"
proof -
  have "n_ID (the (m k)) = k" if "k \<in> set order" for k
    using assms that by (auto simp: range_order_def ids_ok_def dom_def)
  then have "inj_on (\<lambda>k. the (m k)) (set order)" by (rule inj_on_inverseI)
  then show ?thesis using assms(1)
    by (simp add: range_nodes_map) (simp add: range_order_def distinct_map)
qed

lemma count_list_filter: "count_list (filter P xs) x = (if P x then count_list xs x else 0)"
  by (induction xs) auto

lemma count_list_replicates:
  "distinct ns \<Longrightarrow> count_list (concat (map (\<lambda>n. replicate (f n) n) ns)) x = (if x \<in> set ns then f x else 0)"
proof (induction ns)
  case (Cons n ns)
  have "count_list (replicate k n) x = (if x = n then k else 0)" for k by (induction k) auto
  then show ?case using Cons by (auto simp: count_list_append)
qed simp

section \<open>Reachable tables\<close>

inductive router_step :: "Router \<Rightarrow> Router \<Rightarrow> bool" where
  sync: "range_order order (put_nodes ns Map.empty) \<Longrightarrow> router_step r (router_Sync order r ns)"
| add: "range_order order ((rt_nodes r)(n_ID n \<mapsto> n)) \<Longrightarrow> router_step r (AddOrUpdate order r n)"
| remove: "range_order order ((rt_nodes r)(i := None)) \<Longrightarrow> router_step r (router_Remove order r i)"

inductive router_reachable :: "Router \<Rightarrow> bool" where
  new: "router_reachable router_New"
| step: "router_reachable r \<Longrightarrow> router_step r r' \<Longrightarrow> router_reachable r'"

inductive_cases router_stepE: "router_step r r'"

definition router_inv :: "Router \<Rightarrow> bool" where
  "router_inv r \<longleftrightarrow> ids_ok (rt_nodes r) \<and>
     (\<forall>alias n. count_list (rt_aliasIdx r alias) n =
        (if n \<in> ran (rt_nodes r) then count_list (n_Aliases n) alias else 0))"

lemma router_inv_rebuild:
  assumes "range_order order (rt_nodes r)" "ids_ok (rt_nodes r)"
  shows "router_inv (rebuildAliasIdx order r)"
  using assms range_nodes_distinct [OF assms] set_range_nodes [OF assms(1)]
  by (simp add: router_inv_def rebuildAliasIdx_def index_nodes_at count_list_replicates)

lemma router_inv_step:
  assumes "router_inv r" "router_step r r'" shows "router_inv r'"
proof -
  have ids: "ids_ok (rt_nodes r)" using assms(1) by (simp add: router_inv_def)
  from assms(2) show ?thesis
  proof cases
    case (sync order ns)
    then show ?thesis using ids_ok_put [OF ids_ok_empty, of ns]
      by (simp add: router_Sync_def router_inv_rebuild)
  next
    case (add order n)
    then show ?thesis using ids_ok_upd [OF ids, of n]
      by (simp add: AddOrUpdate_def router_inv_rebuild)
  next
    case (remove order i)
    then show ?thesis using ids_ok_del [OF ids, of i]
      by (simp add: router_Remove_def router_inv_rebuild)
  qed
qed

lemma router_reachable_inv: "router_reachable r \<Longrightarrow> router_inv r"
proof (induction rule: router_reachable.induct)
  case new
  then show ?case by (simp add: router_inv_def router_New_def ids_ok_def)
qed (rule router_inv_step)

section \<open>Round robin\<close>

fun rr_run :: "nat \<Rightarrow> 64 word \<Rightarrow> ModelNode list \<Rightarrow> ModelNode option list" where
  "rr_run 0 counter cs = []"
| "rr_run (Suc k) counter cs =
     (case PickRoundRobin counter cs of (n, counter') \<Rightarrow> n # rr_run k counter' cs)"

lemma PickRoundRobin_nth:
  assumes "cs \<noteq> []" "length cs < 2 ^ 64" "unat c + 1 < 2 ^ 64"
  shows "PickRoundRobin c cs = (Some (cs ! ((unat c + 1) mod length cs)), c + 1)"
proof -
  have "unat (c + 1) = unat c + 1" using assms(3) by (simp add: unat_word_ariths)
  moreover have "unat (of_nat (length cs) :: 64 word) = length cs"
    using assms(2) by (simp add: unat_of_nat)
  ultimately show ?thesis using assms(1) by (simp add: PickRoundRobin_def Let_def unat_mod_distrib)
qed

lemma rr_run_nth:
  assumes "cs \<noteq> []" "length cs < 2 ^ 64" "unat c + k < 2 ^ 64"
  shows "rr_run k c cs = map (\<lambda>j. Some (cs ! ((unat c + 1 + j) mod length cs))) [0..<k]"
  using assms(3)
proof (induction k arbitrary: c)
  case (Suc k)
  have "unat (c + 1) = unat c + 1" using Suc.prems by (simp add: unat_word_ariths)
  then show ?case using Suc PickRoundRobin_nth [OF assms(1,2), of c]
    by (simp add: upt_conv_Cons map_Suc_upt [symmetric] del: upt_Suc)
qed simp

section \<open>Properties\<close>

text \<open>C4. Routing is exact in every reachable table, whatever orders the map iterations took:
  \<^verbatim>\<open>Resolve\<close> returns a node just as often as it lists the alias, if it is in the table,
  enabled and of a matching endpoint type, and not otherwise.\<close>

theorem resolve_exact:
  assumes "router_reachable r"
  shows "count_list (Resolve r alias et) n =
    (if rt_nodes r (n_ID n) = Some n \<and> n_Enabled n \<and> endpointMatches (n_EndpointType n) et
     then count_list (n_Aliases n) alias else 0)"
proof -
  have inv: "router_inv r" using assms by (rule router_reachable_inv)
  have "n \<in> ran (rt_nodes r) \<longleftrightarrow> rt_nodes r (n_ID n) = Some n"
    using inv by (auto simp: router_inv_def ids_ok_def ran_def)
  then show ?thesis using inv
    by (simp add: Resolve_def resolve_loop_filter count_list_filter router_inv_def)
qed

definition sample_node :: "string \<Rightarrow> string list \<Rightarrow> ModelNode" where
  "sample_node i as = \<lparr>n_ID = i, n_Name = i, n_Aliases = as, n_BaseURL = ''http://u'', n_APIKey = [],
     n_ModelName = [], n_EndpointType = EndpointAll, n_TPM = 0, n_RPM = 0, n_Override = [],
     n_TimeoutSec = 30, n_Enabled = True, n_CreatedAt = 0, n_UpdatedAt = 0\<rparr>"

lemma sample_router_reachable:
  "router_reachable (AddOrUpdate [''a''] router_New (sample_node ''a'' [''gpt'']))"
proof (rule router_reachable.step [OF router_reachable.new], rule router_step.add)
  show "range_order [''a''] ((rt_nodes router_New)(n_ID (sample_node ''a'' [''gpt'']) \<mapsto> sample_node ''a'' [''gpt'']))"
    by (simp add: range_order_def router_New_def sample_node_def)
qed

theorem resolve_exact_witness:
  "count_list (Resolve (AddOrUpdate [''a''] router_New (sample_node ''a'' [''gpt''])) ''gpt'' EndpointChat)
     (sample_node ''a'' [''gpt'']) = 1"
proof -
  have "rt_nodes (AddOrUpdate [''a''] router_New (sample_node ''a'' [''gpt''])) ''a'' = Some (sample_node ''a'' [''gpt''])"
    by (simp add: AddOrUpdate_def rebuildAliasIdx_def sample_node_def)
  then show ?thesis
    using resolve_exact [OF sample_router_reachable, of "''gpt''" EndpointChat "sample_node ''a'' [''gpt'']"]
    by (simp add: sample_node_def endpointMatches_def)
qed

text \<open>What the updates do to the table: \<^verbatim>\<open>Sync\<close> installs the given list, the last entry winning
  for a repeated identifier, \<^verbatim>\<open>AddOrUpdate\<close> files the node under its identifier and \<^verbatim>\<open>Remove\<close>
  forgets an identifier; a removed node is no longer resolved.\<close>

theorem table_updates:
  "rt_nodes (router_Sync order r ns) = map_of (rev (map (\<lambda>n. (n_ID n, n)) ns)) \<and>
   rt_nodes (AddOrUpdate order r n) = (rt_nodes r)(n_ID n \<mapsto> n) \<and>
   rt_nodes (router_Remove order r i) = (rt_nodes r)(i := None) \<and>
   set (Resolve (router_Remove order r i) alias et) \<subseteq> ran ((rt_nodes r)(i := None))"
proof -
  have "set (range_nodes order m) \<subseteq> ran m" for m
    by (auto simp: range_nodes_def map_filter_def ran_def)
  then have "set (Resolve (router_Remove order r i) alias et) \<subseteq> ran ((rt_nodes r)(i := None))"
    by (auto simp: Resolve_def router_Remove_def rebuildAliasIdx_def resolve_loop_filter index_nodes_at)
  then show ?thesis
    by (auto simp: router_Sync_def AddOrUpdate_def router_Remove_def rebuildAliasIdx_def put_nodes_map_of)
qed

text \<open>C14. \<^verbatim>\<open>PickRoundRobin\<close> is fair: as many consecutive picks as there are candidates go through the
  candidates in rotation, each exactly once, as long as the 64-bit counter does not wrap
  around in between.\<close>

theorem round_robin_rotates:
  assumes "cs \<noteq> []" "length cs < 2 ^ 64" "unat c + length cs < 2 ^ 64"
  shows "rr_run (length cs) c cs = map Some (rotate (unat c + 1) cs)"
  unfolding rr_run_nth [OF assms]
  by (rule nth_equalityI) (simp_all add: nth_rotate del: rotate_Suc)

theorem round_robin_rotates_witness:
  "rr_run (Suc (Suc 0)) 0 [sample_node ''a'' [], sample_node ''b'' []] =
     [Some (sample_node ''b'' []), Some (sample_node ''a'' [])]"
  using round_robin_rotates [of "[sample_node ''a'' [], sample_node ''b'' []]" 0]
  by (simp del: rr_run.simps)

text \<open>\<^verbatim>\<open>Pick\<close> returns one of the candidates, for every random source that respects its bound, and
  nothing only if there are none.\<close>

theorem pick_candidate:
  assumes "\<And>n. 0 < n \<Longrightarrow> intn n < n"
  shows "(Pick intn cs = None \<longleftrightarrow> cs = []) \<and> (\<forall>n. Pick intn cs = Some n \<longrightarrow> n \<in> set cs)"
  using assms [of "length cs"] by (auto simp: Pick_def)

theorem pick_candidate_witness:
  "Pick (\<lambda>n. n - 1) [sample_node ''a'' [], sample_node ''b'' []] \<noteq> None"
  using pick_candidate [of "\<lambda>n. n - 1" "[sample_node ''a'' [], sample_node ''b'' []]"] by simp

end
