(* ===== verification/Go_Time.thy ===== *)
theory Go_Time
  imports Go_Text "HOL-Library.List_Lexorder" "HOL-Library.Char_ord"
begin

text \<open>
  Dates and the RFC 3339 texts of Go's \<^verbatim>\<open>time\<close> package, in UTC: the proleptic Gregorian calendar
  (\<open>civil\<close> and its inverse \<open>days_of\<close>), \<^verbatim>\<open>t.Format(time.RFC3339Nano)\<close>, and \<^verbatim>\<open>time.Parse\<close> with the
  layouts \<^verbatim>\<open>RFC3339\<close> and \<^verbatim>\<open>RFC3339Nano\<close>, which accept the same texts.  Times count nanoseconds from
  1 January of year 1, so days count from that date.

  The main facts: parsing inverts formatting for the years 1 to 9999
  (\<open>Parse_Format\<close>); the order of the texts is the order of the times when the
  seconds differ (\<open>Format_less\<close>), and is not within one second, because trailing
  zeros of the fraction are dropped (\<open>Format_same_second\<close>).
\<close>

section \<open>The calendar\<close>

definition is_leap :: "int \<Rightarrow> bool" where
  "is_leap y \<longleftrightarrow> y mod 4 = 0 \<and> (y mod 100 \<noteq> 0 \<or> y mod 400 = 0)"

definition month_lengths :: "bool \<Rightarrow> int list" where
  "month_lengths leap = [31, if leap then 29 else 28, 31, 30, 31, 30, 31, 31, 30, 31, 30, 31]"

fun find_month :: "int list \<Rightarrow> nat \<Rightarrow> int \<Rightarrow> nat \<times> int" where
  "find_month [] m yd = (m, yd + 1)"
| "find_month (l # ls) m yd = (if yd < l then (m, yd + 1) else find_month ls (Suc m) (yd - l))"

text \<open>Year and day of the year of a day number, and year, month and day.\<close>

definition year_day :: "int \<Rightarrow> int \<times> int" where
  "year_day n =
     (let a = n div 146097; r = n mod 146097;
          b = min 3 (r div 36524); r1 = r - 36524 * b;
          c = r1 div 1461; r2 = r1 mod 1461;
          e = min 3 (r2 div 365)
      in (400 * a + 100 * b + 4 * c + e + 1, r2 - 365 * e))"

definition civil :: "int \<Rightarrow> int \<times> nat \<times> int" where
  "civil n = (case year_day n of (y, yd) \<Rightarrow> (y, find_month (month_lengths (is_leap y)) 1 yd))"

definition days_before_year :: "int \<Rightarrow> int" where
  "days_before_year y = 365 * (y - 1) + (y - 1) div 4 - (y - 1) div 100 + (y - 1) div 400"

definition days_of :: "int \<Rightarrow> nat \<Rightarrow> int \<Rightarrow> int" where
  "days_of y m d = days_before_year y + sum_list (take (m - 1) (month_lengths (is_leap y))) + d - 1"

definition days_in :: "nat \<Rightarrow> int \<Rightarrow> int" where
  "days_in m y = (if 1 \<le> m \<and> m \<le> 12 then month_lengths (is_leap y) ! (m - 1) else 0)"

lemma year_parts:
  assumes "0 \<le> b" "b \<le> 3" "0 \<le> c" "c \<le> 24" "0 \<le> e" "e \<le> (3 :: int)"
  shows "(400 * a + 100 * b + 4 * c + e + 1 - 1) div 4 = 100 * a + 25 * b + c"
    "(400 * a + 100 * b + 4 * c + e + 1 - 1) div 100 = 4 * a + b"
    "(400 * a + 100 * b + 4 * c + e + 1 - 1) div 400 = a"
proof -
  have d: "(k * q + x) div k = q" if "0 \<le> x" "x < k" for k q x :: int
    using that by (simp add: div_add1_eq div_pos_pos_trivial)
  show "(400 * a + 100 * b + 4 * c + e + 1 - 1) div 4 = 100 * a + 25 * b + c"
    using d [of e 4 "100 * a + 25 * b + c"] assms by (simp add: algebra_simps)
  show "(400 * a + 100 * b + 4 * c + e + 1 - 1) div 100 = 4 * a + b"
    using d [of "4 * c + e" 100 "4 * a + b"] assms by (simp add: algebra_simps)
  show "(400 * a + 100 * b + 4 * c + e + 1 - 1) div 400 = a"
    using d [of "100 * b + 4 * c + e" 400 a] assms by (simp add: algebra_simps)
qed

lemma leap_parts:
  assumes "0 \<le> b" "b \<le> 3" "0 \<le> c" "c \<le> 24" "0 \<le> e" "e \<le> (3 :: int)"
  shows "is_leap (400 * a + 100 * b + 4 * c + e + 1) \<longleftrightarrow> e = 3 \<and> (c \<noteq> 24 \<or> b = 3)"
proof -
  define y where "y = 400 * a + 100 * b + 4 * c + e + 1"
  have m: "(k * q + x) mod k = x" if "0 \<le> x" "x < k" for k q x :: int
    using that by simp
  show ?thesis
  proof (cases "e = 3")
    case False
    have "y = 4 * (100 * a + 25 * b + c) + (e + 1)" by (simp add: y_def)
    then have "y mod 4 = e + 1" by (simp only: m) (use m [of "e + 1" 4 "100 * a + 25 * b + c"] False assms in simp)
    then show ?thesis unfolding is_leap_def y_def [symmetric] using False assms by simp
  next
    case e: True
    have "y = 4 * (100 * a + 25 * b + c + 1)" by (simp add: y_def e)
    then have y4: "y mod 4 = 0" by simp
    show ?thesis
    proof (cases "c = 24")
      case False
      have "y = 100 * (4 * a + b) + (4 * c + 4)" by (simp add: y_def e)
      then have "y mod 100 = 4 * c + 4" by (simp only: m) (use m [of "4 * c + 4" 100 "4 * a + b"] False assms in simp)
      then show ?thesis unfolding is_leap_def y_def [symmetric] using False e y4 assms by simp
    next
      case c: True
      have "y = 100 * (4 * a + b + 1)" by (simp add: y_def e c)
      then have y100: "y mod 100 = 0" by simp
      have y400: "y = 400 * a + 100 * (b + 1)" by (simp add: y_def e c)
      have "y mod 400 = 0 \<longleftrightarrow> b = 3"
      proof (cases "b = 3")
        case True
        then have "y = 400 * (a + 1)" using y400 by simp
        then show ?thesis using True by simp
      next
        case False
        then have "y mod 400 = 100 * (b + 1)" using m [of "100 * (b + 1)" 400 a] y400 assms by simp
        then show ?thesis using False assms by simp
      qed
      then show ?thesis unfolding is_leap_def y_def [symmetric] using c e y4 y100 by simp
    qed
  qed
qed

text \<open>Division with the quotient capped, as for the last year of a cycle.\<close>

lemma capped_div:
  fixes r k t :: int
  assumes "0 \<le> r" "r < 4 * k + t" "0 < k" "0 \<le> t" "q = min 3 (r div k)"
  shows "0 \<le> q \<and> q \<le> 3 \<and> k * q \<le> r \<and> (q < 3 \<longrightarrow> r < k * q + k) \<and> (q = 3 \<longrightarrow> r < k * q + k + t)"
proof -
  have "k * (r div k) \<le> r" "r < k * (r div k) + k"
    using assms(1,3) by (simp_all add: mult_div_mod_eq [symmetric] minus_mod_eq_mult_div [symmetric])
  moreover have "0 \<le> r div k" using assms(1,3) by (simp add: pos_imp_zdiv_nonneg_iff)
  ultimately show ?thesis
  proof (cases "r div k \<le> 3")
    case False
    then have "k * 3 \<le> k * (r div k)" using assms(3) by (intro mult_left_mono) simp_all
    then have "k * 3 \<le> r" using \<open>k * (r div k) \<le> r\<close> by linarith
    then show ?thesis using False assms by simp
  qed (use assms(4,5) in auto)
qed

lemma year_day_spec:
  assumes "year_day n = (y, yd)"
  shows "days_before_year y + yd = n" "0 \<le> yd" "yd < 365 + (if is_leap y then 1 else 0)"
proof -
  define a where "a = n div 146097"
  define r where "r = n mod 146097"
  define b where "b = min 3 (r div 36524)"
  define r1 where "r1 = r - 36524 * b"
  define c where "c = r1 div 1461"
  define r2 where "r2 = r1 mod 1461"
  define e where "e = min 3 (r2 div 365)"
  have "year_day n = (400 * a + 100 * b + 4 * c + e + 1, r2 - 365 * e)"
    unfolding year_day_def Let_def a_def r_def b_def r1_def c_def r2_def e_def by (rule refl)
  then have y: "y = 400 * a + 100 * b + 4 * c + e + 1" "yd = r2 - 365 * e"
    unfolding assms by simp_all
  have n: "n = 146097 * a + r" "0 \<le> r" "r < 146097" by (simp_all add: a_def r_def)
  have b: "0 \<le> b" "b \<le> 3" "36524 * b \<le> r" "b < 3 \<Longrightarrow> r < 36524 * b + 36524" "b = 3 \<Longrightarrow> r < 36524 * b + 36525"
    using capped_div [of r 36524 1 b] n(2,3) b_def by auto
  have r1: "0 \<le> r1" "b < 3 \<Longrightarrow> r1 < 36524" using b(3,4) by (auto simp: r1_def)
  have "r1 < 36525" using b(2,4,5) unfolding r1_def by (cases "b = 3") auto
  note r1 = r1 this
  have c: "r1 = 1461 * c + r2" "0 \<le> r2" "r2 < 1461" by (simp_all add: c_def r2_def)
  have c2: "0 \<le> c" "c \<le> 24" using r1(1,3) c by linarith+
  have c3: "r2 < 1460" if "c = 24" "b < 3" using r1(2) c(1) that by simp
  have e: "0 \<le> e" "e \<le> 3" "365 * e \<le> r2" "e < 3 \<Longrightarrow> r2 < 365 * e + 365" "e = 3 \<Longrightarrow> r2 < 365 * e + 366"
    using capped_div [of r2 365 1 e] c(2,3) e_def by auto
  have m: "(y - 1) div 4 = 100 * a + 25 * b + c" "(y - 1) div 100 = 4 * a + b" "(y - 1) div 400 = a"
    unfolding y(1) using year_parts [OF b(1,2) c2 e(1,2)] by blast+
  show "days_before_year y + yd = n"
    unfolding days_before_year_def m using y n c(1) by (simp add: r1_def)
  show "0 \<le> yd" using e(3) y(2) by simp
  have l: "is_leap y \<longleftrightarrow> e = 3 \<and> (c \<noteq> 24 \<or> b = 3)"
    unfolding y(1) by (rule leap_parts [OF b(1,2) c2 e(1,2)])
  show "yd < 365 + (if is_leap y then 1 else 0)"
  proof (cases "e = 3")
    case True
    show ?thesis
    proof (cases "is_leap y")
      case False
      then have "r2 < 1460" using l True c3 b(2) by linarith
      then show ?thesis using False True y(2) by simp
    qed (use True e(5) y(2) in simp)
  next
    case False
    then show ?thesis using e(2,4) y(2) by simp
  qed
qed

lemma find_month_spec:
  assumes "find_month ls m yd = (m', d)" "0 \<le> yd" "yd < sum_list ls" "\<forall>l\<in>set ls. 0 < l"
  shows "m \<le> m' \<and> m' - m < length ls \<and> sum_list (take (m' - m) ls) + d - 1 = yd \<and> 1 \<le> d \<and> d \<le> ls ! (m' - m)"
  using assms
proof (induction ls m yd rule: find_month.induct)
  case (2 l ls m yd)
  show ?case
  proof (cases "yd < l")
    case False
    then have "find_month ls (Suc m) (yd - l) = (m', d)" using 2(2) by simp
    then have h: "Suc m \<le> m' \<and> m' - Suc m < length ls \<and> sum_list (take (m' - Suc m) ls) + d - 1 = yd - l \<and> 1 \<le> d \<and> d \<le> ls ! (m' - Suc m)"
      using 2 False by simp
    then have "m' - m = Suc (m' - Suc m)" by (simp add: Suc_diff_Suc Suc_le_eq)
    then show ?thesis using h by simp
  qed (use 2 in auto)
qed simp

lemma month_lengths_props:
  "length (month_lengths b) = 12" "sum_list (month_lengths b) = 365 + (if b then 1 else 0)" "\<forall>l\<in>set (month_lengths b). 0 < l"
  by (simp_all add: month_lengths_def)

lemma civil_spec:
  assumes "civil n = (y, m, d)"
  shows "1 \<le> m" "m \<le> 12" "1 \<le> d" "d \<le> days_in m y" "days_of y m d = n"
proof -
  obtain yd where yd: "year_day n = (y, yd)" "find_month (month_lengths (is_leap y)) 1 yd = (m, d)"
    using assms by (auto simp: civil_def split: prod.splits)
  note s = year_day_spec [OF yd(1)]
  have "1 \<le> m \<and> m - 1 < length (month_lengths (is_leap y)) \<and> sum_list (take (m - 1) (month_lengths (is_leap y))) + d - 1 = yd
      \<and> 1 \<le> d \<and> d \<le> month_lengths (is_leap y) ! (m - 1)"
    by (rule find_month_spec [OF yd(2) s(2)]) (use s(3) month_lengths_props in auto)
  then show "1 \<le> m" "m \<le> 12" "1 \<le> d" "d \<le> days_in m y" "days_of y m d = n"
    using s(1) by (auto simp: month_lengths_props days_in_def days_of_def)
qed

section \<open>Formatting\<close>

definition pad :: "nat \<Rightarrow> nat \<Rightarrow> string" where
  "pad w n = replicate (w - length (format_nat n)) (CHR ''0'') @ format_nat n"

definition strip_right_zeros :: "string \<Rightarrow> string" where
  "strip_right_zeros s = rev (dropWhile (\<lambda>c. c = CHR ''0'') (rev s))"

definition fraction_text :: "nat \<Rightarrow> string" where
  "fraction_text ns = (if ns = 0 then [] else CHR ''.'' # strip_right_zeros (pad 9 ns))"

definition date_text :: "int \<Rightarrow> string" where
  "date_text n = (case civil n of (y, m, d) \<Rightarrow> pad 4 (nat y) @ ''-'' @ pad 2 m @ ''-'' @ pad 2 (nat d))"

definition clock_text :: "nat \<Rightarrow> string" where
  "clock_text s = pad 2 (s div 3600) @ '':'' @ pad 2 (s div 60 mod 60) @ '':'' @ pad 2 (s mod 60)"

text \<open>\<^verbatim>\<open>t.UTC().Format(time.RFC3339Nano)\<close>, for the years from 1 on.\<close>

definition second_text :: "int \<Rightarrow> string" where
  "second_text sec = date_text (sec div 86400) @ ''T'' @ clock_text (nat (sec mod 86400))"

definition Format_RFC3339Nano :: "gotime \<Rightarrow> string" where
  "Format_RFC3339Nano t = second_text (t div Second) @ fraction_text (nat (t mod Second)) @ ''Z''"

section \<open>Parsing\<close>

text \<open>Two digits, one or two digits, and a sequence of digits at the front of a text.\<close>

definition two_digits :: "string \<Rightarrow> (nat \<times> string) option" where
  "two_digits s =
     (case s of
        a # b # r \<Rightarrow> if is_digit a \<and> is_digit b then Some (digit_val a * 10 + digit_val b, r) else None
      | _ \<Rightarrow> None)"

definition one_two_digits :: "string \<Rightarrow> (nat \<times> string) option" where
  "one_two_digits s =
     (case s of
        [] \<Rightarrow> None
      | a # r \<Rightarrow>
          if \<not> is_digit a then None
          else (case r of
                  [] \<Rightarrow> Some (digit_val a, r)
                | b # r' \<Rightarrow> if is_digit b then Some (digit_val a * 10 + digit_val b, r') else Some (digit_val a, r)))"

definition literal :: "char \<Rightarrow> string \<Rightarrow> string option" where
  "literal c s = (case s of [] \<Rightarrow> None | a # r \<Rightarrow> if a = c then Some r else None)"

definition in_bounds :: "nat \<Rightarrow> nat \<Rightarrow> (nat \<times> string) option \<Rightarrow> (nat \<times> string) option" where
  "in_bounds lo hi p = (case p of Some (n, r) \<Rightarrow> if lo \<le> n \<and> n \<le> hi then Some (n, r) else None | None \<Rightarrow> None)"

definition parse_year :: "string \<Rightarrow> (nat \<times> string) option" where
  "parse_year s =
     (if length s < 4 \<or> \<not> (\<forall>c\<in>set (take 4 s). is_digit c) then None
      else Some (digits_value 0 (take 4 s), drop 4 s))"

definition parse_fraction :: "string \<Rightarrow> nat \<times> string" where
  "parse_fraction s =
     (case s of
        p # c # r \<Rightarrow>
          if (p = CHR ''.'' \<or> p = CHR '','') \<and> is_digit c
          then (let ds = take 9 (takeWhile is_digit (c # r))
                in (digits_value 0 ds * 10 ^ (9 - length ds), dropWhile is_digit (c # r)))
          else (0, s)
      | _ \<Rightarrow> (0, s))"

text \<open>The zone: its offset in seconds.\<close>

definition parse_zone :: "string \<Rightarrow> int option" where
  "parse_zone s =
     (case s of
        [] \<Rightarrow> None
      | z # r \<Rightarrow>
          if z = CHR ''Z'' then (if r = [] then Some 0 else None)
          else if z \<noteq> CHR ''+'' \<and> z \<noteq> CHR ''-'' then None
          else (case in_bounds 0 24 (two_digits r) of
                  None \<Rightarrow> None
                | Some (h, r1) \<Rightarrow>
                    (case literal (CHR '':'') r1 of
                       None \<Rightarrow> None
                     | Some r2 \<Rightarrow>
                         (case in_bounds 0 60 (two_digits r2) of
                            Some (m, []) \<Rightarrow>
                              Some ((if z = CHR ''-'' then - 1 else 1) * int (h * 3600 + m * 60))
                          | _ \<Rightarrow> None))))"

definition parse_date :: "string \<Rightarrow> (int \<times> string) option" where
  "parse_date s =
     Option.bind (parse_year s) (\<lambda>(y, r1).
     Option.bind (literal (CHR ''-'') r1) (\<lambda>r2.
     Option.bind (in_bounds 1 12 (two_digits r2)) (\<lambda>(m, r3).
     Option.bind (literal (CHR ''-'') r3) (\<lambda>r4.
     Option.bind (two_digits r4) (\<lambda>(d, r5).
       if 1 \<le> d \<and> int d \<le> days_in m (int y) then Some (days_of (int y) m (int d), r5) else None)))))"

definition parse_clock :: "string \<Rightarrow> (nat \<times> string) option" where
  "parse_clock s =
     Option.bind (in_bounds 0 23 (one_two_digits s)) (\<lambda>(h, r1).
     Option.bind (literal (CHR '':'') r1) (\<lambda>r2.
     Option.bind (in_bounds 0 59 (two_digits r2)) (\<lambda>(mi, r3).
     Option.bind (literal (CHR '':'') r3) (\<lambda>r4.
     Option.bind (in_bounds 0 59 (two_digits r4)) (\<lambda>(sec, r5). Some (h * 3600 + mi * 60 + sec, r5))))))"

text \<open>\<^verbatim>\<open>time.Parse(time.RFC3339, s)\<close>, \<open>None\<close> on an error.\<close>

definition Parse_RFC3339 :: "string \<Rightarrow> gotime option" where
  "Parse_RFC3339 s =
     Option.bind (parse_date s) (\<lambda>(day, r1).
     Option.bind (literal (CHR ''T'') r1) (\<lambda>r2.
     Option.bind (parse_clock r2) (\<lambda>(sec, r3).
     case parse_fraction r3 of (ns, r4) \<Rightarrow>
     Option.bind (parse_zone r4) (\<lambda>off.
       Some ((day * 86400 + int sec - off) * Second + int ns)))))"

section \<open>Parsing inverts formatting\<close>

lemma format_nat_length_le: "n < 10 ^ w \<Longrightarrow> 0 < w \<Longrightarrow> length (format_nat n) \<le> w"
proof (cases "n = 0")
  case False
  assume n: "n < 10 ^ w"
  show ?thesis
  proof (rule ccontr)
    assume "\<not> length (format_nat n) \<le> w"
    then have "(10 :: nat) ^ w \<le> 10 ^ (length (format_nat n) - 1)" by (intro power_increasing) simp_all
    moreover have "10 ^ (length (format_nat n) - 1) \<le> n" using format_nat_length [of n] False by blast
    ultimately show False using n by linarith
  qed
qed (simp add: format_nat_0)

lemma pad_length: "n < 10 ^ w \<Longrightarrow> 0 < w \<Longrightarrow> length (pad w n) = w"
  using format_nat_length_le [of n w] by (simp add: pad_def)

lemma pad_digits: "\<forall>c\<in>set (pad w n). is_digit c"
  using format_nat_all_digits by (auto simp: pad_def is_digit_def)

lemma pad_value: "digits_value 0 (pad w n) = n"
  using digits_value_zeros [of 0] by (simp add: pad_def digits_value_format)

lemma two_digits_pad: "n < 100 \<Longrightarrow> two_digits (pad 2 n @ r) = Some (n, r)"
proof -
  assume "n < 100"
  then have "length (pad 2 n) = 2" using pad_length [of n 2] by simp
  then obtain a b where ab: "pad 2 n = [a, b]" by (auto simp: length_Suc_conv numeral_2_eq_2)
  then have "is_digit a" "is_digit b" "digit_val a * 10 + digit_val b = n"
    using pad_digits [of 2 n] pad_value [of 2 n] by auto
  then show ?thesis by (simp add: two_digits_def ab)
qed

lemma one_two_digits_pad: "n < 100 \<Longrightarrow> one_two_digits (pad 2 n @ r) = Some (n, r)"
proof -
  assume "n < 100"
  then have "length (pad 2 n) = 2" using pad_length [of n 2] by simp
  then obtain a b where ab: "pad 2 n = [a, b]" by (auto simp: length_Suc_conv numeral_2_eq_2)
  then have "is_digit a" "is_digit b" "digit_val a * 10 + digit_val b = n"
    using pad_digits [of 2 n] pad_value [of 2 n] by auto
  then show ?thesis by (simp add: one_two_digits_def ab)
qed

lemma parse_year_pad: "n < 10000 \<Longrightarrow> parse_year (pad 4 n @ r) = Some (n, r)"
  using pad_length [of n 4] pad_digits [of 4 n] pad_value [of 4 n] by (simp add: parse_year_def)

lemma literal_Cons: "literal c (c # s) = Some s"
  by (simp add: literal_def)

text \<open>Days from year 1 to 9999.\<close>

definition date_ok :: "int \<Rightarrow> bool" where
  "date_ok n \<longleftrightarrow> (case civil n of (y, m, d) \<Rightarrow> 1 \<le> y \<and> y \<le> 9999)"

lemma days_in_le: "days_in m y \<le> 31"
proof (cases "1 \<le> m \<and> m \<le> 12")
  case True
  then have "month_lengths (is_leap y) ! (m - 1) \<in> set (month_lengths (is_leap y))"
    by (intro nth_mem) (auto simp: month_lengths_props)
  then show ?thesis using True by (auto simp: days_in_def month_lengths_def split: if_splits)
qed (auto simp: days_in_def)

lemma parse_date_text:
  assumes "date_ok n" shows "parse_date (date_text n @ r) = Some (n, r)"
proof -
  obtain y m d where c: "civil n = (y, m, d)" by (metis surj_pair)
  note s = civil_spec [OF c]
  have y: "1 \<le> y" "y \<le> 9999" using assms by (auto simp: date_ok_def c)
  have d: "nat d < 100" using s(4) days_in_le [of m y] by simp
  have m: "m < 100" using s(2) by simp
  have yn: "nat y < 10000" using y by simp
  show ?thesis
    using s y
    by (simp add: date_text_def c parse_date_def parse_year_pad [OF yn] literal_Cons two_digits_pad [OF m] two_digits_pad [OF d]
        in_bounds_def)
qed

lemma parse_clock_text:
  assumes "s < 86400" shows "parse_clock (clock_text s @ r) = Some (s, r)"
proof -
  have b: "s div 3600 \<le> 23" "s div 60 mod 60 \<le> 59" "s mod 60 \<le> 59" using assms by auto
  have h: "s div 3600 < 100" "s div 60 mod 60 < 100" "s mod 60 < 100" using b by linarith+
  have "s div 3600 * 3600 + s div 60 mod 60 * 60 + s mod 60 = s"
  proof -
    have "s div 3600 * 60 + s div 60 mod 60 = s div 60"
      using div_mult_mod_eq [of "s div 60" 60] by (simp add: div_mult2_eq [symmetric])
    then show ?thesis using div_mult_mod_eq [of s 60] by linarith
  qed
  then show ?thesis
    using b by (simp add: clock_text_def parse_clock_def one_two_digits_pad [OF h(1)] two_digits_pad [OF h(2)]
        two_digits_pad [OF h(3)] literal_Cons in_bounds_def)
qed

lemma strip_right_zeros_parts:
  obtains k where "s = strip_right_zeros s @ replicate k (CHR ''0'')"
proof -
  have "s = rev (dropWhile (\<lambda>c. c = CHR ''0'') (rev s)) @ rev (takeWhile (\<lambda>c. c = CHR ''0'') (rev s))"
    by (metis rev_append rev_rev_ident takeWhile_dropWhile_id)
  moreover have "takeWhile (\<lambda>c. c = CHR ''0'') (rev s) = replicate (length (takeWhile (\<lambda>c. c = CHR ''0'') (rev s))) (CHR ''0'')"
    by (intro replicate_eqI) (auto dest: set_takeWhileD)
  ultimately show ?thesis using that unfolding strip_right_zeros_def by (metis rev_replicate)
qed

lemma parse_fraction_text:
  assumes "ns < 10 ^ 9" "r \<noteq> []" "hd r = CHR ''Z''"
  shows "parse_fraction (fraction_text ns @ r) = (ns, r)"
proof (cases "ns = 0")
  case True
  then show ?thesis using assms(2,3) by (cases r; cases "tl r") (auto simp: fraction_text_def parse_fraction_def)
next
  case False
  define p where "p = pad 9 ns"
  obtain k where k: "p = strip_right_zeros p @ replicate k (CHR ''0'')" using strip_right_zeros_parts .
  define q where "q = strip_right_zeros p"
  have p9: "length p = 9" using pad_length [of ns 9] assms(1) by (simp add: p_def)
  have len: "length q + k = 9" using p9 k by (metis length_append length_replicate q_def)
  have dg: "\<forall>c\<in>set q. is_digit c" using pad_digits [of 9 ns] k unfolding p_def [symmetric] q_def by (metis UnCI set_append)
  have val: "digits_value 0 q * 10 ^ k = ns"
    using pad_value [of 9 ns] k digits_value_zeros [of "digits_value 0 q" k] unfolding p_def [symmetric] q_def by (metis foldl_append)
  then have "q \<noteq> []" using False by (cases q) auto
  then obtain c cs where q: "q = c # cs" by (cases q) auto
  have "\<not> is_digit (hd r)" using assms(3) by (simp add: is_digit_def)
  then have sp: "takeWhile is_digit (q @ r) = q" "dropWhile is_digit (q @ r) = r"
    using dg assms(2) by (cases r; simp add: takeWhile_append dropWhile_append takeWhile_eq_all_conv dropWhile_eq_self_iff)+
  have "take 9 q = q" "9 - length q = k" using len by auto
  then show ?thesis
    using sp val dg q False
    by (simp add: fraction_text_def p_def [symmetric] q_def [symmetric] parse_fraction_def Let_def)
qed

definition time_ok :: "gotime \<Rightarrow> bool" where
  "time_ok t \<longleftrightarrow> date_ok (t div Second div 86400)"

lemma Parse_Format: "time_ok t \<Longrightarrow> Parse_RFC3339 (Format_RFC3339Nano t) = Some t"
proof -
  assume t: "time_ok t"
  define sec where "sec = t div Second"
  have s: "nat (sec mod 86400) < 86400" by (simp add: nat_less_iff)
  have n: "nat (t mod Second) < 10 ^ 9" by (simp add: nat_less_iff Second_def)
  have d: "parse_date (date_text (sec div 86400) @ r) = Some (sec div 86400, r)" for r
    using parse_date_text t by (simp add: time_ok_def sec_def)
  have f: "Format_RFC3339Nano t = date_text (sec div 86400) @ CHR ''T'' # clock_text (nat (sec mod 86400)) @
      fraction_text (nat (t mod Second)) @ ''Z''"
    by (simp add: Format_RFC3339Nano_def second_text_def flip: sec_def)
  have "sec div 86400 * 86400 + sec mod 86400 = sec" "sec * Second + t mod Second = t" by (simp_all add: sec_def)
  moreover have "int (nat (sec mod 86400)) = sec mod 86400" "int (nat (t mod Second)) = t mod Second"
    by (simp_all add: Second_def)
  ultimately show ?thesis
    using parse_fraction_text [OF n, of "''Z''"] parse_clock_text [OF s]
    by (simp add: Parse_RFC3339_def f d literal_Cons parse_zone_def)
qed

section \<open>The order of the texts\<close>

lemma lex_append:
  fixes x y u v :: "'a::linorder list"
  assumes "length x = length y" shows "x @ u < y @ v \<longleftrightarrow> x < y \<or> x = y \<and> u < v"
  using assms by (induction x y rule: list_induct2) auto

lemma digits_value_shift: "digits_value n cs = n * 10 ^ length cs + digits_value 0 cs"
proof (induction cs arbitrary: n)
  case (Cons c cs)
  show ?case using Cons [of "n * 10 + digit_val c"] Cons [of "digit_val c"] by (simp add: algebra_simps)
qed simp

lemma digits_value_bound: "\<forall>c\<in>set cs. is_digit c \<Longrightarrow> digits_value 0 cs < 10 ^ length cs"
proof (induction cs)
  case (Cons c cs)
  have "digit_val c \<le> 9" using Cons.prems by (auto simp: is_digit_def digit_val_def)
  then have "(digit_val c + 1) * 10 ^ length cs \<le> 10 * 10 ^ length cs" by (intro mult_le_mono1) simp
  then have "digit_val c * 10 ^ length cs + 10 ^ length cs \<le> 10 * 10 ^ length cs" by (simp only: add_mult_distrib mult_1)
  moreover have "digits_value 0 cs < 10 ^ length cs" using Cons by simp
  moreover have "digits_value 0 (c # cs) = digit_val c * 10 ^ length cs + digits_value 0 cs"
    using digits_value_shift [of "digit_val c" cs] by simp
  ultimately show ?case by (simp only: length_Cons power_Suc)
qed simp

lemma radix_less:
  fixes p q r s K :: nat
  assumes "r < K" "s < K" shows "p * K + r < q * K + s \<longleftrightarrow> p < q \<or> p = q \<and> r < s"
proof -
  have step: "x * K + K \<le> y * K" if "x < y" for x y
    using mult_le_mono1 [of "Suc x" y K] that by simp
  consider "p < q" | "p = q" | "q < p" by linarith
  then show ?thesis
  proof cases
    case 1
    then show ?thesis using step [of p q] assms by simp
  next
    case 3
    then show ?thesis using step [of q p] assms by simp
  qed simp
qed

lemma digit_less:
  assumes "is_digit a" "is_digit b"
  shows "a < b \<longleftrightarrow> digit_val a < digit_val b" "a = b \<longleftrightarrow> digit_val a = digit_val b"
proof -
  have "of_char a = 48 + digit_val a" "of_char b = 48 + digit_val b"
    using assms by (auto simp: is_digit_def digit_val_def)
  moreover have "a = b \<longleftrightarrow> of_char a = (of_char b :: nat)" by simp
  ultimately show "a < b \<longleftrightarrow> digit_val a < digit_val b" "a = b \<longleftrightarrow> digit_val a = digit_val b"
    by (simp_all add: less_char_def del: of_char_eq_iff)
qed

lemma digits_less:
  assumes "length x = length y" "\<forall>c\<in>set x. is_digit c" "\<forall>c\<in>set y. is_digit c"
  shows "x < y \<longleftrightarrow> digits_value 0 x < digits_value 0 y"
  using assms
proof (induction x y rule: list_induct2)
  case (Cons a x b y)
  have d: "is_digit a" "is_digit b" "\<forall>c\<in>set x. is_digit c" "\<forall>c\<in>set y. is_digit c" using Cons.prems by auto
  have v: "digits_value 0 x < 10 ^ length y" "digits_value 0 y < 10 ^ length y"
    using digits_value_bound [OF d(3)] digits_value_bound [OF d(4)] Cons.hyps by simp_all
  have e: "digits_value 0 (a # x) = digit_val a * 10 ^ length y + digits_value 0 x"
      "digits_value 0 (b # y) = digit_val b * 10 ^ length y + digits_value 0 y"
    using digits_value_shift [of "digit_val a" x] digits_value_shift [of "digit_val b" y] Cons.hyps by simp_all
  show ?case
    unfolding e radix_less [OF v] Cons_less_Cons digit_less [OF d(1,2)] Cons.IH [OF d(3,4)] by (rule refl)
qed simp

lemma pad_less:
  assumes "a < 10 ^ w" "b < 10 ^ w" "0 < w" shows "pad w a < pad w b \<longleftrightarrow> a < b"
proof -
  have "length (pad w a) = length (pad w b)" unfolding pad_length [OF assms(1,3)] pad_length [OF assms(2,3)] by (rule refl)
  from digits_less [OF this pad_digits pad_digits] show ?thesis unfolding pad_value .
qed

lemma pad_eq: "pad w a = pad w b \<longleftrightarrow> a = b"
  using arg_cong [of "pad w a" "pad w b" "digits_value 0"] unfolding pad_value by blast

lemma div_pred:
  fixes y k :: int
  assumes "0 < k" shows "y div k = (y - 1) div k + (if y mod k = 0 then 1 else 0)"
proof -
  have m: "k * (y div k) + y mod k = y" "0 \<le> y mod k" "y mod k < k" using assms by simp_all
  show ?thesis
  proof (cases "y mod k = 0")
    case True
    have "k * (y div k - 1) = k * (y div k) - k" by (simp only: right_diff_distrib mult_1_right)
    then have "y - 1 = k * (y div k - 1) + (k - 1)" using m(1) True by linarith
    then have "(y - 1) div k = y div k - 1" by (rule int_div_pos_eq) (use assms in simp_all)
    then show ?thesis using True by simp
  next
    case False
    have "y - 1 = k * (y div k) + (y mod k - 1)" using m(1) by linarith
    then have "(y - 1) div k = y div k" by (rule int_div_pos_eq) (use False m(2,3) in linarith)+
    then show ?thesis using False by simp
  qed
qed

lemma mod_divides: "(y::int) mod k = 0 \<Longrightarrow> j dvd k \<Longrightarrow> y mod j = 0"
  by (metis dvd_imp_mod_0 dvd_trans mod_0_imp_dvd)

lemma leap_count:
  fixes y a b c :: int
  shows "(R \<Longrightarrow> Q) \<Longrightarrow> (Q \<Longrightarrow> P) \<Longrightarrow> 365 * y + (a + (if P then 1 else 0)) - (b + (if Q then 1 else 0)) + (c + (if R then 1 else 0)) =
    365 * (y - 1) + a - b + c + 365 + (if P \<and> (\<not> Q \<or> R) then 1 else 0)"
  by (cases P; cases Q; cases R) simp_all

lemma days_before_year_Suc:
  "days_before_year (y + 1) = days_before_year y + 365 + (if is_leap y then 1 else 0)"
proof -
  have d: "y div 4 = (y - 1) div 4 + (if y mod 4 = 0 then 1 else 0)"
      "y div 100 = (y - 1) div 100 + (if y mod 100 = 0 then 1 else 0)"
      "y div 400 = (y - 1) div 400 + (if y mod 400 = 0 then 1 else 0)" by (rule div_pred, simp)+
  have m: "y mod 400 = 0 \<Longrightarrow> y mod 100 = 0" "y mod 100 = 0 \<Longrightarrow> y mod 4 = 0"
    by (erule mod_divides, simp)+
  show ?thesis
    unfolding days_before_year_def is_leap_def add_diff_cancel_right' d
    by (rule leap_count [OF m])
qed

lemma days_before_year_mono: "y \<le> y' \<Longrightarrow> days_before_year y \<le> days_before_year y'"
proof (induction y' rule: int_ge_induct)
  case (step i)
  then show ?case using days_before_year_Suc [of i] by (simp split: if_splits)
qed simp

lemma year_less:
  assumes "year_day n = (y, yd)" "year_day n' = (y', yd')" "n < n'"
  shows "y < y' \<or> y = y' \<and> yd < yd'"
proof (cases "y \<le> y'")
  case False
  then have "days_before_year (y' + 1) \<le> days_before_year y" by (intro days_before_year_mono) simp
  then show ?thesis using year_day_spec [OF assms(1)] year_day_spec [OF assms(2)] days_before_year_Suc [of y'] assms(3)
    by (simp split: if_splits)
next
  case True
  then show ?thesis using year_day_spec(1) [OF assms(1)] year_day_spec(1) [OF assms(2)] assms(3) by auto
qed

lemma find_month_less:
  assumes "find_month ls m yd = (a, d)" "find_month ls m yd' = (a', d')" "yd < yd'" "0 \<le> yd" "yd' < sum_list ls" "\<forall>l\<in>set ls. 0 < l"
  shows "a < a' \<or> a = a' \<and> d < d'"
  using assms
proof (induction ls m yd arbitrary: yd' rule: find_month.induct)
  case (2 l ls m yd)
  show ?case
  proof (cases "yd < l")
    case True
    show ?thesis
    proof (cases "yd' < l")
      case False
      then have "find_month ls (Suc m) (yd' - l) = (a', d')" using 2 by simp
      then have "Suc m \<le> a'" using find_month_spec [of ls "Suc m" "yd' - l" a' d'] 2 False by simp
      then show ?thesis using True 2 by simp
    qed (use True 2 in auto)
  next
    case False
    then show ?thesis using "2.IH" [of "yd' - l"] 2 by simp
  qed
qed simp

lemma civil_less:
  assumes "civil n = (y, m, d)" "civil n' = (y', m', d')" "n < n'"
  shows "y < y' \<or> y = y' \<and> (m < m' \<or> m = m' \<and> d < d')"
proof -
  obtain yd yd' where yd: "year_day n = (y, yd)" "find_month (month_lengths (is_leap y)) 1 yd = (m, d)"
      "year_day n' = (y', yd')" "find_month (month_lengths (is_leap y')) 1 yd' = (m', d')"
    using assms(1,2) by (auto simp: civil_def split: prod.splits)
  from year_less [OF yd(1,3) assms(3)] show ?thesis
  proof
    assume "y = y' \<and> yd < yd'"
    then show ?thesis
      using find_month_less [OF yd(2), of yd' m' d'] yd(4) year_day_spec [OF yd(1)] year_day_spec [OF yd(3)] month_lengths_props
      by auto
  qed simp
qed

lemma date_text_less:
  assumes "date_ok n" "date_ok n'" "n < n'" shows "date_text n < date_text n'"
proof -
  obtain y m d where c: "civil n = (y, m, d)" by (metis surj_pair)
  obtain y' m' d' where c': "civil n' = (y', m', d')" by (metis surj_pair)
  note s = civil_spec [OF c] and s' = civil_spec [OF c']
  have b: "nat y < 10 ^ 4" "nat y' < 10 ^ 4" "m < 10 ^ 2" "m' < 10 ^ 2" "nat d < 10 ^ 2" "nat d' < 10 ^ 2" "0 \<le> y" "0 \<le> y'" "0 \<le> d"
    using assms(1,2) s s' days_in_le [of m y] days_in_le [of m' y'] by (auto simp: date_ok_def c c')
  have l: "length (pad 4 (nat y)) = 4" "length (pad 4 (nat y')) = 4" "length (pad 2 m) = 2" "length (pad 2 m') = 2"
      "length (pad 2 (nat d)) = 2" "length (pad 2 (nat d')) = 2"
    using b pad_length by auto
  have "nat y < nat y' \<or> nat y = nat y' \<and> (m < m' \<or> m = m' \<and> nat d < nat d')"
    using civil_less [OF c c' assms(3)] b by auto
  then show ?thesis
    using l b by (auto simp: date_text_def c c' lex_append pad_less pad_eq)
qed

lemma quot_rem_less: "s < s' \<Longrightarrow> s div k < s' div k \<or> s div k = s' div k \<and> s mod k < s' mod k" for s s' k :: nat
  by (metis add_less_cancel_left div_le_mono div_mult_mod_eq le_neq_implies_less less_imp_le)

lemma clock_parts: "s < 86400 \<Longrightarrow> s div 3600 < 100 \<and> s div 60 mod 60 < 100 \<and> s mod 60 < 100" for s :: nat
  using mod_less_divisor [of 60 s] mod_less_divisor [of 60 "s div 60"] div_le_mono [of s 86400 3600] by linarith

lemma pad2_length: "n < 100 \<Longrightarrow> length (pad 2 n) = 2"
  by (rule pad_length) simp_all

lemma pad2_less: "a < 100 \<Longrightarrow> b < 100 \<Longrightarrow> pad 2 a < pad 2 b \<longleftrightarrow> a < b"
  by (rule pad_less) simp_all

lemma three_pads_less:
  assumes "h < 100" "h' < 100" "m < 100" "m' < 100" "s < 100" "s' < 100"
    and "h < h' \<or> h = h' \<and> (m < m' \<or> m = m' \<and> s < s')"
  shows "pad 2 h @ '':'' @ pad 2 m @ '':'' @ pad 2 s < pad 2 h' @ '':'' @ pad 2 m' @ '':'' @ pad 2 s'"
  using assms by (auto simp: lex_append pad2_length pad2_less pad_eq)

lemma clock_text_less:
  assumes "s < s'" "s' < 86400" shows "clock_text s < clock_text s'"
proof -
  have b: "s div 3600 < 100" "s div 60 mod 60 < 100" "s mod 60 < 100"
      "s' div 3600 < 100" "s' div 60 mod 60 < 100" "s' mod 60 < 100"
    using clock_parts [of s] clock_parts [of s'] assms by auto
  have e: "s div 3600 = s div 60 div 60" "s' div 3600 = s' div 60 div 60" by (simp_all add: div_mult2_eq [symmetric])
  have "s div 60 < s' div 60 \<or> s div 60 = s' div 60 \<and> s mod 60 < s' mod 60" by (rule quot_rem_less [OF assms(1)])
  then have "s div 3600 < s' div 3600 \<or> s div 3600 = s' div 3600 \<and> (s div 60 mod 60 < s' div 60 mod 60 \<or>
      s div 60 mod 60 = s' div 60 mod 60 \<and> s mod 60 < s' mod 60)"
    unfolding e using quot_rem_less [of "s div 60" "s' div 60" 60] by metis
  then show ?thesis unfolding clock_text_def by (rule three_pads_less [OF b(1,4,2,5,3,6)])
qed

lemma clock_text_length: "s < 86400 \<Longrightarrow> length (clock_text s) = 8"
  using clock_parts [of s] pad2_length by (simp add: clock_text_def)

lemma date_text_length:
  assumes "date_ok n" shows "length (date_text n) = 10"
proof -
  obtain y m d where c: "civil n = (y, m, d)" by (metis surj_pair)
  note s = civil_spec [OF c]
  have "nat y < 10 ^ 4" "m < 10 ^ 2" "nat d < 10 ^ 2"
    using assms s days_in_le [of m y] by (auto simp: date_ok_def c)
  then show ?thesis using pad_length by (simp add: date_text_def c)
qed

lemma second_text_length: "date_ok (a div 86400) \<Longrightarrow> length (second_text a) = 19"
  using date_text_length clock_text_length [of "nat (a mod 86400)"] by (simp add: second_text_def nat_less_iff)

lemma second_text_less:
  assumes "date_ok (a div 86400)" "date_ok (b div 86400)" "a < b"
  shows "second_text a < second_text b"
proof -
  have l: "length (date_text (a div 86400)) = length (date_text (b div 86400))"
    using assms(1,2) date_text_length by simp
  have le: "a div 86400 \<le> b div 86400" using assms(3) by (intro zdiv_mono1) simp_all
  show ?thesis
  proof (cases "a div 86400 = b div 86400")
    case True
    then have "a mod 86400 < b mod 86400"
      using assms(3) div_mult_mod_eq [of a 86400] div_mult_mod_eq [of b 86400] by linarith
    then have "nat (a mod 86400) < nat (b mod 86400)" "nat (b mod 86400) < 86400" by (simp_all add: nat_less_iff)
    then have "clock_text (nat (a mod 86400)) < clock_text (nat (b mod 86400))" by (rule clock_text_less)
    then show ?thesis by (simp add: second_text_def True lex_append)
  next
    case False
    then show ?thesis using le date_text_less [OF assms(1,2)] by (simp add: second_text_def lex_append [OF l])
  qed
qed

text \<open>The order of times whose seconds differ is the order of their texts.\<close>

lemma Format_less:
  assumes "time_ok t" "time_ok u" "t div Second < u div Second"
  shows "Format_RFC3339Nano t < Format_RFC3339Nano u"
proof -
  have "length (second_text (t div Second)) = length (second_text (u div Second))"
    using assms(1,2) second_text_length by (simp add: time_ok_def)
  then show ?thesis
    using second_text_less [of "t div Second" "u div Second"] assms
    by (simp add: Format_RFC3339Nano_def lex_append time_ok_def)
qed

text \<open>Within a second it is not: a whole second sorts after every fraction of it.\<close>

lemma Format_same_second:
  assumes "t mod Second = 0" "0 < n" "n < Second"
  shows "Format_RFC3339Nano (t + n) < Format_RFC3339Nano t"
proof -
  have d: "(t + n) div Second = t div Second" "(t + n) mod Second = n"
    using assms by (auto simp: div_add1_eq mod_add_left_eq Second_def)
  have "nat n \<noteq> 0" using assms by simp
  then have "fraction_text (nat n) @ ''Z'' < fraction_text 0 @ ''Z''"
    by (simp add: fraction_text_def less_char_def)
  then show ?thesis using assms(1) by (simp add: Format_RFC3339Nano_def d lex_append)
qed

end
