(* ===== verification/Config.thy ===== *)
theory Config
  imports Domain Go_Text
begin

text \<open>
  \<^verbatim>\<open>internal/config/config.go\<close>: loading the configuration.  The TOML decoder is a library: decoding
  a file into a configuration is the argument \<open>DecodeFile\<close> of \<open>Load\<close>; \<open>stat\<close> tells which files exist,
  \<open>env\<close> is the environment.  \<^verbatim>\<open>filepath.Join\<close> is modelled for Unix paths.
\<close>

section \<open>Paths\<close>

text \<open>\<^verbatim>\<open>filepath.Clean\<close>, component by component; \<open>out\<close> holds the components kept, last first.\<close>

fun clean_parts :: "bool \<Rightarrow> string list \<Rightarrow> string list \<Rightarrow> string list" where
  "clean_parts rooted out [] = rev out"
| "clean_parts rooted out (p # ps) =
     (if p = [] \<or> p = ''.'' then clean_parts rooted out ps
      else if p = ''..''
      then (case out of
              q # qs \<Rightarrow> if q = ''..'' then clean_parts rooted (p # out) ps else clean_parts rooted qs ps
            | [] \<Rightarrow> if rooted then clean_parts rooted [] ps else clean_parts rooted [p] ps)
      else clean_parts rooted (p # out) ps)"

definition path_Clean :: "string \<Rightarrow> string" where
  "path_Clean p =
     (let rooted = (p \<noteq> [] \<and> hd p = CHR ''/'');
          s = join_strings ''/'' (clean_parts rooted [] (split_char (CHR ''/'') p))
      in if rooted then ''/'' @ s else if s = [] then ''.'' else s)"

text \<open>\<^verbatim>\<open>filepath.Join(dir, name)\<close> for a name that is not empty.\<close>

definition path_Join :: "string \<Rightarrow> string \<Rightarrow> string" where
  "path_Join dir name = path_Clean (if dir = [] then name else dir @ ''/'' @ name)"

section \<open>The configuration\<close>

definition DefaultConfigDir :: string where
  "DefaultConfigDir = ''data''"

record Config =
  cf_App :: AppConfig
  cf_DBPath :: string

definition defaults :: Config where
  "defaults =
     \<lparr>cf_App =
        \<lparr>ac_Server = \<lparr>sv_Addr = '':8080'', sv_CORSOrigins = [''*''], sv_AdminToken = [], sv_MaxMemoryMB = 1024\<rparr>,
         ac_RateLimit = \<lparr>rl_TPM = 0, rl_RPM = 0, rl_MaxRetries = 2\<rparr>,
         ac_Logging =
           \<lparr>lg_BasicMaxRows = 0, lg_BasicMaxDays = 30, lg_BasicMaxSizeMB = 8192, lg_DetailMaxRows = 0, lg_DetailMaxDays = 7,
            lg_DetailMaxSizeMB = 2048, lg_BufferSize = 4096, lg_FlushIntervalMs = 500\<rparr>,
         ac_Cache = \<lparr>cc_Type = ''memory'', cc_Redis = \<lparr>rc_Addr = [], rc_Password = [], rc_DB = 0\<rparr>\<rparr>,
         ac_MQ = \<lparr>mq_Type = ''memory'', mq_Redis = \<lparr>rc_Addr = [], rc_Password = [], rc_DB = 0\<rparr>, mq_RabbitMQ = \<lparr>rmq_URL = []\<rparr>\<rparr>,
         ac_Queue = \<lparr>qc_DefaultPriority = 0, qc_MaxQueueSize = 10000\<rparr>,
         ac_Worker = \<lparr>dw_PoolSize = 10, dw_MaxRetryAttempts = 3, dw_RetryDelayMs = 100, dw_MaxWaitTimeSec = 1800\<rparr>,
         ac_Providers = [], ac_APIKeys = []\<rparr>,
      cf_DBPath = ''proxyllm.db''\<rparr>"

section \<open>The environment\<close>

definition envInt :: "(string \<Rightarrow> string) \<Rightarrow> string \<Rightarrow> int option" where
  "envInt env key = (let v = env key in if v = [] then None else Atoi v)"

text \<open>\<^verbatim>\<open>if v := os.Getenv(key); v != ""\<close> and \<^verbatim>\<open>if v := envInt(key); v != nil\<close>.\<close>

definition with_env :: "(string \<Rightarrow> string) \<Rightarrow> string \<Rightarrow> (string \<Rightarrow> 'a \<Rightarrow> 'a) \<Rightarrow> 'a \<Rightarrow> 'a" where
  "with_env env key set_it c = (let v = env key in if v \<noteq> [] then set_it v c else c)"

definition with_int :: "(string \<Rightarrow> string) \<Rightarrow> string \<Rightarrow> (int \<Rightarrow> 'a \<Rightarrow> 'a) \<Rightarrow> 'a \<Rightarrow> 'a" where
  "with_int env key set_it c = (case envInt env key of None \<Rightarrow> c | Some v \<Rightarrow> set_it v c)"

definition env_server :: "(string \<Rightarrow> string) \<Rightarrow> ServerConfig \<Rightarrow> ServerConfig" where
  "env_server env sv =
     (let sv1 = with_env env ''PROXYLLM_SERVER_ADDR'' (\<lambda>v s. s\<lparr>sv_Addr := v\<rparr>) sv;
          sv2 = with_env env ''PROXYLLM_SERVER_ADMIN_TOKEN'' (\<lambda>v s. s\<lparr>sv_AdminToken := v\<rparr>) sv1;
          sv3 = with_env env ''PROXYLLM_SERVER_CORS_ORIGINS'' (\<lambda>v s. s\<lparr>sv_CORSOrigins := split_char (CHR '','') v\<rparr>) sv2
      in with_int env ''PROXYLLM_MAX_MEMORY_MB'' (\<lambda>v s. s\<lparr>sv_MaxMemoryMB := v\<rparr>) sv3)"

definition env_ratelimit :: "(string \<Rightarrow> string) \<Rightarrow> RateLimitConfig \<Rightarrow> RateLimitConfig" where
  "env_ratelimit env rl =
     (let rl1 = with_int env ''PROXYLLM_RL_TPM'' (\<lambda>v r. r\<lparr>rl_TPM := v\<rparr>) rl;
          rl2 = with_int env ''PROXYLLM_RL_RPM'' (\<lambda>v r. r\<lparr>rl_RPM := v\<rparr>) rl1
      in with_int env ''PROXYLLM_RL_MAX_RETRIES'' (\<lambda>v r. r\<lparr>rl_MaxRetries := v\<rparr>) rl2)"

definition env_logging :: "(string \<Rightarrow> string) \<Rightarrow> LoggingConfig \<Rightarrow> LoggingConfig" where
  "env_logging env lg =
     (let lg1 = with_int env ''PROXYLLM_LOG_BASIC_MAX_ROWS'' (\<lambda>v l. l\<lparr>lg_BasicMaxRows := v\<rparr>) lg;
          lg2 = with_int env ''PROXYLLM_LOG_BASIC_MAX_DAYS'' (\<lambda>v l. l\<lparr>lg_BasicMaxDays := v\<rparr>) lg1;
          lg3 = with_int env ''PROXYLLM_LOG_BASIC_MAX_SIZE_MB'' (\<lambda>v l. l\<lparr>lg_BasicMaxSizeMB := v\<rparr>) lg2;
          lg4 = with_int env ''PROXYLLM_LOG_DETAIL_MAX_ROWS'' (\<lambda>v l. l\<lparr>lg_DetailMaxRows := v\<rparr>) lg3;
          lg5 = with_int env ''PROXYLLM_LOG_DETAIL_MAX_DAYS'' (\<lambda>v l. l\<lparr>lg_DetailMaxDays := v\<rparr>) lg4;
          lg6 = with_int env ''PROXYLLM_LOG_DETAIL_MAX_SIZE_MB'' (\<lambda>v l. l\<lparr>lg_DetailMaxSizeMB := v\<rparr>) lg5;
          lg7 = with_int env ''PROXYLLM_LOG_BUFFER_SIZE'' (\<lambda>v l. l\<lparr>lg_BufferSize := v\<rparr>) lg6
      in with_int env ''PROXYLLM_LOG_FLUSH_INTERVAL_MS'' (\<lambda>v l. l\<lparr>lg_FlushIntervalMs := v\<rparr>) lg7)"

definition env_redis :: "(string \<Rightarrow> string) \<Rightarrow> string \<Rightarrow> RedisConfig \<Rightarrow> RedisConfig" where
  "env_redis env pre rc =
     (let rc1 = with_env env (pre @ ''_REDIS_ADDR'') (\<lambda>v r. r\<lparr>rc_Addr := v\<rparr>) rc;
          rc2 = with_env env (pre @ ''_REDIS_PASSWORD'') (\<lambda>v r. r\<lparr>rc_Password := v\<rparr>) rc1
      in with_int env (pre @ ''_REDIS_DB'') (\<lambda>v r. r\<lparr>rc_DB := v\<rparr>) rc2)"

definition env_cache :: "(string \<Rightarrow> string) \<Rightarrow> CacheConfig \<Rightarrow> CacheConfig" where
  "env_cache env cc =
     (let cc1 = with_env env ''PROXYLLM_CACHE_TYPE'' (\<lambda>v c. c\<lparr>cc_Type := v\<rparr>) cc
      in cc1\<lparr>cc_Redis := env_redis env ''PROXYLLM_CACHE'' (cc_Redis cc1)\<rparr>)"

definition env_mq :: "(string \<Rightarrow> string) \<Rightarrow> MQConfig \<Rightarrow> MQConfig" where
  "env_mq env mq =
     (let mq1 = with_env env ''PROXYLLM_MQ_TYPE'' (\<lambda>v m. m\<lparr>mq_Type := v\<rparr>) mq;
          mq2 = mq1\<lparr>mq_Redis := env_redis env ''PROXYLLM_MQ'' (mq_Redis mq1)\<rparr>
      in with_env env ''PROXYLLM_MQ_RABBITMQ_URL'' (\<lambda>v m. m\<lparr>mq_RabbitMQ := (mq_RabbitMQ m)\<lparr>rmq_URL := v\<rparr>\<rparr>) mq2)"

definition applyEnv :: "(string \<Rightarrow> string) \<Rightarrow> Config \<Rightarrow> Config" where
  "applyEnv env c =
     (let c1 = with_env env ''PROXYLLM_DB_PATH'' (\<lambda>v c. c\<lparr>cf_DBPath := v\<rparr>) c; a = cf_App c1
      in c1\<lparr>cf_App := a\<lparr>ac_Server := env_server env (ac_Server a), ac_RateLimit := env_ratelimit env (ac_RateLimit a),
                          ac_Logging := env_logging env (ac_Logging a), ac_Cache := env_cache env (ac_Cache a),
                          ac_MQ := env_mq env (ac_MQ a)\<rparr>\<rparr>)"

section \<open>Loading\<close>

definition load_file ::
  "(string \<Rightarrow> bool) \<Rightarrow> (string \<Rightarrow> Config \<Rightarrow> goerror + Config) \<Rightarrow> string \<Rightarrow> Config \<Rightarrow> goerror + Config" where
  "load_file stat DecodeFile path c = (if stat path then DecodeFile path c else Inr c)"

definition populate_node :: "string \<times> ModelNode \<Rightarrow> string \<times> ModelNode" where
  "populate_node p =
     (case p of (i, n) \<Rightarrow>
        (i, n\<lparr>n_ID := i, n_EndpointType := if n_EndpointType n = [] then EndpointAll else n_EndpointType n\<rparr>))"

definition populate_key :: "string \<times> APIKey \<Rightarrow> string \<times> APIKey" where
  "populate_key p = (case p of (i, k) \<Rightarrow> (i, k\<lparr>k_ID := i\<rparr>))"

definition populate :: "Config \<Rightarrow> Config" where
  "populate c =
     c\<lparr>cf_App := (cf_App c)\<lparr>ac_Providers := map populate_node (ac_Providers (cf_App c)),
                            ac_APIKeys := map populate_key (ac_APIKeys (cf_App c))\<rparr>\<rparr>"

definition Load ::
  "(string \<Rightarrow> bool) \<Rightarrow> (string \<Rightarrow> Config \<Rightarrow> goerror + Config) \<Rightarrow> (string \<Rightarrow> string) \<Rightarrow> string \<Rightarrow> goerror + Config" where
  "Load stat DecodeFile env dir =
     (case load_file stat DecodeFile (path_Join dir ''config.toml'') defaults of
        Inl e \<Rightarrow> Inl e
      | Inr c1 \<Rightarrow>
          (case load_file stat DecodeFile (path_Join dir ''providers.toml'') c1 of
             Inl e \<Rightarrow> Inl e
           | Inr c2 \<Rightarrow>
               (case load_file stat DecodeFile (path_Join dir ''api_keys.toml'') c2 of
                  Inl e \<Rightarrow> Inl e
                | Inr c3 \<Rightarrow>
                    let c4 = (if cf_DBPath c3 = ''proxyllm.db'' then c3\<lparr>cf_DBPath := path_Join dir ''proxyllm.db''\<rparr> else c3)
                    in Inr (populate (applyEnv env c4)))))"

end
