(* ===== verification/Http.thy ===== *)
theory Http
  imports Domain Go_Text
begin

text \<open>
  What the program uses of \<^verbatim>\<open>net/http\<close>: header maps and the server's response writer, and the
  interface \<^verbatim>\<open>http.ResponseWriter\<close> with its optional \<^verbatim>\<open>http.Flusher\<close>.

  A header map is a list of keys with their values, in one order in which Go may iterate
  over it.  A response writer records what has gone to the client.  The outcome of its
  \<open>n\<close>-th \<^verbatim>\<open>Write\<close> is part of it: \<open>None\<close> if everything is sent, otherwise the number of bytes sent
  and the error (a closed connection, a body longer than the declared length, a status
  that allows no body).  \<^verbatim>\<open>WriteHeader\<close> panics on a code that is not between 100 and 999, which is the
  result \<open>None\<close>.  Of the informational codes 1xx, which the HTTP client of Go consumes itself and which
  no handler sends, only 101 would be final; they are treated as final codes.
\<close>

section \<open>Header maps\<close>

definition is_token_byte :: "char \<Rightarrow> bool" where
  "is_token_byte c \<longleftrightarrow>
     is_digit c \<or> (of_char c :: nat) \<in> {65..90} \<or> (of_char c :: nat) \<in> {97..122} \<or>
     c \<in> set ''!#$%&*+-.^_`|~'' \<or> of_char c = (39 :: nat)"

definition upper :: "char \<Rightarrow> char" where
  "upper c = (if (of_char c :: nat) \<in> {97..122} then char_of (of_char c - 32 :: nat) else c)"

definition lower :: "char \<Rightarrow> char" where
  "lower c = (if (of_char c :: nat) \<in> {65..90} then char_of (of_char c + 32 :: nat) else c)"

fun canon_from :: "bool \<Rightarrow> string \<Rightarrow> string" where
  "canon_from up [] = []"
| "canon_from up (c # cs) =
     (if up then upper c else lower c) # canon_from (c = CHR ''-'') cs"

text \<open>\<^verbatim>\<open>CanonicalHeaderKey\<close>: capitals at the start and after each hyphen, small letters elsewhere; a
  key with a byte that is not allowed in a header name stays as it is.\<close>

definition CanonicalHeaderKey :: "string \<Rightarrow> string" where
  "CanonicalHeaderKey k = (if \<forall>c\<in>set k. is_token_byte c then canon_from True k else k)"

fun hput :: "string \<Rightarrow> string list \<Rightarrow> header \<Rightarrow> header" where
  "hput k vs [] = [(k, vs)]"
| "hput k vs ((k', ws) # h) = (if k = k' then (k, vs) # h else (k', ws) # hput k vs h)"

definition hvalues :: "header \<Rightarrow> string \<Rightarrow> string list" where
  "hvalues h k = (case map_of h k of None \<Rightarrow> [] | Some vs \<Rightarrow> vs)"

definition header_Add :: "header \<Rightarrow> string \<Rightarrow> string \<Rightarrow> header" where
  "header_Add h k v = (let c = CanonicalHeaderKey k in hput c (hvalues h c @ [v]) h)"

definition header_Set :: "header \<Rightarrow> string \<Rightarrow> string \<Rightarrow> header" where
  "header_Set h k v = hput (CanonicalHeaderKey k) [v] h"

definition header_Get :: "header \<Rightarrow> string \<Rightarrow> string" where
  "header_Get h k = (case hvalues h (CanonicalHeaderKey k) of [] \<Rightarrow> [] | v # _ \<Rightarrow> v)"

text \<open>The loop \<^verbatim>\<open>for key, vals := range src { for _, v := range vals { dst.Add(key, v) } }\<close>.\<close>

fun add_values :: "string \<Rightarrow> string list \<Rightarrow> header \<Rightarrow> header" where
  "add_values k [] dst = dst"
| "add_values k (v # vs) dst = add_values k vs (header_Add dst k v)"

fun add_headers :: "header \<Rightarrow> header \<Rightarrow> header" where
  "add_headers [] dst = dst"
| "add_headers ((k, vs) # src) dst = add_headers src (add_values k vs dst)"

text \<open>The loop \<^verbatim>\<open>for k, v := range src { dst[k] = v }\<close>.\<close>

fun put_headers :: "header \<Rightarrow> header \<Rightarrow> header" where
  "put_headers [] dst = dst"
| "put_headers ((k, vs) # src) dst = put_headers src (hput k vs dst)"

lemma map_of_hput [simp]: "map_of (hput k vs h) = (map_of h)(k \<mapsto> vs)"
  by (induction h) (auto simp: fun_eq_iff)

lemma hvalues_hput [simp]: "hvalues (hput k vs h) k' = (if k' = k then vs else hvalues h k')"
  by (simp add: hvalues_def)

lemma hvalues_Nil [simp]: "hvalues [] k = []"
  by (simp add: hvalues_def)

lemma hvalues_Add [simp]:
  "hvalues (header_Add h k v) k' =
     (if k' = CanonicalHeaderKey k then hvalues h k' @ [v] else hvalues h k')"
  by (simp add: header_Add_def Let_def)

lemma hvalues_Set [simp]:
  "hvalues (header_Set h k v) k' = (if k' = CanonicalHeaderKey k then [v] else hvalues h k')"
  by (simp add: header_Set_def)

lemma hvalues_add_values:
  "hvalues (add_values k vs dst) k' =
     (if k' = CanonicalHeaderKey k then hvalues dst k' @ vs else hvalues dst k')"
  by (induction vs arbitrary: dst) auto

text \<open>A header map as the server and the client of \<^verbatim>\<open>net/http\<close> build it: every key once and in
  canonical form.  Copying it value by value then appends to each key.\<close>

definition header_ok :: "header \<Rightarrow> bool" where
  "header_ok h \<longleftrightarrow> distinct (map fst h) \<and> (\<forall>k\<in>fst ` set h. CanonicalHeaderKey k = k)"

lemma map_of_notin: "k \<notin> fst ` set h \<Longrightarrow> hvalues h k = []"
  by (simp add: hvalues_def map_of_eq_None_iff [THEN iffD2])

lemma hvalues_Cons: "hvalues ((k, vs) # h) k' = (if k' = k then vs else hvalues h k')"
  by (simp add: hvalues_def)

lemma hvalues_add_headers:
  "header_ok src \<Longrightarrow> hvalues (add_headers src dst) k = hvalues dst k @ hvalues src k"
proof (induction src arbitrary: dst)
  case (Cons a src)
  obtain k' vs where a: "a = (k', vs)" by fastforce
  have "header_ok src" "CanonicalHeaderKey k' = k'" "k' \<notin> fst ` set src"
    using Cons.prems by (auto simp: header_ok_def a)
  then show ?case
    using Cons.IH by (simp add: a hvalues_add_values hvalues_Cons map_of_notin)
qed simp

lemma hvalues_put_headers:
  "distinct (map fst src) \<Longrightarrow>
   hvalues (put_headers src dst) k = (if k \<in> fst ` set src then hvalues src k else hvalues dst k)"
proof (induction src arbitrary: dst)
  case (Cons a src)
  obtain k' vs where a: "a = (k', vs)" by fastforce
  show ?case using Cons by (auto simp: a hvalues_Cons)
qed simp

section \<open>The response writer\<close>

record ResponseWriter =
  rw_header :: header
  rw_status :: "int option"
  rw_sent :: header
  rw_body :: bytes
  rw_writes :: nat
  rw_flushes :: nat
  rw_fault :: "nat \<Rightarrow> (nat \<times> goerror) option"

definition rw_SetHeader :: "ResponseWriter \<Rightarrow> header \<Rightarrow> ResponseWriter" where
  "rw_SetHeader w h = w\<lparr>rw_header := h\<rparr>"

text \<open>The status takes effect once and fixes the header that is sent.  A later \<^verbatim>\<open>WriteHeader\<close> is only
  reported; the first one checks its code.\<close>

definition rw_begin :: "ResponseWriter \<Rightarrow> int \<Rightarrow> ResponseWriter" where
  "rw_begin w code =
     (if rw_status w \<noteq> None then w else w\<lparr>rw_status := Some code, rw_sent := rw_header w\<rparr>)"

definition bad_code :: "int \<Rightarrow> bool" where
  "bad_code code \<longleftrightarrow> code < 100 \<or> code > 999"

definition rw_WriteHeader :: "ResponseWriter \<Rightarrow> int \<Rightarrow> ResponseWriter option" where
  "rw_WriteHeader w code = (if rw_status w = None \<and> bad_code code then None else Some (rw_begin w code))"

text \<open>\<^verbatim>\<open>Write\<close> and \<^verbatim>\<open>Flush\<close> first write the status 200 if there is none, for which the check passes.\<close>

definition rw_Write :: "ResponseWriter \<Rightarrow> bytes \<Rightarrow> (nat \<times> goerror option) \<times> ResponseWriter" where
  "rw_Write w b =
     (let w1 = rw_begin w 200; w2 = w1\<lparr>rw_writes := Suc (rw_writes w1)\<rparr>
      in case rw_fault w (rw_writes w) of
           None \<Rightarrow> ((length b, None), w2\<lparr>rw_body := rw_body w @ b\<rparr>)
         | Some (n, e) \<Rightarrow> ((min n (length b), Some e), w2\<lparr>rw_body := rw_body w @ take n b\<rparr>))"

definition rw_Flush :: "ResponseWriter \<Rightarrow> ResponseWriter" where
  "rw_Flush w = (let w1 = rw_begin w 200 in w1\<lparr>rw_flushes := Suc (rw_flushes w1)\<rparr>)"

section \<open>The interface\<close>

text \<open>\<^verbatim>\<open>http.ResponseWriter\<close> and \<^verbatim>\<open>http.Flusher\<close> as a record of operations.  \<^verbatim>\<open>Header()\<close> returns the map
  itself, so there is one operation to read and one to update it; \<open>W_Flush\<close> is \<open>None\<close> for a
  writer that is no \<^verbatim>\<open>Flusher\<close>.  \<open>W_WriteHeader\<close> is \<open>None\<close> when it panics.\<close>

record 'w writer_ops =
  W_Header :: "'w \<Rightarrow> header"
  W_SetHeader :: "'w \<Rightarrow> header \<Rightarrow> 'w"
  W_WriteHeader :: "'w \<Rightarrow> int \<Rightarrow> 'w option"
  W_Write :: "'w \<Rightarrow> bytes \<Rightarrow> (nat \<times> goerror option) \<times> 'w"
  W_Flush :: "('w \<Rightarrow> 'w) option"

text \<open>What the handlers rely on: the first status counts, bytes are added at the end, and an
  error-free write delivers all of its bytes; a valid status code is always taken.  \<open>status\<close> and \<open>body\<close> are the response produced so
  far, \<open>good\<close> the states of the writer the laws cover.\<close>

locale http_writer =
  fixes W :: "'w writer_ops" and status :: "'w \<Rightarrow> int option" and body :: "'w \<Rightarrow> bytes"
    and good :: "'w \<Rightarrow> bool"
  assumes set_header: "good w \<Longrightarrow> status w = None \<Longrightarrow>
      good (W_SetHeader W w h) \<and> W_Header W (W_SetHeader W w h) = h \<and>
      status (W_SetHeader W w h) = None \<and> body (W_SetHeader W w h) = body w"
    and write_header: "good w \<Longrightarrow> status w = None \<Longrightarrow> c \<noteq> 0 \<Longrightarrow> W_WriteHeader W w c = Some w' \<Longrightarrow>
      good w' \<and> status w' = Some c \<and> body w' = body w"
    and write_header_ok: "good w \<Longrightarrow> \<not> bad_code c \<Longrightarrow> W_WriteHeader W w c \<noteq> None"
    and write_bytes: "good w \<Longrightarrow> status w = Some c \<Longrightarrow> W_Write W w b = ((n, e), w') \<Longrightarrow>
      good w' \<and> status w' = Some c \<and> body w' = body w @ take n b \<and> (e = None \<longrightarrow> n = length b)"
    and flush_same: "good w \<Longrightarrow> status w = Some c \<Longrightarrow> W_Flush W = Some f \<Longrightarrow>
      good (f w) \<and> status (f w) = Some c \<and> body (f w) = body w"

definition rw_ops :: "ResponseWriter writer_ops" where
  "rw_ops = \<lparr>W_Header = rw_header, W_SetHeader = rw_SetHeader, W_WriteHeader = rw_WriteHeader,
             W_Write = rw_Write, W_Flush = Some rw_Flush\<rparr>"

lemmas rw_defs [http_simps] = rw_SetHeader_def rw_begin_def rw_WriteHeader_def rw_Write_def rw_Flush_def

interpretation rw: http_writer rw_ops rw_status rw_body "\<lambda>_. True"
  by unfold_locales
    (auto simp: rw_ops_def http_simps Let_def min_def split: option.splits if_splits)

end
