(* ===== verification/Auth.thy ===== *)
theory Auth
  imports Http
begin

text \<open>
  \<^verbatim>\<open>internal/auth\<close>: the bearer token of a request, the check of the key it names, the models a
  key may use, and the generators of keys and of request identifiers.

  The lookup of a key by its value is an argument of \<open>Authenticate\<close>: it is the method
  \<^verbatim>\<open>GetAPIKeyByValue\<close> of the store, with \<open>Inl\<close> for an error and \<open>None\<close> for a nil key.  The random
  sources are arguments of the generators: for the \<open>i\<close>-th call \<open>crypto\<close> is the number drawn by
  \<^verbatim>\<open>crypto/rand\<close>, \<open>None\<close> if it fails, and \<open>fallback\<close> the one of \<^verbatim>\<open>math/rand\<close>.
\<close>

section \<open>Model\<close>

definition ExtractToken :: "header \<Rightarrow> string option" where
  "ExtractToken h =
     (let hd = header_Get h ''Authorization''
      in if hd = [] then None
         else if \<not> HasPrefix hd ''Bearer '' then None
         else let token = TrimPrefix hd ''Bearer ''
              in if token = [] then None else Some token)"

datatype auth_error = ErrUnauthorized | ErrExpired

definition Authenticate ::
  "(string \<Rightarrow> goerror + APIKey option) \<Rightarrow> gotime \<Rightarrow> string \<Rightarrow> auth_error + APIKey" where
  "Authenticate GetAPIKeyByValue now token =
     (case GetAPIKeyByValue token of
        Inl _ \<Rightarrow> Inl ErrUnauthorized
      | Inr None \<Rightarrow> Inl ErrUnauthorized
      | Inr (Some key) \<Rightarrow>
          if \<not> k_Enabled key then Inl ErrUnauthorized
          else (case k_ExpiresAt key of
                  None \<Rightarrow> Inr key
                | Some t \<Rightarrow> if now > t then Inl ErrExpired else Inr key))"

fun allowed_loop :: "string list \<Rightarrow> string \<Rightarrow> bool" where
  "allowed_loop [] m = False"
| "allowed_loop (a # as) m = (if a = m then True else allowed_loop as m)"

definition CheckModelAllowed :: "APIKey \<Rightarrow> string \<Rightarrow> bool" where
  "CheckModelAllowed key modelAlias =
     (if length (k_AllowModels key) = 0 then True else allowed_loop (k_AllowModels key) modelAlias)"

definition base62Chars :: string where
  "base62Chars = ''0123456789ABCDEFGHIJKLMNOPQRSTUVWXYZabcdefghijklmnopqrstuvwxyz''"

definition GenerateKey :: "(nat \<Rightarrow> nat option) \<Rightarrow> (nat \<Rightarrow> nat) \<Rightarrow> string" where
  "GenerateKey crypto fallback =
     ''pk-'' @ map (\<lambda>i. case crypto i of None \<Rightarrow> base62Chars ! fallback i | Some n \<Rightarrow> base62Chars ! n) [0..<48]"

definition hex_digits :: string where
  "hex_digits = ''0123456789abcdef''"

fun EncodeToString :: "bytes \<Rightarrow> string" where
  "EncodeToString [] = []"
| "EncodeToString (b # bs) =
     hex_digits ! (of_char b div 16) # hex_digits ! (of_char b mod 16) # EncodeToString bs"

definition GenerateID :: "bytes option \<Rightarrow> bytes \<Rightarrow> string" where
  "GenerateID crypto fallback = EncodeToString (case crypto of None \<Rightarrow> fallback | Some b \<Rightarrow> b)"

section \<open>Tokens and keys\<close>

lemma ExtractToken_Some:
  "ExtractToken h = Some t \<longleftrightarrow> header_Get h ''Authorization'' = ''Bearer '' @ t \<and> t \<noteq> []"
proof (cases "HasPrefix (header_Get h ''Authorization'') ''Bearer ''")
  case True
  then obtain r where r: "header_Get h ''Authorization'' = ''Bearer '' @ r" unfolding HasPrefix_iff by blast
  show ?thesis unfolding ExtractToken_def Let_def r HasPrefix_append TrimPrefix_append by (auto simp: HasPrefix_def)
next
  case False
  then have "header_Get h ''Authorization'' \<noteq> ''Bearer '' @ t" using HasPrefix_append by metis
  then show ?thesis using False by (simp add: ExtractToken_def Let_def)
qed

lemma Authenticate_Inr:
  "Authenticate get now t = Inr key \<longleftrightarrow>
     get t = Inr (Some key) \<and> k_Enabled key \<and> (\<forall>e. k_ExpiresAt key = Some e \<longrightarrow> now \<le> e)"
  by (auto simp: Authenticate_def split: sum.splits option.splits)

lemma Authenticate_expired:
  "Authenticate get now t = Inl ErrExpired \<longleftrightarrow>
     (\<exists>key e. get t = Inr (Some key) \<and> k_Enabled key \<and> k_ExpiresAt key = Some e \<and> e < now)"
  by (auto simp: Authenticate_def split: sum.splits option.splits)

lemma allowed_loop_iff [simp]: "allowed_loop as m \<longleftrightarrow> m \<in> set as"
  by (induction as) auto

lemma CheckModelAllowed_iff:
  "CheckModelAllowed key m \<longleftrightarrow> k_AllowModels key = [] \<or> m \<in> set (k_AllowModels key)"
  by (simp add: CheckModelAllowed_def)

section \<open>Generated keys and identifiers\<close>

lemma base62_nth: "n < 62 \<Longrightarrow> base62Chars ! n \<in> set base62Chars"
  by (rule nth_mem) (simp add: base62Chars_def)

lemma EncodeToString_length [simp]: "length (EncodeToString bs) = 2 * length bs"
  by (induction bs) auto

lemma hex_digits_nth: "n < 16 \<Longrightarrow> hex_digits ! n \<in> set hex_digits"
  by (rule nth_mem) (simp add: hex_digits_def)

lemma nibbles: "(of_char b :: nat) div 16 < 16" "(of_char b :: nat) mod 16 < 16"
  using nat_of_char_less_256 [of b] by (simp_all add: div_less_iff_less_mult del: nat_of_char_less_256)

lemma EncodeToString_hex: "set (EncodeToString bs) \<subseteq> set hex_digits"
proof (induction bs)
  case (Cons b bs)
  then show ?case using hex_digits_nth [OF nibbles(1)] hex_digits_nth [OF nibbles(2)] by simp
qed simp

lemma hex_digits_distinct: "distinct hex_digits"
  by (simp add: hex_digits_def)

lemma EncodeToString_inj: "EncodeToString bs = EncodeToString cs \<Longrightarrow> bs = cs"
proof (induction bs arbitrary: cs)
  case Nil
  then show ?case by (cases cs) auto
next
  case (Cons b bs)
  then obtain c cs' where cs: "cs = c # cs'" by (cases cs) auto
  have l: "(of_char x :: nat) div 16 < length hex_digits" "(of_char x :: nat) mod 16 < length hex_digits" for x
    using nibbles [of x] by (simp_all add: hex_digits_def)
  have "(of_char b :: nat) div 16 = of_char c div 16" "(of_char b :: nat) mod 16 = of_char c mod 16"
    using Cons.prems l [of b] l [of c] nth_eq_iff_index_eq [OF hex_digits_distinct] by (auto simp: cs)
  then have "(of_char b :: nat) = of_char c" by (metis div_mult_mod_eq)
  then show ?case using Cons cs by simp
qed

end
