(* ===== verification/Go_Number.thy ===== *)
theory Go_Number
  imports Go_Text Float64
begin

text \<open>
  Numbers in JSON texts, as \<^verbatim>\<open>encoding/json\<close> and \<^verbatim>\<open>strconv\<close> read and write them.  A number is
  read to the nearest \<^verbatim>\<open>float64\<close>, with gradual underflow and a range error
  (\<open>to_double\<close>), and written with the fewest digits that read back as the same number
  (\<open>shortest\<close>), in the format \<^verbatim>\<open>encoding/json\<close> chooses by the magnitude (\<open>format_float\<close>).  The main
  facts: 17 digits always suffice, and a written number reads back as itself.  A negative
  zero is read as 0; \<^verbatim>\<open>strconv\<close> cuts off exponents beyond 10000, which here are exact.
\<close>

section \<open>Doubles in the whole range\<close>

text \<open>The smallest normal number, the smallest positive one and the first power of two out of
  range.\<close>

definition min_normal :: rat where "min_normal = 2 powi (- 1022)"
definition tiny :: rat where "tiny = 2 powi (- 1074)"
definition huge :: rat where "huge = 2 powi 1024"

definition to_double :: "rat \<Rightarrow> rat option" where
  "to_double x =
     (let y = (if \<bar>x\<bar> < min_normal then of_int (round_even (x / tiny)) * tiny else f64 x)
      in if \<bar>y\<bar> \<ge> huge then None else Some y)"

lemma tiny_pos: "0 < tiny"
  by (simp add: tiny_def)

lemma min_normal_tiny: "min_normal = 2 ^ 52 * tiny"
  by (simp add: min_normal_def tiny_def power_int_minus field_simps)

lemma round_even_near: "\<bar>y - of_int m\<bar> < 1 / 2 \<Longrightarrow> round_even y = m"
proof -
  assume a: "\<bar>y - of_int m\<bar> < 1 / 2"
  then have "\<lfloor>y\<rfloor> = m \<or> \<lfloor>y\<rfloor> = m - 1" by linarith
  then show ?thesis using a by (auto simp: round_even_def Let_def)
qed

lemma round_even_uminus: "round_even (- y) = - round_even y"
proof (cases "y = of_int \<lfloor>y\<rfloor>")
  case True
  then have "round_even y = \<lfloor>y\<rfloor>" "round_even (- y) = - \<lfloor>y\<rfloor>"
    using round_even_of_int [of "\<lfloor>y\<rfloor>"] round_even_of_int [of "- \<lfloor>y\<rfloor>"] by auto
  then show ?thesis by simp
next
  case False
  then have "of_int \<lfloor>y\<rfloor> < y" by linarith
  then have f: "\<lfloor>- y\<rfloor> = - \<lfloor>y\<rfloor> - 1" by linarith
  show ?thesis unfolding round_even_def Let_def f by auto
qed

lemma to_double_uminus: "to_double (- x) = map_option uminus (to_double x)"
proof -
  have "f64 (- x) = - f64 x" by (simp add: f64_def)
  then show ?thesis by (simp add: to_double_def Let_def round_even_uminus)
qed

lemma bin_exp_unique: "2 powi e \<le> x \<Longrightarrow> x < 2 powi (e + 1) \<Longrightarrow> bin_exp x = e"
proof -
  assume a: "2 powi e \<le> x" "x < 2 powi (e + 1)"
  then have x: "0 < x" by (meson less_le_trans zero_less_numeral zero_less_power_int)
  have "(2 powi e :: rat) < 2 powi (bin_exp x + 1)" "(2 powi bin_exp x :: rat) < 2 powi (e + 1)"
    using a bin_exp_bounds [OF x] by auto
  then show ?thesis by (metis add.commute linorder_not_le nle_le powi2_le_iff zle_add1_eq_le)
qed

text \<open>A number close to a double rounds to it.\<close>

lemma f64_near:
  assumes x: "0 < x" "f64 x = x" and d: "\<bar>d - x\<bar> < x * 2 powi (- 54)"
  shows "f64 d = x"
proof -
  define e where "e = bin_exp x"
  define u :: rat where "u = 2 powi (e - 52)"
  have u: "0 < u" "2 powi e = 2 ^ 52 * u" "2 powi (e + 1) = 2 ^ 53 * u" "2 powi (e - 1 - 52) = u / 2"
      "2 powi (e - 1) = 2 ^ 51 * u"
    by (simp_all add: u_def power_int_diff power_int_add)
  have xb: "2 ^ 52 * u \<le> x" "x < 2 ^ 53 * u"
    using bin_exp_bounds [OF x(1)] u by (simp_all add: e_def)
  have "x = of_int (round_even (x / u)) * u"
    using x by (simp add: f64_def f64_pos_def Let_def u_def e_def)
  then obtain m where m: "x = of_int m * u" by blast
  have m53: "2 ^ 52 \<le> m" "m < 2 ^ 53"
  proof -
    have "(of_int (2 ^ 52) :: rat) \<le> of_int m" "(of_int m :: rat) < of_int (2 ^ 53)"
      using xb u(1) unfolding m by simp_all
    then show "2 ^ 52 \<le> m" "m < 2 ^ 53" by (simp_all only: of_int_le_iff of_int_less_iff)
  qed
  have "x * 2 powi (- 54) < u / 2" using xb(2) by (simp add: power_int_minus field_simps)
  then have du: "\<bar>d - x\<bar> < u / 2" using d by linarith
  have "u \<le> 2 ^ 52 * u" using u(1) by simp
  then have d0: "0 < d" using du xb(1) u(1) by linarith
  show ?thesis
  proof (cases "2 ^ 52 * u \<le> d")
    case True
    have "of_int m \<le> (of_int (2 ^ 53 - 1) :: rat)" using m53(2) by (simp only: of_int_le_iff)
    then have "x \<le> (2 ^ 53 - 1) * u" unfolding m using u(1) by (intro mult_right_mono) simp_all
    then have "x + u \<le> 2 ^ 53 * u" by (simp add: algebra_simps)
    then have "d < 2 ^ 53 * u" using du u(1) by linarith
    then have "bin_exp d = e" using True bin_exp_unique [of e d] u by simp
    moreover have "round_even (d / u) = m"
      using du u(1) by (intro round_even_near) (simp add: m field_simps abs_less_iff)
    ultimately show ?thesis using d0 by (simp add: f64_def f64_pos_def Let_def m flip: u_def)
  next
    case False
    have "m = 2 ^ 52"
    proof (rule ccontr)
      assume "m \<noteq> 2 ^ 52"
      then have "(of_int (2 ^ 52 + 1) :: rat) \<le> of_int m" using m53(1) by (simp only: of_int_le_iff)
      then have "(2 ^ 52 + 1) * u \<le> x" unfolding m using u(1) by (intro mult_right_mono) simp_all
      then show False using False du u(1) by (simp add: algebra_simps)
    qed
    then have xe: "x = 2 ^ 52 * u" by (simp add: m)
    have du4: "\<bar>d - x\<bar> < u / 4" using d by (simp add: xe power_int_minus field_simps)
    have "2 ^ 51 * u + u \<le> x" unfolding xe using u(1) by simp
    then have "2 ^ 51 * u \<le> d" using du4 u(1) by linarith
    then have "bin_exp d = e - 1" using False bin_exp_unique [of "e - 1" d] u by simp
    then have "f64 d = of_int (round_even (d / 2 powi (e - 1 - 52))) * 2 powi (e - 1 - 52)"
      using d0 by (simp add: f64_def f64_pos_def Let_def)
    moreover have "round_even (d / (u / 2)) = 2 ^ 53"
    proof (rule round_even_near)
      have "d / (u / 2) - of_int (2 ^ 53) = (d - x) * (2 / u)" using u(1) by (simp add: xe field_simps)
      then have "\<bar>d / (u / 2) - of_int (2 ^ 53)\<bar> = \<bar>d - x\<bar> * (2 / u)" using u(1) by (simp only: abs_mult) simp
      also have "\<dots> < u / 4 * (2 / u)" using du4 u(1) by (intro mult_strict_right_mono) simp_all
      finally show "\<bar>d / (u / 2) - of_int (2 ^ 53)\<bar> < 1 / 2" using u(1) by simp
    qed
    ultimately show ?thesis unfolding u(4) xe by simp
  qed
qed

lemma to_double_cases:
  assumes "to_double x = Some x" "0 < x"
  shows "x < huge" "x < min_normal \<Longrightarrow> x = of_int (round_even (x / tiny)) * tiny" "\<not> x < min_normal \<Longrightarrow> f64 x = x"
  using assms by (auto simp: to_double_def Let_def split: if_splits)

lemma double_multiple:
  assumes "to_double x = Some x" "0 < x" "x < 2 * min_normal"
  obtains m where "x = of_int m * tiny"
proof (cases "x < min_normal")
  case True
  then show ?thesis using to_double_cases(2) [OF assms(1,2)] that by blast
next
  case False
  have "bin_exp x = - 1022"
    using False assms(3) by (intro bin_exp_unique) (simp_all add: min_normal_def power_int_add)
  then have "f64 x = of_int (round_even (x / tiny)) * tiny"
    using assms(2) by (simp add: f64_def f64_pos_def Let_def tiny_def)
  then show ?thesis using to_double_cases(3) [OF assms(1,2) False] that by metis
qed

lemma to_double_near:
  assumes x: "0 < x" "to_double x = Some x" and d: "\<bar>d - x\<bar> < x * 2 powi (- 54)"
  shows "to_double d = Some x"
proof -
  have "x * 2 powi (- 54) \<le> x / 2" using x(1) by (simp add: power_int_minus)
  then have d0: "x / 2 < d" using d by linarith
  note c = to_double_cases [OF x(2,1)]
  show ?thesis
  proof (cases "d < min_normal")
    case True
    then have "x < 2 * min_normal" using d0 by linarith
    then obtain m where m: "x = of_int m * tiny" using double_multiple [OF x(2,1)] by blast
    have "x * 2 powi (- 54) < tiny / 2"
      using \<open>x < 2 * min_normal\<close> by (simp add: min_normal_tiny power_int_minus)
    then have "\<bar>d - x\<bar> < tiny / 2" using d by linarith
    then have "round_even (d / tiny) = m"
      using tiny_pos by (intro round_even_near) (simp add: m field_simps abs_less_iff)
    then show ?thesis using True c(1) x(1) d0 by (simp add: to_double_def Let_def m [symmetric])
  next
    case False
    show ?thesis
    proof (cases "x < min_normal")
      case True
      then obtain m where m: "x = of_int m * tiny" using c(2) by blast
      have "(of_int m :: rat) < of_int (2 ^ 52)" using True tiny_pos by (simp add: m min_normal_tiny)
      then have "m \<le> 2 ^ 52 - 1" by (simp only: of_int_less_iff)
      then have "(of_int m :: rat) \<le> of_int (2 ^ 52 - 1)" by (simp only: of_int_le_iff)
      then have "x \<le> (2 ^ 52 - 1) * tiny" unfolding m using tiny_pos by (intro mult_right_mono) simp_all
      moreover have "x * 2 powi (- 54) < tiny / 2"
        using True tiny_pos by (simp add: min_normal_tiny power_int_minus)
      ultimately have False using \<open>\<not> d < min_normal\<close> d tiny_pos by (simp add: min_normal_tiny algebra_simps)
      then show ?thesis ..
    next
      case normal: False
      then have "f64 d = x" using f64_near [OF x(1) _ d] c(3) by blast
      then show ?thesis using False d0 x(1) c(1) by (simp add: to_double_def Let_def)
    qed
  qed
qed

section \<open>Decimal exponents\<close>

definition dec_exp :: "rat \<Rightarrow> int" where
  "dec_exp x =
     (let (p, q) = quotient_of x;
          k = int (length (format_nat (nat p))) - int (length (format_nat (nat q)))
      in if 10 powi k \<le> x then k else k - 1)"

lemma format_nat_powi:
  "0 < p \<Longrightarrow> 10 powi (int (length (format_nat (nat p))) - 1) \<le> (of_int p :: rat) \<and>
     (of_int p :: rat) < 10 powi (int (length (format_nat (nat p))))"
proof -
  assume p: "0 < p"
  define l where "l = length (format_nat (nat p))"
  have l: "0 < l" using format_nat_nonempty [of "nat p"] by (simp add: l_def)
  have "10 ^ (l - 1) \<le> nat p" "nat p < 10 ^ l" using format_nat_length [of "nat p"] p by (auto simp: l_def)
  then have "int (10 ^ (l - 1)) \<le> p" "p < int (10 ^ l)" using p by linarith+
  then have "(of_int (int (10 ^ (l - 1))) :: rat) \<le> of_int p" "(of_int p :: rat) < of_int (int (10 ^ l))"
    by (simp_all only: of_int_le_iff of_int_less_iff)
  then show ?thesis using l by (simp add: power_int_def flip: l_def) (simp add: nat_diff_distrib flip: of_nat_Suc)
qed

lemma dec_exp_bounds:
  assumes x: "0 < x" shows "10 powi (dec_exp x) \<le> x"
proof -
  obtain p q where pq: "quotient_of x = (p, q)" by fastforce
  have q: "0 < q" using quotient_of_denom_pos [OF pq] .
  have xe: "x = of_int p / of_int q" using quotient_of_div [OF pq] .
  have p: "0 < p" using x xe q by (simp add: zero_less_divide_iff)
  define a where "a = int (length (format_nat (nat p)))"
  define b where "b = int (length (format_nat (nat q)))"
  have bp: "10 powi (a - 1) \<le> (of_int p :: rat)" and bq: "(of_int q :: rat) < 10 powi b"
    using format_nat_powi p q by (auto simp: a_def b_def)
  have "10 powi (a - b - 1) = (10 powi (a - 1) / 10 powi b :: rat)"
    by (simp add: power_int_diff power_int_add field_simps)
  also have "\<dots> \<le> x" unfolding xe using bp bq p q by (intro frac_le) auto
  finally have lo: "10 powi (a - b - 1) \<le> x" .
  then show ?thesis by (simp add: dec_exp_def pq a_def b_def Let_def)
qed

section \<open>The shortest decimal\<close>

text \<open>The candidates with \<open>n\<close> digits are the two neighbours of the number on the grid of \<open>n\<close> digits;
  the closer one is preferred.  A decimal is a pair of digits, as a number, and exponent.\<close>

definition reads_back :: "rat \<Rightarrow> int \<Rightarrow> int \<Rightarrow> (nat \<times> int) option" where
  "reads_back x d e = (if to_double (of_int d * 10 powi e) = Some x then Some (nat d, e) else None)"

definition decimal_near :: "rat \<Rightarrow> int \<Rightarrow> nat \<Rightarrow> (nat \<times> int) option" where
  "decimal_near x k n =
     (let e = k - int n + 1; y = x / 10 powi e; f = \<lfloor>y\<rfloor>;
          lo = reads_back x f e; hi = reads_back x (f + 1) e
      in if y - of_int f \<le> 1 / 2 then (if lo \<noteq> None then lo else hi)
         else (if hi \<noteq> None then hi else lo))"

fun first_some :: "('a \<Rightarrow> 'b option) \<Rightarrow> 'a list \<Rightarrow> 'b option" where
  "first_some f [] = None"
| "first_some f (x # xs) = (case f x of Some y \<Rightarrow> Some y | None \<Rightarrow> first_some f xs)"

function strip_zeros :: "nat \<Rightarrow> int \<Rightarrow> nat \<times> int" where
  "strip_zeros d e = (if 0 < d \<and> d mod 10 = 0 then strip_zeros (d div 10) (e + 1) else (d, e))"
  by pat_completeness auto
termination
  by (relation "measure fst") auto

declare strip_zeros.simps [simp del]

definition shortest :: "rat \<Rightarrow> nat \<times> int" where
  "shortest x =
     (case first_some (decimal_near x (dec_exp x)) [1..<18] of
        Some (d, e) \<Rightarrow> strip_zeros d e
      | None \<Rightarrow> (0, 0))"

lemma first_some_Some: "first_some f xs = Some y \<Longrightarrow> \<exists>x\<in>set xs. f x = Some y"
  by (induction xs) (auto split: option.splits)

lemma first_some_found: "x \<in> set xs \<Longrightarrow> f x \<noteq> None \<Longrightarrow> first_some f xs \<noteq> None"
  by (induction xs) (auto split: option.splits)

lemma strip_zeros_value:
  "strip_zeros d e = (d', e') \<Longrightarrow> of_nat d' * 10 powi e' = (of_nat d * 10 powi e :: rat) \<and> (0 < d \<longrightarrow> 0 < d')"
proof (induction d e rule: strip_zeros.induct)
  case (1 d e)
  show ?case
  proof (cases "0 < d \<and> d mod 10 = 0")
    case True
    then obtain c where c: "d = 10 * c" by (metis mod_0_imp_dvd dvdE)
    have "strip_zeros c (e + 1) = (d', e')" using 1(2) True by (subst (asm) strip_zeros.simps) (simp add: c)
    then have "of_nat d' * 10 powi e' = (of_nat c * 10 powi (e + 1) :: rat)" "0 < c \<longrightarrow> 0 < d'"
      using 1(1) [OF True] by (simp_all add: c)
    then show ?thesis using True by (simp add: c power_int_add)
  next
    case False
    then show ?thesis using 1(2) by (subst (asm) strip_zeros.simps) auto
  qed
qed

lemma decimal_near_value:
  "decimal_near x k n = Some (d, e) \<Longrightarrow> 0 < x \<Longrightarrow> to_double (of_nat d * 10 powi e) = Some x"
proof -
  assume a: "decimal_near x k n = Some (d, e)" "0 < x"
  have "0 \<le> \<lfloor>x / 10 powi (k - int n + 1)\<rfloor>" using a(2) by simp
  then show ?thesis
    using a(1) by (auto simp: decimal_near_def reads_back_def Let_def split: if_splits)
qed

text \<open>Seventeen digits are enough.\<close>

lemma decimal_near_17:
  assumes x: "0 < x" "to_double x = Some x" shows "decimal_near x (dec_exp x) 17 \<noteq> None"
proof -
  define e where "e = dec_exp x - 16"
  define s :: rat where "s = 10 powi e"
  define y where "y = x / s"
  have s: "0 < s" by (simp add: s_def)
  have "s * 10 ^ 16 = 10 powi (dec_exp x)" by (simp add: s_def e_def power_int_diff)
  then have sx: "s * 10 ^ 16 \<le> x" using dec_exp_bounds [OF x(1)] by simp
  have ok: "to_double (of_int c * s) = Some x" if "\<bar>of_int c - y\<bar> \<le> 1 / 2" for c
  proof (rule to_double_near [OF x])
    have "of_int c * s - x = (of_int c - y) * s" using s by (simp add: y_def field_simps)
    then have "\<bar>of_int c * s - x\<bar> = \<bar>of_int c - y\<bar> * s" using s by (simp add: abs_mult)
    also have "\<dots> \<le> 1 / 2 * s" using that s by (intro mult_right_mono) simp_all
    also have "\<dots> < x * 2 powi (- 54)" using sx s by (simp add: power_int_minus)
    finally show "\<bar>of_int c * s - x\<bar> < x * 2 powi (- 54)" .
  qed
  show ?thesis
  proof (cases "y - of_int \<lfloor>y\<rfloor> \<le> 1 / 2")
    case True
    then have "to_double (of_int \<lfloor>y\<rfloor> * s) = Some x" by (intro ok) linarith
    then show ?thesis using True
      by (simp add: decimal_near_def Let_def reads_back_def e_def [symmetric] s_def [symmetric] y_def [symmetric])
  next
    case False
    then have "to_double (of_int (\<lfloor>y\<rfloor> + 1) * s) = Some x" by (intro ok) linarith
    then show ?thesis using False
      by (simp add: decimal_near_def Let_def reads_back_def e_def [symmetric] s_def [symmetric] y_def [symmetric])
  qed
qed

lemma shortest_reads_back:
  assumes x: "0 < x" "to_double x = Some x" and sh: "shortest x = (d, e)"
  shows "to_double (of_nat d * 10 powi e) = Some x \<and> 0 < d"
proof -
  obtain d0 e0 where f: "first_some (decimal_near x (dec_exp x)) [1..<18] = Some (d0, e0)"
    using first_some_found [of 17 "[1..<18]" "decimal_near x (dec_exp x)"] decimal_near_17 [OF x] by auto
  then have v: "to_double (of_nat d0 * 10 powi e0) = Some x"
    using first_some_Some decimal_near_value x(1) by metis
  have "0 < d0"
  proof (rule ccontr)
    assume "\<not> 0 < d0"
    moreover have "to_double 0 = Some 0" by (simp add: to_double_def Let_def min_normal_def huge_def round_even_def)
    ultimately show False using v x(1) by simp
  qed
  then show ?thesis using sh f v strip_zeros_value [of d0 e0 d e] by (simp add: shortest_def)
qed

section \<open>Writing\<close>

definition format_f :: "nat \<Rightarrow> int \<Rightarrow> string" where
  "format_f d e =
     (let ds = format_nat d; dp = int (length ds) + e
      in if dp \<le> 0 then ''0.'' @ replicate (nat (- dp)) (CHR ''0'') @ ds
         else if dp \<ge> int (length ds) then ds @ replicate (nat e) (CHR ''0'')
         else take (nat dp) ds @ ''.'' @ drop (nat dp) ds)"

definition format_e :: "nat \<Rightarrow> int \<Rightarrow> string" where
  "format_e d e =
     (let ds = format_nat d; ex = int (length ds) + e - 1
      in take 1 ds @ (if length ds > 1 then ''.'' @ drop 1 ds else []) @ ''e'' @
         (if ex < 0 then ''-'' else ''+'') @ format_nat (nat \<bar>ex\<bar>))"

text \<open>\<^verbatim>\<open>floatEncoder\<close> of \<^verbatim>\<open>encoding/json\<close>: the exponent form is used below 1e-6 and from 1e21 on.\<close>

definition format_float :: "rat \<Rightarrow> string" where
  "format_float x =
     (if x = 0 then ''0''
      else (if x < 0 then ''-'' else []) @
        (case shortest \<bar>x\<bar> of (d, e) \<Rightarrow>
           if \<bar>x\<bar> < 10 powi (- 6) \<or> \<bar>x\<bar> \<ge> 10 ^ 21 then format_e d e else format_f d e))"

section \<open>Reading\<close>

text \<open>A number literal of the JSON grammar, by its parts.\<close>

record numlit =
  nl_neg :: bool
  nl_int :: string
  nl_frac :: "string option"
  nl_exp :: "(bool \<times> string) option"

definition parse_int_part :: "string \<Rightarrow> (string \<times> string) option" where
  "parse_int_part s =
     (case s of
        [] \<Rightarrow> None
      | c # cs \<Rightarrow>
          if c = CHR ''0'' then Some (''0'', cs)
          else if is_digit c then Some (takeWhile is_digit s, dropWhile is_digit s) else None)"

definition parse_frac_part :: "string \<Rightarrow> (string option \<times> string) option" where
  "parse_frac_part s =
     (case s of
        [] \<Rightarrow> Some (None, [])
      | c # cs \<Rightarrow>
          if c = CHR ''.''
          then (if takeWhile is_digit cs = [] then None
                else Some (Some (takeWhile is_digit cs), dropWhile is_digit cs))
          else Some (None, s))"

definition parse_exp_part :: "string \<Rightarrow> ((bool \<times> string) option \<times> string) option" where
  "parse_exp_part s =
     (case s of
        [] \<Rightarrow> Some (None, [])
      | c # cs \<Rightarrow>
          if c = CHR ''e'' \<or> c = CHR ''E''
          then (let neg = (case cs of [] \<Rightarrow> False | g # _ \<Rightarrow> g = CHR ''-'');
                    ds = (case cs of [] \<Rightarrow> [] | g # r \<Rightarrow> if g = CHR ''-'' \<or> g = CHR ''+'' then r else cs)
                in if takeWhile is_digit ds = [] then None
                   else Some (Some (neg, takeWhile is_digit ds), dropWhile is_digit ds))
          else Some (None, s))"

definition parse_number :: "string \<Rightarrow> (numlit \<times> string) option" where
  "parse_number s =
     (let neg = (case s of [] \<Rightarrow> False | c # _ \<Rightarrow> c = CHR ''-'');
          s1 = (if neg then tl s else s)
      in case parse_int_part s1 of
           None \<Rightarrow> None
         | Some (i, s2) \<Rightarrow>
             (case parse_frac_part s2 of
                None \<Rightarrow> None
              | Some (f, s3) \<Rightarrow>
                  (case parse_exp_part s3 of
                     None \<Rightarrow> None
                   | Some (x, s4) \<Rightarrow> Some (\<lparr>nl_neg = neg, nl_int = i, nl_frac = f, nl_exp = x\<rparr>, s4))))"

definition lit_frac :: "numlit \<Rightarrow> string" where
  "lit_frac l = (case nl_frac l of None \<Rightarrow> [] | Some f \<Rightarrow> f)"

definition lit_exp :: "numlit \<Rightarrow> int" where
  "lit_exp l =
     (case nl_exp l of None \<Rightarrow> 0
      | Some (neg, ds) \<Rightarrow> (if neg then - int (digits_value 0 ds) else int (digits_value 0 ds)))"

definition lit_value :: "numlit \<Rightarrow> rat" where
  "lit_value l =
     (if nl_neg l then - 1 else 1) * of_nat (digits_value 0 (nl_int l @ lit_frac l)) *
       10 powi (lit_exp l - int (length (lit_frac l)))"

text \<open>What may follow a number: not a character that would continue it.\<close>

definition num_end :: "string \<Rightarrow> bool" where
  "num_end s = (case s of [] \<Rightarrow> True | c # _ \<Rightarrow> \<not> is_digit c \<and> c \<notin> {CHR ''.'', CHR ''e'', CHR ''E''})"

section \<open>Reading back\<close>

lemma digit_chars: "is_digit (CHR ''0'')" "\<not> is_digit (CHR ''.'')" "\<not> is_digit (CHR ''e'')" "\<not> is_digit (CHR ''E'')"
    "\<not> is_digit (CHR ''-'')" "\<not> is_digit (CHR ''+'')"
  by (simp_all add: is_digit_def)

lemma span_digits:
  assumes "\<forall>c\<in>set ds. is_digit c" "rest = [] \<or> \<not> is_digit (hd rest)"
  shows "takeWhile is_digit (ds @ rest) = ds" "dropWhile is_digit (ds @ rest) = rest"
  using assms by (cases rest; simp add: takeWhile_append dropWhile_append takeWhile_eq_all_conv dropWhile_eq_self_iff)+

lemma parse_int_digits:
  assumes "\<forall>c\<in>set ds. is_digit c" "ds \<noteq> []" "hd ds \<noteq> CHR ''0''" "rest = [] \<or> \<not> is_digit (hd rest)"
  shows "parse_int_part (ds @ rest) = Some (ds, rest)"
proof -
  obtain c cs where c: "ds = c # cs" "is_digit c" "c \<noteq> CHR ''0''" using assms(1-3) by (cases ds) auto
  then show ?thesis using span_digits [OF assms(1,4)] by (simp add: parse_int_part_def)
qed

lemma parse_frac_digits:
  assumes "\<forall>c\<in>set ds. is_digit c" "ds \<noteq> []" "rest = [] \<or> \<not> is_digit (hd rest)"
  shows "parse_frac_part (CHR ''.'' # ds @ rest) = Some (Some ds, rest)"
  using span_digits [OF assms(1,3)] assms(2) by (simp add: parse_frac_part_def)

lemma parse_exp_digits:
  assumes "\<forall>c\<in>set ds. is_digit c" "ds \<noteq> []" "rest = [] \<or> \<not> is_digit (hd rest)"
  shows "parse_exp_part (CHR ''e'' # (if neg then CHR ''-'' else CHR ''+'') # ds @ rest) = Some (Some (neg, ds), rest)"
  using span_digits [OF assms(1,3)] assms(2) by (simp add: parse_exp_part_def Let_def)

lemma num_end_hd: "num_end rest \<Longrightarrow> rest = [] \<or> \<not> is_digit (hd rest)"
  by (cases rest) (simp_all add: num_end_def)

lemma parse_no_frac: "num_end rest \<Longrightarrow> parse_frac_part rest = Some (None, rest)"
  by (cases rest) (simp_all add: num_end_def parse_frac_part_def)

lemma parse_no_exp: "num_end rest \<Longrightarrow> parse_exp_part rest = Some (None, rest)"
  by (cases rest) (simp_all add: num_end_def parse_exp_part_def)

lemma parse_number_unsigned:
  assumes "s \<noteq> []" "hd s \<noteq> CHR ''-''" "parse_int_part s = Some (i, s2)" "parse_frac_part s2 = Some (f, s3)"
    and "parse_exp_part s3 = Some (x, s4)"
  shows "parse_number s = Some (\<lparr>nl_neg = False, nl_int = i, nl_frac = f, nl_exp = x\<rparr>, s4)"
  using assms by (cases s) (simp_all add: parse_number_def)

lemma parse_number_neg:
  assumes "parse_number s = Some (l, r)" "\<not> nl_neg l"
  shows "parse_number (CHR ''-'' # s) = Some (l\<lparr>nl_neg := True\<rparr>, r)"
  using assms by (auto simp: parse_number_def Let_def split: option.splits prod.splits if_splits list.splits)

lemma lit_value_neg: "\<not> nl_neg l \<Longrightarrow> lit_value (l\<lparr>nl_neg := True\<rparr>) = - lit_value l"
  by (simp add: lit_value_def lit_frac_def lit_exp_def split: option.splits)

lemma hd_digits: "\<forall>c\<in>set ds. is_digit c \<Longrightarrow> ds \<noteq> [] \<Longrightarrow> hd (ds @ r) \<noteq> CHR ''-''"
  by (cases ds) (auto simp: is_digit_def)

lemma parse_format_f:
  assumes d: "0 < d" and r: "num_end rest"
  shows "\<exists>l. parse_number (format_f d e @ rest) = Some (l, rest) \<and> \<not> nl_neg l \<and> lit_value l = of_nat d * 10 powi e"
proof -
  define ds where "ds = format_nat d"
  define dp where "dp = int (length ds) + e"
  have ds: "\<forall>c\<in>set ds. is_digit c" "ds \<noteq> []" "hd ds \<noteq> CHR ''0''" "digits_value 0 ds = d"
    using format_nat_all_digits format_nat_nonempty format_nat_hd [OF d] digits_value_format by (simp_all add: ds_def)
  consider "dp \<le> 0" | "0 < dp" "dp \<ge> int (length ds)" | "0 < dp" "dp < int (length ds)" by linarith
  then show ?thesis
  proof cases
    case 1
    let ?z = "replicate (nat (- dp)) (CHR ''0'') @ ds"
    have z: "\<forall>c\<in>set ?z. is_digit c" "?z \<noteq> []" using ds digit_chars by auto
    have "parse_number (''0.'' @ ?z @ rest) = Some (\<lparr>nl_neg = False, nl_int = ''0'', nl_frac = Some ?z, nl_exp = None\<rparr>, rest)"
      using parse_frac_digits [OF z num_end_hd [OF r]] parse_no_exp [OF r]
      by (intro parse_number_unsigned) (simp_all add: parse_int_part_def)
    moreover have "digits_value 0 (''0'' @ ?z) = d"
      using digits_value_zeros [of 0 "nat (- dp)"] ds(4) by (simp add: digit_val_def)
    moreover have "- int (nat (- dp) + length ds) = e" using 1 by (simp add: dp_def)
    ultimately show ?thesis using 1
      by (simp add: format_f_def Let_def ds_def [symmetric] dp_def [symmetric] lit_value_def lit_frac_def lit_exp_def)
  next
    case 2
    let ?z = "ds @ replicate (nat e) (CHR ''0'')"
    have z: "\<forall>c\<in>set ?z. is_digit c" "?z \<noteq> []" "hd ?z \<noteq> CHR ''0''" using ds digit_chars by auto
    have "parse_number (?z @ rest) = Some (\<lparr>nl_neg = False, nl_int = ?z, nl_frac = None, nl_exp = None\<rparr>, rest)"
      using parse_int_digits [OF z num_end_hd [OF r]] parse_no_exp [OF r] parse_no_frac [OF r] hd_digits [OF z(1,2)] ds(2)
      by (intro parse_number_unsigned) simp_all
    moreover have "digits_value 0 ?z = d * 10 ^ nat e" using digits_value_zeros ds(4) by simp
    moreover have "0 \<le> e" using 2 by (simp add: dp_def)
    ultimately show ?thesis using 2
      by (simp add: format_f_def Let_def ds_def [symmetric] dp_def [symmetric] lit_value_def lit_frac_def lit_exp_def power_int_def)
  next
    case 3
    let ?a = "take (nat dp) ds" and ?b = "drop (nat dp) ds"
    have n: "0 < nat dp" "nat dp < length ds" using 3 by auto
    have z: "\<forall>c\<in>set ?a. is_digit c" "\<forall>c\<in>set ?b. is_digit c" "?a \<noteq> []" "?b \<noteq> []" "hd ?a \<noteq> CHR ''0''"
      using ds n by (auto dest: in_set_takeD in_set_dropD)
    have "parse_int_part (?a @ CHR ''.'' # ?b @ rest) = Some (?a, CHR ''.'' # ?b @ rest)"
      using digit_chars by (intro parse_int_digits z) auto
    then have "parse_number (?a @ ''.'' @ ?b @ rest) = Some (\<lparr>nl_neg = False, nl_int = ?a, nl_frac = Some ?b, nl_exp = None\<rparr>, rest)"
      using parse_frac_digits [OF z(2,4) num_end_hd [OF r]] parse_no_exp [OF r] hd_digits [OF z(1,3)] z(3)
      by (intro parse_number_unsigned) simp_all
    moreover have "- int (length ds - nat dp) = e" using 3 by (simp add: dp_def)
    ultimately show ?thesis using 3 ds(4)
      by (simp add: format_f_def Let_def ds_def [symmetric] dp_def [symmetric] lit_value_def lit_frac_def lit_exp_def
          del: foldl_append)
  qed
qed

lemma parse_format_e:
  assumes d: "0 < d" and r: "num_end rest"
  shows "\<exists>l. parse_number (format_e d e @ rest) = Some (l, rest) \<and> \<not> nl_neg l \<and> lit_value l = of_nat d * 10 powi e"
proof -
  define ds where "ds = format_nat d"
  define ex where "ex = int (length ds) + e - 1"
  define xs where "xs = format_nat (nat \<bar>ex\<bar>)"
  have ds: "\<forall>c\<in>set ds. is_digit c" "ds \<noteq> []" "hd ds \<noteq> CHR ''0''" "digits_value 0 ds = d"
    using format_nat_all_digits format_nat_nonempty format_nat_hd [OF d] digits_value_format by (simp_all add: ds_def)
  have xs: "\<forall>c\<in>set xs. is_digit c" "xs \<noteq> []" "digits_value 0 xs = nat \<bar>ex\<bar>"
    using format_nat_all_digits format_nat_nonempty digits_value_format by (simp_all add: xs_def)
  obtain c cs where c: "ds = c # cs" "is_digit c" "c \<noteq> CHR ''0''" using ds by (cases ds) auto
  define tl_part where "tl_part = CHR ''e'' # (if ex < 0 then CHR ''-'' else CHR ''+'') # xs @ rest"
  have xp: "parse_exp_part tl_part = Some (Some (ex < 0, xs), rest)"
    unfolding tl_part_def by (rule parse_exp_digits [OF xs(1,2) num_end_hd [OF r]])
  have "parse_int_part ([c] @ q) = Some ([c], q)" if "q = [] \<or> \<not> is_digit (hd q)" for q
    using that c by (intro parse_int_digits) auto
  then have ip: "parse_int_part (c # q) = Some ([c], q)" if "q = [] \<or> \<not> is_digit (hd q)" for q
    using that by simp
  have cm: "c \<noteq> CHR ''-''" using c(2) by (auto simp: is_digit_def)
  have tle: "\<not> is_digit (hd tl_part)" "parse_frac_part tl_part = Some (None, tl_part)"
    by (simp_all add: tl_part_def digit_chars parse_frac_part_def)
  have exv: "(if ex < 0 then - int (nat \<bar>ex\<bar>) else int (nat \<bar>ex\<bar>)) = ex" by simp
  show ?thesis
  proof (cases "cs = []")
    case True
    let ?l = "\<lparr>nl_neg = False, nl_int = [c], nl_frac = None, nl_exp = Some (ex < 0, xs)\<rparr>"
    have p: "parse_number (c # tl_part) = Some (?l, rest)"
      using ip tle xp cm by (intro parse_number_unsigned) simp_all
    have t: "format_e d e @ rest = c # tl_part"
      unfolding format_e_def Let_def ds_def [symmetric] ex_def [symmetric] xs_def [symmetric]
      using True by (simp add: c tl_part_def)
    have "ex = e" using True by (simp add: ex_def c)
    then have "lit_value ?l = of_nat d * 10 powi e"
      using ds(4) exv True by (simp add: lit_value_def lit_frac_def lit_exp_def xs(3) c)
    with p t show ?thesis by auto
  next
    case False
    let ?l = "\<lparr>nl_neg = False, nl_int = [c], nl_frac = Some cs, nl_exp = Some (ex < 0, xs)\<rparr>"
    have z: "\<forall>c\<in>set cs. is_digit c" using ds(1) c(1) by simp
    have "parse_frac_part (CHR ''.'' # cs @ tl_part) = Some (Some cs, tl_part)"
      using tle by (intro parse_frac_digits z False) simp
    then have p: "parse_number (c # CHR ''.'' # cs @ tl_part) = Some (?l, rest)"
      using ip xp cm digit_chars by (intro parse_number_unsigned) simp_all
    have t: "format_e d e @ rest = c # CHR ''.'' # cs @ tl_part"
      unfolding format_e_def Let_def ds_def [symmetric] ex_def [symmetric] xs_def [symmetric]
      using False by (simp add: c tl_part_def)
    have "lit_exp ?l - int (length cs) = e" using exv by (simp add: lit_exp_def xs(3) ex_def c)
    then have "lit_value ?l = of_nat d * 10 powi e"
      using ds(4) by (simp add: lit_value_def lit_frac_def c)
    with p t show ?thesis by auto
  qed
qed

text \<open>A written number is read back as itself.\<close>

lemma parse_format_float:
  assumes x: "to_double x = Some x" and r: "num_end rest"
  shows "\<exists>l. parse_number (format_float x @ rest) = Some (l, rest) \<and> to_double (lit_value l) = Some x"
proof -
  have pos: "\<exists>l. parse_number (format_float y @ rest) = Some (l, rest) \<and> \<not> nl_neg l \<and> to_double (lit_value l) = Some y"
    if y: "0 < y" "to_double y = Some y" for y
  proof -
    obtain d e where sh: "shortest y = (d, e)" by (metis surj_pair)
    have b: "to_double (of_nat d * 10 powi e) = Some y" "0 < d" using shortest_reads_back [OF y sh] by auto
    show ?thesis
      using parse_format_e [OF b(2) r, of e] parse_format_f [OF b(2) r, of e] b(1) y(1) sh
      by (auto simp: format_float_def)
  qed
  consider "x = 0" | "0 < x" | "x < 0" by linarith
  then show ?thesis
  proof cases
    case 1
    have "parse_number (''0'' @ rest) = Some (\<lparr>nl_neg = False, nl_int = ''0'', nl_frac = None, nl_exp = None\<rparr>, rest)"
      using parse_no_exp [OF r] parse_no_frac [OF r] by (intro parse_number_unsigned) (simp_all add: parse_int_part_def)
    then show ?thesis using 1 x
      by (simp add: format_float_def lit_value_def lit_frac_def lit_exp_def digit_val_def)
  next
    case 2
    then show ?thesis using pos x by blast
  next
    case 3
    have "to_double (- x) = Some (- x)" using x by (simp add: to_double_uminus)
    then obtain l where l: "parse_number (format_float (- x) @ rest) = Some (l, rest)" "\<not> nl_neg l"
        "to_double (lit_value l) = Some (- x)" using pos [of "- x"] 3 by auto
    have "format_float x = CHR ''-'' # format_float (- x)" using 3 by (simp add: format_float_def)
    then show ?thesis
      using parse_number_neg [OF l(1,2)] l(3) lit_value_neg [OF l(2)] by (simp add: to_double_uminus)
  qed
qed

lemma parse_FormatInt:
  assumes r: "num_end rest"
  shows "parse_number (FormatInt i @ rest) =
    Some (\<lparr>nl_neg = i < 0, nl_int = format_nat (nat \<bar>i\<bar>), nl_frac = None, nl_exp = None\<rparr>, rest)"
proof -
  have p: "parse_number (format_nat n @ rest) = Some (\<lparr>nl_neg = False, nl_int = format_nat n, nl_frac = None, nl_exp = None\<rparr>, rest)" for n
  proof (cases "n = 0")
    case True
    then show ?thesis
      using parse_no_exp [OF r] parse_no_frac [OF r]
      by (intro parse_number_unsigned) (simp_all add: format_nat_0 parse_int_part_def)
  next
    case False
    then have z: "\<forall>c\<in>set (format_nat n). is_digit c" "format_nat n \<noteq> []" "hd (format_nat n) \<noteq> CHR ''0''"
      using format_nat_all_digits format_nat_nonempty format_nat_hd by auto
    show ?thesis
      using parse_int_digits [OF z num_end_hd [OF r]] parse_no_exp [OF r] parse_no_frac [OF r] hd_digits [OF z(1,2)] z(2)
      by (intro parse_number_unsigned) simp_all
  qed
  show ?thesis
    using p [of "nat i"] parse_number_neg [OF p [of "nat (- i)"]] by (auto simp: FormatInt_def)
qed

lemma lit_value_int:
  "lit_value \<lparr>nl_neg = i < 0, nl_int = format_nat (nat \<bar>i\<bar>), nl_frac = None, nl_exp = None\<rparr> = of_int i"
  by (simp add: lit_value_def lit_frac_def lit_exp_def digits_value_format)

end
