(* ===== verification/Go_Json.thy ===== *)
theory Go_Json
  imports Go_Number Domain "HOL-Library.AList" "HOL-Library.List_Lexorder" "HOL-Library.Char_ord"
begin

text \<open>
  JSON texts as \<^verbatim>\<open>encoding/json\<close> writes and reads them.

  Writing (\<open>Marshal\<close>): object keys of a map are sorted bytewise, struct fields keep their order
  (\<open>json_members\<close>), strings are escaped with the HTML-safe set, invalid UTF-8 is replaced by
  U+FFFD.  Reading has two stages: \<open>parse_text\<close> checks the grammar and yields the text's
  tree, with number literals as written and object members in the order of the text;
  \<open>to_any\<close> turns the tree into a value, where a repeated key overwrites and a number out of
  range is an error.  Typed decoding works on the tree.  The nesting limit of 10000 is
  part of the grammar.

  The parser has fuel for its mutual recursion; \<open>parse_enough\<close> shows that the fuel it is
  given never runs out.  The main theorem, \<open>Unmarshal_Marshal\<close>, is that reading inverts writing.
\<close>

section \<open>UTF-8\<close>

definition replacement :: bytes where
  "replacement = [CHR 0xEF, CHR 0xBF, CHR 0xBD]"

definition is_ascii :: "char \<Rightarrow> bool" where
  "is_ascii c \<longleftrightarrow> (of_char c :: nat) < 128"

text \<open>\<^verbatim>\<open>utf8.EncodeRune\<close> for a valid rune.\<close>

definition encode_rune :: "nat \<Rightarrow> bytes" where
  "encode_rune r =
     (if r < 0x80 then [char_of r]
      else if r < 0x800 then [char_of (0xC0 + r div 64), char_of (0x80 + r mod 64)]
      else if r < 0x10000 then [char_of (0xE0 + r div 4096), char_of (0x80 + r div 64 mod 64), char_of (0x80 + r mod 64)]
      else [char_of (0xF0 + r div 262144), char_of (0x80 + r div 4096 mod 64), char_of (0x80 + r div 64 mod 64),
            char_of (0x80 + r mod 64)])"

lemma rune_len_le: "s \<noteq> [] \<Longrightarrow> rune_len s \<le> length s"
  by (induction s rule: rune_len.induct) auto

lemma rune_len_keeps:
  assumes "rune_len s = n" "1 < n" shows "rune_len (take n s @ t) = n"
proof -
  have s: "s \<noteq> []" using assms by (cases s) auto
  consider a b where "s = [a, b]" | a b c where "s = [a, b, c]" | a b c d r where "s = a # b # c # d # r" | a where "s = [a]"
    using s by (metis neq_Nil_conv)
  then show ?thesis
  proof cases
    case 1
    then show ?thesis using assms
      by (cases t; cases "tl t"; cases "tl (tl t)") (auto split: if_splits)
  next
    case 2
    then show ?thesis using assms
      by (cases t; cases "tl t"; cases "tl (tl t)") (auto split: if_splits)
  next
    case 3
    then show ?thesis using assms
      by (cases t; cases "tl t"; cases "tl (tl t)") (auto split: if_splits simp: in_range_def)
  qed (use assms in simp)
qed

lemma rune_len_multi: "rune_len (c # s) = n \<Longrightarrow> 1 < n \<Longrightarrow> \<not> is_ascii c"
  by (induction "c # s" rule: rune_len.induct) (auto simp: is_ascii_def in_range_def split: if_splits)

text \<open>What a string becomes on the way through JSON: invalid bytes are replaced.\<close>

function clean_utf8 :: "bytes \<Rightarrow> bytes" where
  "clean_utf8 s =
     (case s of
        [] \<Rightarrow> []
      | c # cs \<Rightarrow>
          if is_ascii c then c # clean_utf8 cs
          else if rune_len s = 1 then replacement @ clean_utf8 cs
          else take (rune_len s) s @ clean_utf8 (drop (rune_len s) s))"
  by pat_completeness auto
termination
  by (relation "measure length") (auto simp: rune_len_pos)

declare clean_utf8.simps [simp del]

section \<open>Writing strings\<close>

definition hex_digit :: "nat \<Rightarrow> char" where
  "hex_digit n = (if n < 10 then digit n else char_of (87 + n))"

text \<open>The escape of an ASCII character, if it has one.\<close>

definition escape_ascii :: "char \<Rightarrow> bytes" where
  "escape_ascii c =
     (if c = CHR 0x22 \<or> c = CHR 0x5C then [CHR 0x5C, c]
      else if c = CHR 0x08 then [CHR 0x5C, CHR ''b'']
      else if c = CHR 0x0C then [CHR 0x5C, CHR ''f'']
      else if c = CHR 0x0A then [CHR 0x5C, CHR ''n'']
      else if c = CHR 0x0D then [CHR 0x5C, CHR ''r'']
      else if c = CHR 0x09 then [CHR 0x5C, CHR ''t'']
      else if (of_char c :: nat) < 32 \<or> c \<in> {CHR ''<'', CHR ''>'', CHR ''&''}
      then [CHR 0x5C, CHR ''u'', CHR ''0'', CHR ''0'', hex_digit (of_char c div 16), hex_digit (of_char c mod 16)]
      else [c])"

function escape_string :: "bytes \<Rightarrow> bytes" where
  "escape_string s =
     (case s of
        [] \<Rightarrow> []
      | c # cs \<Rightarrow>
          if is_ascii c then escape_ascii c @ escape_string cs
          else if rune_len s = 1 then CHR 0x5C # ''ufffd'' @ escape_string cs
          else if take 3 s = [CHR 0xE2, CHR 0x80, CHR 0xA8] then CHR 0x5C # ''u2028'' @ escape_string (drop 3 s)
          else if take 3 s = [CHR 0xE2, CHR 0x80, CHR 0xA9] then CHR 0x5C # ''u2029'' @ escape_string (drop 3 s)
          else take (rune_len s) s @ escape_string (drop (rune_len s) s))"
  by pat_completeness auto
termination
  by (relation "measure length") (auto simp: rune_len_pos)

declare escape_string.simps [simp del]

definition json_string :: "bytes \<Rightarrow> bytes" where
  "json_string s = CHR 0x22 # escape_string s @ [CHR 0x22]"

section \<open>Reading strings\<close>

definition hex_val :: "char \<Rightarrow> nat option" where
  "hex_val c =
     (if is_digit c then Some (digit_val c)
      else if in_range 97 102 c then Some (of_char c - 87)
      else if in_range 65 70 c then Some (of_char c - 55)
      else None)"

definition hex4 :: "bytes \<Rightarrow> (nat \<times> bytes) option" where
  "hex4 s =
     (case s of
        a # b # c # d # r \<Rightarrow>
          (case (hex_val a, hex_val b, hex_val c, hex_val d) of
             (Some w, Some x, Some y, Some z) \<Rightarrow> Some (((w * 16 + x) * 16 + y) * 16 + z, r)
           | _ \<Rightarrow> None)
      | _ \<Rightarrow> None)"

text \<open>The second half of a surrogate pair.\<close>

definition low_surrogate :: "bytes \<Rightarrow> (nat \<times> bytes) option" where
  "low_surrogate s =
     (case s of
        a # b # r \<Rightarrow>
          if a = CHR 0x5C \<and> b = CHR ''u''
          then (case hex4 r of
                  Some (lo, r') \<Rightarrow> if 0xDC00 \<le> lo \<and> lo < 0xE000 then Some (lo, r') else None
                | None \<Rightarrow> None)
          else None
      | _ \<Rightarrow> None)"

definition unescape :: "bytes \<Rightarrow> (bytes \<times> bytes) option" where
  "unescape s =
     (case s of
        [] \<Rightarrow> None
      | e # r \<Rightarrow>
          if e \<in> {CHR 0x22, CHR 0x5C, CHR ''/''} then Some ([e], r)
          else if e = CHR ''b'' then Some ([CHR 0x08], r)
          else if e = CHR ''f'' then Some ([CHR 0x0C], r)
          else if e = CHR ''n'' then Some ([CHR 0x0A], r)
          else if e = CHR ''r'' then Some ([CHR 0x0D], r)
          else if e = CHR ''t'' then Some ([CHR 0x09], r)
          else if e = CHR ''u''
          then (case hex4 r of
                  None \<Rightarrow> None
                | Some (u, r1) \<Rightarrow>
                    if 0xD800 \<le> u \<and> u < 0xE000
                    then (case (if u < 0xDC00 then low_surrogate r1 else None) of
                            Some (lo, r2) \<Rightarrow> Some (encode_rune ((u - 0xD800) * 1024 + (lo - 0xDC00) + 0x10000), r2)
                          | None \<Rightarrow> Some (replacement, r1))
                    else Some (encode_rune u, r1))
          else None)"

text \<open>One character of a string after its opening quote.\<close>

definition string_step :: "bytes \<Rightarrow> (bytes \<times> bytes) option" where
  "string_step s =
     (case s of
        [] \<Rightarrow> None
      | c # cs \<Rightarrow>
          if c = CHR 0x5C then unescape cs
          else if (of_char c :: nat) < 32 then None
          else if is_ascii c then Some ([c], cs)
          else if rune_len s = 1 then Some (replacement, cs)
          else Some (take (rune_len s) s, drop (rune_len s) s))"

lemma hex4_length: "hex4 s = Some (u, r) \<Longrightarrow> length r < length s"
  by (auto simp: hex4_def split: list.splits option.splits)

lemma low_surrogate_length: "low_surrogate s = Some (u, r) \<Longrightarrow> length r < length s"
  by (auto simp: low_surrogate_def dest: hex4_length split: list.splits option.splits if_splits)

lemma unescape_length: "unescape s = Some (o', r) \<Longrightarrow> length r < length s"
  by (auto simp: unescape_def dest!: hex4_length low_surrogate_length split: list.splits option.splits if_splits)

lemma string_step_length: "string_step s = Some (o', r) \<Longrightarrow> length r < length s"
  using rune_len_pos [of s]
  by (auto simp: string_step_def dest!: unescape_length split: list.splits if_splits)

function parse_string :: "bytes \<Rightarrow> (bytes \<times> bytes) option" where
  "parse_string s =
     (if s = [] then None
      else if hd s = CHR 0x22 then Some ([], tl s)
      else case string_step s of
             None \<Rightarrow> None
           | Some (out, rest) \<Rightarrow>
               (case parse_string rest of None \<Rightarrow> None | Some (t, r) \<Rightarrow> Some (out @ t, r)))"
  by pat_completeness auto
termination
  by (relation "measure length") (auto simp: string_step_length)

declare parse_string.simps [simp del]

section \<open>Strings read back\<close>

lemma escape_string_simps:
  "escape_string [] = []"
  "is_ascii c \<Longrightarrow> escape_string (c # cs) = escape_ascii c @ escape_string cs"
  "\<not> is_ascii c \<Longrightarrow> rune_len (c # cs) = 1 \<Longrightarrow> escape_string (c # cs) = CHR 0x5C # ''ufffd'' @ escape_string cs"
  by (simp_all add: escape_string.simps [of "[]"] escape_string.simps [of "c # cs"])

lemma clean_utf8_simps:
  "clean_utf8 [] = []"
  "is_ascii c \<Longrightarrow> clean_utf8 (c # cs) = c # clean_utf8 cs"
  "\<not> is_ascii c \<Longrightarrow> rune_len (c # cs) = 1 \<Longrightarrow> clean_utf8 (c # cs) = replacement @ clean_utf8 cs"
  by (simp_all add: clean_utf8.simps [of "[]"] clean_utf8.simps [of "c # cs"])

lemma clean_utf8_multi:
  assumes "s \<noteq> []" "rune_len s \<noteq> 1"
  shows "clean_utf8 s = take (rune_len s) s @ clean_utf8 (drop (rune_len s) s)"
proof -
  obtain c cs where s: "s = c # cs" using assms(1) by (cases s) auto
  have "\<not> is_ascii c" using rune_len_multi [of c cs "rune_len s"] rune_len_pos [of s] assms(2) s by simp
  then show ?thesis using assms(2) by (subst clean_utf8.simps) (simp add: s)
qed

lemma hex_val_digit:
  assumes "n < 16" shows "hex_val (hex_digit n) = Some n"
proof (cases "n < 10")
  case True
  then show ?thesis by (simp add: hex_val_def hex_digit_def)
next
  case False
  then have "of_char (char_of (87 + n) :: char) = 87 + n" using assms by simp
  then show ?thesis using False assms by (simp add: hex_val_def hex_digit_def is_digit_def in_range_def)
qed

lemma hex_val_consts:
  "hex_val (CHR ''0'') = Some 0" "hex_val (CHR ''2'') = Some 2" "hex_val (CHR ''8'') = Some 8"
  "hex_val (CHR ''9'') = Some 9" "hex_val (CHR ''f'') = Some 15" "hex_val (CHR ''d'') = Some 13"
  by (simp_all add: hex_val_def is_digit_def digit_val_def in_range_def)

lemma char_of_eqI: "of_char c = n \<Longrightarrow> char_of n = c" for n :: nat
  by auto

lemma encode_rune_consts:
  "encode_rune 0xFFFD = replacement" "encode_rune 0x2028 = [CHR 0xE2, CHR 0x80, CHR 0xA8]"
  "encode_rune 0x2029 = [CHR 0xE2, CHR 0x80, CHR 0xA9]"
  by (simp_all add: encode_rune_def replacement_def char_of_eqI)

lemma string_step_escapes:
  "string_step (CHR 0x5C # ''ufffd'' @ t) = Some (replacement, t)"
  "string_step (CHR 0x5C # ''u2028'' @ t) = Some ([CHR 0xE2, CHR 0x80, CHR 0xA8], t)"
  "string_step (CHR 0x5C # ''u2029'' @ t) = Some ([CHR 0xE2, CHR 0x80, CHR 0xA9], t)"
  using encode_rune_consts by (simp_all add: string_step_def unescape_def hex4_def hex_val_consts)

lemma string_step_ascii:
  assumes "is_ascii c" shows "string_step (escape_ascii c @ t) = Some ([c], t)"
proof -
  define n :: nat where "n = of_char c"
  have n: "n < 128" "char_of n = c" using assms by (simp_all add: n_def is_ascii_def)
  have h: "hex4 (CHR ''0'' # CHR ''0'' # hex_digit (n div 16) # hex_digit (n mod 16) # t) = Some (n, t)"
    using n(1) by (simp add: hex4_def hex_val_digit hex_val_consts)
  have e: "encode_rune n = [c]" using n by (simp add: encode_rune_def)
  show ?thesis
    using assms h e n(1)
    by (simp add: escape_ascii_def string_step_def unescape_def n_def [symmetric])
qed

lemma escape_ascii_hd: "escape_ascii c @ t \<noteq> [] \<and> hd (escape_ascii c @ t) \<noteq> CHR 0x22"
  by (simp add: escape_ascii_def)

lemma parse_string_step:
  assumes "s \<noteq> []" "hd s \<noteq> CHR 0x22" "string_step s = Some (out, rest)" "parse_string rest = Some (t, r)"
  shows "parse_string s = Some (out @ t, r)"
  using assms by (subst parse_string.simps) simp

lemma rune_len_separator: "rune_len (CHR 0xE2 # CHR 0x80 # CHR 0xA8 # r) = 3" "rune_len (CHR 0xE2 # CHR 0x80 # CHR 0xA9 # r) = 3"
  by (cases r; simp add: in_range_def)+

lemma string_step_multi:
  assumes "s \<noteq> []" "rune_len s = n" "n \<noteq> 1"
  shows "string_step (take n s @ t) = Some (take n s, t) \<and> take n s @ t \<noteq> [] \<and> hd (take n s @ t) \<noteq> CHR 0x22"
proof -
  obtain c cs where s: "s = c # cs" using assms(1) by (cases s) auto
  have n: "1 < n" "n \<le> length s" using rune_len_pos [of s] rune_len_le [OF assms(1)] assms(2,3) by linarith+
  obtain m where m: "n = Suc m" using n by (cases n) auto
  have "\<not> is_ascii c" using rune_len_multi [of c cs n] n(1) assms(2) s by simp
  then have "c \<noteq> CHR 0x22" "c \<noteq> CHR 0x5C" "\<not> (of_char c :: nat) < 32" "\<not> is_ascii c" by (auto simp: is_ascii_def)
  moreover have "rune_len (take n s @ t) = n" using rune_len_keeps [OF assms(2) n(1)] .
  moreover have "take n s @ t = c # take m cs @ t" "length (take n s) = n" using n(2) by (simp_all add: s m)
  moreover from this have "take n (c # take m cs @ t) = take n s" "drop n (c # take m cs @ t) = t"
    by (metis append_eq_conv_conj)+
  ultimately show ?thesis using assms(3) by (simp add: string_step_def)
qed

lemma parse_escape_string: "parse_string (escape_string s @ CHR 0x22 # rest) = Some (clean_utf8 s, rest)"
proof (induction "length s" arbitrary: s rule: less_induct)
  case less
  let ?q = "\<lambda>t. escape_string t @ CHR 0x22 # rest"
  show ?case
  proof (cases s)
    case Nil
    have "parse_string (CHR 0x22 # rest) = Some ([], rest)" by (subst parse_string.simps) simp
    then show ?thesis by (simp add: Nil escape_string_simps clean_utf8_simps)
  next
    case (Cons c cs)
    have ih: "parse_string (?q (drop n s)) = Some (clean_utf8 (drop n s), rest)" if "0 < n" for n
      using less [of "drop n s"] that Cons by simp
    have ih1: "parse_string (?q cs) = Some (clean_utf8 cs, rest)" using ih [of 1] by (simp add: Cons)
    consider "is_ascii c" | "\<not> is_ascii c" "rune_len s = 1" | "\<not> is_ascii c" "rune_len s \<noteq> 1" by blast
    then show ?thesis
    proof cases
      case 1
      have "parse_string (escape_ascii c @ ?q cs) = Some ([c] @ clean_utf8 cs, rest)"
        using escape_ascii_hd string_step_ascii [OF 1] ih1 by (intro parse_string_step) blast+
      then show ?thesis using 1 by (simp add: Cons escape_string_simps clean_utf8_simps)
    next
      case 2
      have "parse_string (CHR 0x5C # ''ufffd'' @ ?q cs) = Some (replacement @ clean_utf8 cs, rest)"
        by (rule parse_string_step [OF _ _ string_step_escapes(1) ih1]) simp_all
      then show ?thesis using 2 by (simp add: Cons escape_string_simps clean_utf8_simps)
    next
      case 3
      have n0: "s \<noteq> []" using Cons by simp
      note cl = clean_utf8_multi [OF n0 3(2)]
      show ?thesis
      proof (cases "take 3 s = [CHR 0xE2, CHR 0x80, CHR 0xA8] \<or> take 3 s = [CHR 0xE2, CHR 0x80, CHR 0xA9]")
        case True
        then have l: "rune_len s = 3" using rune_len_separator by (metis append_Cons append_Nil append_take_drop_id)
        have "parse_string (escape_string s @ CHR 0x22 # rest) = Some (take 3 s @ clean_utf8 (drop 3 s), rest)"
          using True
        proof
          assume t: "take 3 s = [CHR 0xE2, CHR 0x80, CHR 0xA8]"
          have "escape_string s = CHR 0x5C # ''u2028'' @ escape_string (drop 3 s)"
            using t 3 Cons by (subst escape_string.simps) simp
          moreover have "parse_string (CHR 0x5C # ''u2028'' @ ?q (drop 3 s)) = Some ([CHR 0xE2, CHR 0x80, CHR 0xA8] @ clean_utf8 (drop 3 s), rest)"
            by (rule parse_string_step [OF _ _ string_step_escapes(2) ih]) simp_all
          ultimately show ?thesis using t by simp
        next
          assume t: "take 3 s = [CHR 0xE2, CHR 0x80, CHR 0xA9]"
          have "escape_string s = CHR 0x5C # ''u2029'' @ escape_string (drop 3 s)"
            using t 3 Cons by (subst escape_string.simps) simp
          moreover have "parse_string (CHR 0x5C # ''u2029'' @ ?q (drop 3 s)) = Some ([CHR 0xE2, CHR 0x80, CHR 0xA9] @ clean_utf8 (drop 3 s), rest)"
            by (rule parse_string_step [OF _ _ string_step_escapes(3) ih]) simp_all
          ultimately show ?thesis using t by simp
        qed
        then show ?thesis unfolding cl l .
      next
        case False
        define n where "n = rune_len s"
        have "0 < n" using rune_len_pos by (simp add: n_def)
        then have "parse_string (take n s @ ?q (drop n s)) = Some (take n s @ clean_utf8 (drop n s), rest)"
          using string_step_multi [OF n0, of n] 3(2) ih [of n] by (intro parse_string_step) (simp_all add: n_def)
        moreover have "escape_string s = take n s @ escape_string (drop n s)"
          using False 3 Cons by (subst escape_string.simps) (auto simp: n_def)
        ultimately show ?thesis unfolding cl n_def by simp
      qed
    qed
  qed
qed

section \<open>Writing values\<close>

text \<open>An object from its members' keys and encoded values, in the order given.\<close>

definition json_member :: "bytes \<times> bytes \<Rightarrow> bytes" where
  "json_member m = json_string (fst m) @ '':'' @ snd m"

definition json_members :: "(bytes \<times> bytes) list \<Rightarrow> bytes" where
  "json_members ms = ''{'' @ join_strings '','' (map json_member ms) @ ''}''"

definition json_array :: "bytes list \<Rightarrow> bytes" where
  "json_array vs = ''['' @ join_strings '','' vs @ '']''"

text \<open>\<^verbatim>\<open>json.Marshal\<close> of an \<^verbatim>\<open>any\<close>: the members of a map sorted by key.\<close>

fun Marshal :: "json \<Rightarrow> bytes" where
  "Marshal JNull = ''null''"
| "Marshal (JBool b) = (if b then ''true'' else ''false'')"
| "Marshal (JNum x) = format_float x"
| "Marshal (JInt i) = FormatInt i"
| "Marshal (JStr s) = json_string s"
| "Marshal (JArr vs) = json_array (map Marshal vs)"
| "Marshal (JObj m) = json_members (sort_key fst (map (\<lambda>(k, v). (k, Marshal v)) m))"

section \<open>Reading values\<close>

datatype jraw =
    RNull
  | RBool bool
  | RNum numlit
  | RStr bytes
  | RArr "jraw list"
  | RObj "(bytes \<times> jraw) list"

definition is_ws :: "char \<Rightarrow> bool" where
  "is_ws c \<longleftrightarrow> c = CHR '' '' \<or> c = CHR 0x09 \<or> c = CHR 0x0A \<or> c = CHR 0x0D"

definition skip_ws :: "bytes \<Rightarrow> bytes" where
  "skip_ws s = dropWhile is_ws s"

definition max_depth :: nat where
  "max_depth = 10000"

fun parse_value :: "nat \<Rightarrow> nat \<Rightarrow> bytes \<Rightarrow> (jraw \<times> bytes) option"
and parse_elems :: "nat \<Rightarrow> nat \<Rightarrow> bytes \<Rightarrow> (jraw list \<times> bytes) option"
and parse_members :: "nat \<Rightarrow> nat \<Rightarrow> bytes \<Rightarrow> ((bytes \<times> jraw) list \<times> bytes) option" where
  "parse_value 0 d s = None"
| "parse_value (Suc n) d s =
     (case skip_ws s of
        [] \<Rightarrow> None
      | c # cs \<Rightarrow>
          if c = CHR 0x22 then map_option (\<lambda>(t, r). (RStr t, r)) (parse_string cs)
          else if c = CHR ''{''
          then (if d \<ge> max_depth then None
                else if HasPrefix (skip_ws cs) ''}'' then Some (RObj [], tl (skip_ws cs))
                else map_option (\<lambda>(ms, r). (RObj ms, r)) (parse_members n (Suc d) cs))
          else if c = CHR ''[''
          then (if d \<ge> max_depth then None
                else if HasPrefix (skip_ws cs) '']'' then Some (RArr [], tl (skip_ws cs))
                else map_option (\<lambda>(vs, r). (RArr vs, r)) (parse_elems n (Suc d) cs))
          else if HasPrefix (c # cs) ''true'' then Some (RBool True, drop 3 cs)
          else if HasPrefix (c # cs) ''false'' then Some (RBool False, drop 4 cs)
          else if HasPrefix (c # cs) ''null'' then Some (RNull, drop 3 cs)
          else map_option (\<lambda>(l, r). (RNum l, r)) (parse_number (c # cs)))"
| "parse_elems 0 d s = None"
| "parse_elems (Suc n) d s =
     (case parse_value n d s of
        None \<Rightarrow> None
      | Some (v, r) \<Rightarrow>
          (case skip_ws r of
             [] \<Rightarrow> None
           | c # cs \<Rightarrow>
               if c = CHR '','' then map_option (\<lambda>(vs, r'). (v # vs, r')) (parse_elems n d cs)
               else if c = CHR '']'' then Some ([v], cs)
               else None))"
| "parse_members 0 d s = None"
| "parse_members (Suc n) d s =
     (case skip_ws s of
        [] \<Rightarrow> None
      | q # s1 \<Rightarrow>
          if q \<noteq> CHR 0x22 then None
          else (case parse_string s1 of
                  None \<Rightarrow> None
                | Some (k, r) \<Rightarrow>
                    if \<not> HasPrefix (skip_ws r) '':'' then None
                    else (case parse_value n d (tl (skip_ws r)) of
                            None \<Rightarrow> None
                          | Some (v, r2) \<Rightarrow>
                              (case skip_ws r2 of
                                 [] \<Rightarrow> None
                               | c # cs \<Rightarrow>
                                   if c = CHR '','' then map_option (\<lambda>(ms, r'). ((k, v) # ms, r')) (parse_members n d cs)
                                   else if c = CHR ''}'' then Some ([(k, v)], cs)
                                   else None))))"

declare parse_value.simps [simp del] parse_elems.simps [simp del] parse_members.simps [simp del]

definition parse_text :: "bytes \<Rightarrow> jraw option" where
  "parse_text s =
     (case parse_value (2 * length s + 2) 0 s of
        None \<Rightarrow> None
      | Some (v, r) \<Rightarrow> if skip_ws r = [] then Some v else None)"

text \<open>The tree as a value: a later member with the same key replaces an earlier one.\<close>

fun put_members :: "(bytes \<times> json) list \<Rightarrow> jobject \<Rightarrow> jobject" where
  "put_members [] m = m"
| "put_members ((k, v) # ms) m = put_members ms (AList.update k v m)"

fun all_some :: "'a option list \<Rightarrow> 'a list option" where
  "all_some [] = Some []"
| "all_some (None # xs) = None"
| "all_some (Some x # xs) = map_option ((#) x) (all_some xs)"

fun to_any :: "jraw \<Rightarrow> json option" where
  "to_any RNull = Some JNull"
| "to_any (RBool b) = Some (JBool b)"
| "to_any (RNum l) = map_option JNum (to_double (lit_value l))"
| "to_any (RStr s) = Some (JStr s)"
| "to_any (RArr vs) = map_option JArr (all_some (map to_any vs))"
| "to_any (RObj ms) = map_option (\<lambda>kvs. JObj (put_members kvs []))
     (all_some (map (\<lambda>(k, v). map_option (Pair k) (to_any v)) ms))"

text \<open>\<^verbatim>\<open>json.Unmarshal\<close> into an \<^verbatim>\<open>any\<close> and into a \<^verbatim>\<open>map[string]any\<close>: \<^verbatim>\<open>null\<close> leaves the map nil, another
  value than an object is an error.\<close>

definition Unmarshal_any :: "bytes \<Rightarrow> json option" where
  "Unmarshal_any s = (case parse_text s of None \<Rightarrow> None | Some t \<Rightarrow> to_any t)"

definition Unmarshal_map :: "bytes \<Rightarrow> jobject option option" where
  "Unmarshal_map s =
     (case Unmarshal_any s of
        Some JNull \<Rightarrow> Some None
      | Some (JObj m) \<Rightarrow> Some (Some m)
      | _ \<Rightarrow> None)"

section \<open>Reading inverts writing\<close>

text \<open>What can be written: numbers that are doubles or 64-bit integers.  \<open>canon\<close> is the value that is read
  back: the same one, with integers as doubles, strings cleaned and object members sorted.\<close>

fun writable :: "json \<Rightarrow> bool" where
  "writable (JNum x) \<longleftrightarrow> to_double x = Some x"
| "writable (JInt i) \<longleftrightarrow> is_i64 i"
| "writable (JArr vs) \<longleftrightarrow> list_all writable vs"
| "writable (JObj m) \<longleftrightarrow> list_all (\<lambda>(k, v). writable v) m"
| "writable _ \<longleftrightarrow> True"

fun jdepth :: "json \<Rightarrow> nat" where
  "jdepth (JArr vs) = Suc (foldr max (map jdepth vs) 0)"
| "jdepth (JObj m) = Suc (foldr max (map (\<lambda>(k, v). jdepth v) m) 0)"
| "jdepth _ = 0"

fun canon :: "json \<Rightarrow> json" where
  "canon (JInt i) = JNum (f64 (of_int i))"
| "canon (JStr s) = JStr (clean_utf8 s)"
| "canon (JArr vs) = JArr (map canon vs)"
| "canon (JObj m) = JObj (put_members (map (\<lambda>(k, v). (clean_utf8 k, v)) (sort_key fst (map (\<lambda>(k, v). (k, canon v)) m))) [])"
| "canon v = v"

lemma insort_key_map:
  "insort_key fst (k, f v) (map (\<lambda>(k, v). (k, f v)) xs) = map (\<lambda>(k, v). (k, f v)) (insort_key fst (k, v) xs)"
  by (induction xs) auto

lemma sort_key_map: "sort_key fst (map (\<lambda>(k, v). (k, f v)) m) = map (\<lambda>(k, v). (k, f v)) (sort_key fst m)"
  by (induction m) (auto simp: insort_key_map)

lemma foldr_max_le: "foldr max xs 0 \<le> (b::nat) \<longleftrightarrow> (\<forall>x\<in>set xs. x \<le> b)"
  by (induction xs) auto

lemma huge_big: "2 ^ 65 < huge"
proof -
  have "(2 :: rat) powi 65 < 2 powi 1024" by (rule power_int_strict_increasing) simp_all
  then show ?thesis by (simp only: huge_def) (simp add: power_int_def)
qed

lemma min_normal_small: "min_normal < 1"
proof -
  have "(2 :: rat) powi (- 1022) < 2 powi 0" by (rule power_int_strict_increasing) simp_all
  then show ?thesis by (simp only: min_normal_def power_int_0_right)
qed

lemma f64_bound:
  assumes "\<bar>x\<bar> \<le> 2 ^ 63" shows "\<bar>f64 x\<bar> \<le> 2 ^ 65"
proof -
  have b: "f64_pos x \<le> 2 ^ 65" if "0 < x" "x \<le> 2 ^ 63" for x
  proof -
    have "f64_pos x \<le> 2 powi (bin_exp x + 1)" using f64_pos_binade [OF that(1)] by blast
    also have "\<dots> = 2 * 2 powi (bin_exp x)" by (simp add: power_int_add)
    also have "\<dots> \<le> 2 * x" using bin_exp_bounds [OF that(1)] by simp
    finally show ?thesis using that(2) by simp
  qed
  consider "x = 0" | "0 < x" | "x < 0" by linarith
  then show ?thesis
    by cases (use assms b [of x] b [of "- x"] f64_pos_pos [of x] f64_pos_pos [of "- x"] in \<open>simp_all add: f64_def\<close>)
qed

lemma to_double_i64: assumes "is_i64 i" shows "to_double (of_int i) = Some (f64 (of_int i))"
proof -
  have "\<bar>of_int i :: rat\<bar> \<le> of_int (2 ^ 63)"
    using assms by (simp only: is_i64_def of_int_abs [symmetric] of_int_le_iff) linarith
  then have "\<bar>f64 (of_int i)\<bar> < huge" using f64_bound [of "of_int i"] huge_big by simp
  show ?thesis
  proof (cases "i = 0")
    case True
    then show ?thesis using \<open>_ < huge\<close> by (simp add: to_double_def Let_def f64_def round_even_def)
  next
    case False
    then have "(of_int 1 :: rat) \<le> of_int \<bar>i\<bar>" by (simp only: of_int_le_iff)
    then have "\<not> \<bar>of_int i :: rat\<bar> < min_normal" using min_normal_small by simp
    then show ?thesis using \<open>_ < huge\<close> by (simp add: to_double_def Let_def)
  qed
qed

lemma parse_number_first: "parse_number s = Some r \<Longrightarrow> s \<noteq> [] \<and> (hd s = CHR ''-'' \<or> is_digit (hd s))"
  by (cases s) (auto simp: parse_number_def parse_int_part_def Let_def digit_chars split: option.splits if_splits)

lemma skip_ws_Cons: "\<not> is_ws c \<Longrightarrow> skip_ws (c # s) = c # s"
  by (simp add: skip_ws_def)

lemma parse_value_number:
  assumes "parse_number s = Some (l, r)" shows "parse_value (Suc n) d s = Some (RNum l, r)"
proof -
  obtain c cs where s: "s = c # cs" "c = CHR ''-'' \<or> is_digit c"
    using parse_number_first [OF assms] by (cases s) auto
  then have "\<not> is_ws c" "c \<noteq> CHR 0x22" "c \<noteq> CHR ''{''" "c \<noteq> CHR ''[''" "c \<noteq> CHR ''t''" "c \<noteq> CHR ''f''" "c \<noteq> CHR ''n''"
    by (auto simp: is_ws_def is_digit_def)
  then show ?thesis using assms by (simp add: parse_value.simps s skip_ws_Cons HasPrefix_def)
qed

lemma parse_value_string: "parse_value (Suc n) d (json_string s @ rest) = Some (RStr (clean_utf8 s), rest)"
  using parse_escape_string [of s rest] by (simp add: parse_value.simps json_string_def skip_ws_Cons is_ws_def)

text \<open>The statement for one value.\<close>

definition reads :: "json \<Rightarrow> bool" where
  "reads v \<longleftrightarrow> (\<forall>n d rest. 2 * length (Marshal v) \<le> n \<longrightarrow> d + jdepth v \<le> max_depth \<longrightarrow> num_end rest \<longrightarrow>
     (\<exists>t. parse_value n d (Marshal v @ rest) = Some (t, rest) \<and> to_any t = Some (canon v)))"

lemma readsD:
  assumes "reads v" "2 * length (Marshal v) \<le> n" "d + jdepth v \<le> max_depth" "num_end rest"
  obtains t where "parse_value n d (Marshal v @ rest) = Some (t, rest)" "to_any t = Some (canon v)"
  using assms unfolding reads_def by blast

lemma num_end_punct: "num_end (CHR '','' # s)" "num_end (CHR '']'' # s)" "num_end (CHR ''}'' # s)"
  by (simp_all add: num_end_def is_digit_def)

lemma skip_ws_punct: "skip_ws (CHR '','' # s) = CHR '','' # s" "skip_ws (CHR '']'' # s) = CHR '']'' # s"
    "skip_ws (CHR ''}'' # s) = CHR ''}'' # s" "skip_ws (CHR '':'' # s) = CHR '':'' # s" "skip_ws (CHR 0x22 # s) = CHR 0x22 # s"
    "skip_ws (CHR ''{'' # s) = CHR ''{'' # s" "skip_ws (CHR ''['' # s) = CHR ''['' # s"
  by (simp_all add: skip_ws_Cons is_ws_def)

lemma join_strings_Cons: "xs \<noteq> [] \<Longrightarrow> join_strings sep (x # xs) = x @ sep @ join_strings sep xs"
  by (cases xs) simp_all

lemma parse_elems_reads:
  assumes "vs \<noteq> []" "\<And>v. v \<in> set vs \<Longrightarrow> reads v" "\<And>v. v \<in> set vs \<Longrightarrow> d + jdepth v \<le> max_depth"
    and "2 * length (join_strings '','' (map Marshal vs)) + 1 \<le> n"
  shows "\<exists>ts. parse_elems n d (join_strings '','' (map Marshal vs) @ CHR '']'' # rest) = Some (ts, rest) \<and>
    all_some (map to_any ts) = Some (map canon vs)"
  using assms
proof (induction vs arbitrary: n)
  case (Cons v vs)
  obtain m where n: "n = Suc m" using Cons.prems(4) by (cases n) auto
  have rv: "reads v" "d + jdepth v \<le> max_depth" using Cons.prems(2,3) by auto
  show ?case
  proof (cases "vs = []")
    case True
    then obtain t where t: "parse_value m d (Marshal v @ CHR '']'' # rest) = Some (t, CHR '']'' # rest)" "to_any t = Some (canon v)"
      using readsD [OF rv(1) _ rv(2) num_end_punct(2)] Cons.prems(4) by (auto simp: n)
    then show ?thesis using True by (simp add: n parse_elems.simps skip_ws_punct)
  next
    case False
    define tx where "tx = join_strings '','' (map Marshal vs) @ CHR '']'' # rest"
    have j: "join_strings '','' (map Marshal (v # vs)) = Marshal v @ CHR '','' # join_strings '','' (map Marshal vs)"
      using False by (simp add: join_strings_Cons)
    have "2 * length (Marshal v) \<le> m" "2 * length (join_strings '','' (map Marshal vs)) + 1 \<le> m"
      using Cons.prems(4) unfolding j n by simp_all
    then obtain t where t: "parse_value m d (Marshal v @ CHR '','' # tx) = Some (t, CHR '','' # tx)" "to_any t = Some (canon v)"
      using readsD [OF rv(1) _ rv(2) num_end_punct(1)] by blast
    obtain ts where ts: "parse_elems m d tx = Some (ts, rest)" "all_some (map to_any ts) = Some (map canon vs)"
      using Cons.IH [OF False, of m] Cons.prems(2,3) \<open>_ + 1 \<le> m\<close> unfolding tx_def by (meson list.set_intros(2))
    show ?thesis unfolding j n using t ts by (simp add: parse_elems.simps skip_ws_punct flip: tx_def)
  qed
qed simp

lemma parse_members_reads:
  assumes "ms \<noteq> []" "\<And>k v. (k, v) \<in> set ms \<Longrightarrow> reads v" "\<And>k v. (k, v) \<in> set ms \<Longrightarrow> d + jdepth v \<le> max_depth"
    and "2 * length (join_strings '','' (map json_member (map (\<lambda>(k, v). (k, Marshal v)) ms))) + 1 \<le> n"
  shows "\<exists>ts. parse_members n d (join_strings '','' (map json_member (map (\<lambda>(k, v). (k, Marshal v)) ms)) @ CHR ''}'' # rest) =
      Some (ts, rest) \<and>
    all_some (map (\<lambda>(k, v). map_option (Pair k) (to_any v)) ts) = Some (map (\<lambda>(k, v). (clean_utf8 k, canon v)) ms)"
  using assms
proof (induction ms arbitrary: n)
  case (Cons kv ms)
  obtain k v where kv: "kv = (k, v)" by (cases kv)
  obtain m where n: "n = Suc m" using Cons.prems(4) by (cases n) auto
  have rv: "reads v" "d + jdepth v \<le> max_depth" using Cons.prems(2,3) by (auto simp: kv)
  let ?jm = "\<lambda>ms. join_strings '','' (map json_member (map (\<lambda>(k, v). (k, Marshal v)) ms))"
  have key: "parse_string (escape_string k @ CHR 0x22 # CHR '':'' # q) = Some (clean_utf8 k, CHR '':'' # q)" for q
    by (rule parse_escape_string)
  show ?case
  proof (cases "ms = []")
    case True
    then have "2 * length (Marshal v) \<le> m" using Cons.prems(4) by (simp add: n kv json_member_def)
    then obtain t where t: "parse_value m d (Marshal v @ CHR ''}'' # rest) = Some (t, CHR ''}'' # rest)" "to_any t = Some (canon v)"
      using readsD [OF rv(1) _ rv(2) num_end_punct(3)] by blast
    then show ?thesis using True
      by (simp add: n kv parse_members.simps json_member_def json_string_def skip_ws_punct key HasPrefix_def)
  next
    case False
    define tx where "tx = ?jm ms @ CHR ''}'' # rest"
    have j: "?jm (kv # ms) = json_string k @ CHR '':'' # Marshal v @ CHR '','' # ?jm ms"
      using False by (simp add: join_strings_Cons kv json_member_def)
    have "2 * length (Marshal v) \<le> m" using Cons.prems(4) unfolding j n by simp
    then obtain t where t: "parse_value m d (Marshal v @ CHR '','' # tx) = Some (t, CHR '','' # tx)" "to_any t = Some (canon v)"
      using readsD [OF rv(1) _ rv(2) num_end_punct(1)] by blast
    have "2 * length (?jm ms) + 1 \<le> m" using Cons.prems(4) unfolding j n by simp
    then obtain ts where ts: "parse_members m d tx = Some (ts, rest)"
        "all_some (map (\<lambda>(k, v). map_option (Pair k) (to_any v)) ts) = Some (map (\<lambda>(k, v). (clean_utf8 k, canon v)) ms)"
      using Cons.IH [OF False, of m] Cons.prems(2,3) unfolding tx_def by (meson list.set_intros(2))
    have "?jm (kv # ms) @ CHR ''}'' # rest = CHR 0x22 # escape_string k @ CHR 0x22 # CHR '':'' # Marshal v @ CHR '','' # tx"
      unfolding j tx_def by (simp add: json_string_def)
    then show ?thesis using t ts
      by (simp only: n parse_members.simps skip_ws_punct) (simp add: skip_ws_punct key HasPrefix_def kv)
  qed
qed simp

lemma Marshal_nonempty: "Marshal v \<noteq> []"
proof (cases v)
  case (JNum x)
  have "parse_number [] = None" by (simp add: parse_number_def parse_int_part_def)
  have "format_e d e \<noteq> []" "format_f d e \<noteq> []" for d e
    using format_nat_nonempty by (auto simp: format_e_def format_f_def Let_def)
  then show ?thesis by (auto simp: JNum format_float_def split: prod.splits)
qed (simp_all add: FormatInt_nonempty json_string_def json_array_def json_members_def)

lemma all_some_map: "all_some (map Some xs) = Some xs"
  by (induction xs) auto

lemma reads_array:
  assumes "\<And>v. v \<in> set vs \<Longrightarrow> reads v" shows "reads (JArr vs)"
  unfolding reads_def
proof (intro allI impI)
  fix n d rest
  assume n: "2 * length (Marshal (JArr vs)) \<le> n" and d: "d + jdepth (JArr vs) \<le> max_depth"
  let ?j = "join_strings '','' (map Marshal vs)"
  obtain m where m: "n = Suc m" "2 * length ?j + 1 \<le> m" using n by (cases n) (auto simp: json_array_def)
  have dd: "\<not> d \<ge> max_depth" "\<And>v. v \<in> set vs \<Longrightarrow> Suc d + jdepth v \<le> max_depth"
    using d foldr_max_le [of "map jdepth vs" "max_depth - Suc d"] by auto
  show "\<exists>t. parse_value n d (Marshal (JArr vs) @ rest) = Some (t, rest) \<and> to_any t = Some (canon (JArr vs))"
  proof (cases "vs = []")
    case True
    then show ?thesis using dd(1) by (simp add: m json_array_def parse_value.simps skip_ws_punct HasPrefix_def)
  next
    case False
    then obtain ts where ts: "parse_elems m (Suc d) (?j @ CHR '']'' # rest) = Some (ts, rest)"
        "all_some (map to_any ts) = Some (map canon vs)"
      using parse_elems_reads [OF False assms dd(2) m(2)] by blast
    have "\<not> HasPrefix (skip_ws (?j @ CHR '']'' # rest)) '']''"
    proof
      assume h: "HasPrefix (skip_ws (?j @ CHR '']'' # rest)) '']''"
      obtain c cs where "skip_ws (?j @ CHR '']'' # rest) = c # cs" "c = CHR '']''"
        using h by (cases "skip_ws (?j @ CHR '']'' # rest)") (auto simp: HasPrefix_def)
      then have "parse_value k (Suc d) (?j @ CHR '']'' # rest) = None" for k
        by (cases k) (auto simp: parse_value.simps HasPrefix_def parse_number_def parse_int_part_def is_digit_def)
      then show False using ts(1) by (cases m) (simp_all add: parse_elems.simps)
    qed
    then show ?thesis using dd(1) ts
      by (simp add: m json_array_def parse_value.simps skip_ws_punct)
  qed
qed

lemma reads_object:
  assumes "\<And>k v. (k, v) \<in> set ms \<Longrightarrow> reads v" shows "reads (JObj ms)"
  unfolding reads_def
proof (intro allI impI)
  fix n d rest
  assume n: "2 * length (Marshal (JObj ms)) \<le> n" and d: "d + jdepth (JObj ms) \<le> max_depth"
  define so where "so = sort_key fst ms"
  let ?j = "join_strings '','' (map json_member (map (\<lambda>(k, v). (k, Marshal v)) so))"
  have mo: "Marshal (JObj ms) = CHR ''{'' # ?j @ [CHR ''}'']"
    by (simp add: json_members_def so_def sort_key_map)
  obtain m where m: "n = Suc m" "2 * length ?j + 1 \<le> m" using n unfolding mo by (cases n) auto
  have dd: "\<not> d \<ge> max_depth" "\<And>k v. (k, v) \<in> set so \<Longrightarrow> Suc d + jdepth v \<le> max_depth"
    using d foldr_max_le [of "map (\<lambda>(k, v). jdepth v) ms" "max_depth - Suc d"] by (fastforce simp: so_def)+
  have rs: "\<And>k v. (k, v) \<in> set so \<Longrightarrow> reads v" using assms by (simp add: so_def)
  have can: "canon (JObj ms) = JObj (put_members (map (\<lambda>(k, v). (clean_utf8 k, canon v)) so) [])"
    by (simp only: canon.simps sort_key_map map_map so_def) (simp add: comp_def case_prod_unfold)
  show "\<exists>t. parse_value n d (Marshal (JObj ms) @ rest) = Some (t, rest) \<and> to_any t = Some (canon (JObj ms))"
  proof (cases "so = []")
    case True
    then show ?thesis using dd(1) unfolding mo can by (simp add: m parse_value.simps skip_ws_punct HasPrefix_def)
  next
    case False
    have "\<exists>ts. parse_members m (Suc d) (?j @ CHR ''}'' # rest) = Some (ts, rest) \<and>
        all_some (map (\<lambda>(k, v). map_option (Pair k) (to_any v)) ts) = Some (map (\<lambda>(k, v). (clean_utf8 k, canon v)) so)"
      by (rule parse_members_reads [OF False _ _ m(2)]) (use rs dd(2) in blast)+
    then obtain ts where ts: "parse_members m (Suc d) (?j @ CHR ''}'' # rest) = Some (ts, rest)"
        "all_some (map (\<lambda>(k, v). map_option (Pair k) (to_any v)) ts) = Some (map (\<lambda>(k, v). (clean_utf8 k, canon v)) so)"
      by blast
    have "\<not> HasPrefix (skip_ws (?j @ CHR ''}'' # rest)) ''}''"
    proof
      assume h: "HasPrefix (skip_ws (?j @ CHR ''}'' # rest)) ''}''"
      obtain c cs where "skip_ws (?j @ CHR ''}'' # rest) = c # cs" "c = CHR ''}''"
        using h by (cases "skip_ws (?j @ CHR ''}'' # rest)") (auto simp: HasPrefix_def)
      then show False using ts(1) by (cases m) (simp_all add: parse_members.simps)
    qed
    then show ?thesis using dd(1) ts unfolding mo can
      by (simp add: m parse_value.simps skip_ws_punct)
  qed
qed

lemma reads_leaf:
  assumes "writable v" "\<not> (\<exists>vs. v = JArr vs)" "\<not> (\<exists>m. v = JObj m)" shows "reads v"
  unfolding reads_def
proof (intro allI impI)
  fix n d rest
  assume n: "2 * length (Marshal v) \<le> n" and r: "num_end rest"
  obtain m where m: "n = Suc m" using n Marshal_nonempty [of v] by (cases n) auto
  show "\<exists>t. parse_value n d (Marshal v @ rest) = Some (t, rest) \<and> to_any t = Some (canon v)"
  proof (cases v)
    case (JNum x)
    then have "to_double x = Some x" using assms(1) by simp
    from parse_format_float [OF this r] show ?thesis
      using parse_value_number by (fastforce simp: m JNum)
  next
    case (JInt i)
    then show ?thesis
      using parse_value_number [OF parse_FormatInt [OF r, of i]] to_double_i64 [of i] assms(1)
      by (simp add: m lit_value_int)
  next
    case (JStr s)
    then show ?thesis by (simp add: m parse_value_string)
  qed (use assms m in \<open>auto simp: parse_value.simps skip_ws_Cons is_ws_def HasPrefix_def\<close>)
qed

lemma writable_reads: "writable v \<Longrightarrow> reads v"
proof (induction v rule: json.induct)
  case (JArr vs)
  then show ?case by (intro reads_array) (auto simp: list_all_iff)
next
  case (JObj m)
  then show ?case by (intro reads_object) (force simp: list_all_iff)
qed (auto intro: reads_leaf)

lemma Unmarshal_Marshal:
  assumes "writable v" "jdepth v \<le> max_depth" shows "Unmarshal_any (Marshal v) = Some (canon v)"
proof -
  obtain t where "parse_value (2 * length (Marshal v) + 2) 0 (Marshal v @ []) = Some (t, [])" "to_any t = Some (canon v)"
    using readsD [OF writable_reads [OF assms(1)], of "2 * length (Marshal v) + 2" 0 "[]"] assms(2)
    by (auto simp: num_end_def)
  then show ?thesis by (simp add: Unmarshal_any_def parse_text_def skip_ws_def)
qed

section \<open>The parser's fuel\<close>

lemma skip_ws_length: "length (skip_ws s) \<le> length s"
  by (simp add: skip_ws_def length_dropWhile_le)

lemma skip_ws_shorter: "skip_ws s = c # cs \<Longrightarrow> length cs < length s"
  using skip_ws_length [of s] by simp

lemma parse_string_length: "parse_string s = Some (t, r) \<Longrightarrow> length r < length s"
proof (induction s arbitrary: t rule: parse_string.induct)
  case (1 s)
  show ?case
  proof (cases "s = [] \<or> hd s = CHR 0x22")
    case True
    then show ?thesis using 1(2) by (subst (asm) parse_string.simps) (auto split: if_splits)
  next
    case False
    then obtain out rest t' where "string_step s = Some (out, rest)" "parse_string rest = Some (t', r)"
      using 1(2) by (subst (asm) parse_string.simps) (auto split: option.splits if_splits)
    then show ?thesis using 1(1) [of "(out, rest)" out rest t'] False string_step_length [of s out rest] by simp
  qed
qed

lemma parse_part_lengths:
  "parse_int_part s = Some (x, r) \<Longrightarrow> length r < length s"
  "parse_frac_part s = Some (f, r) \<Longrightarrow> length r \<le> length s"
  "parse_exp_part s = Some (e, r) \<Longrightarrow> length r \<le> length s"
proof -
  have d: "length (dropWhile is_digit x) \<le> length x" for x by (rule length_dropWhile_le)
  show "length r < length s" if "parse_int_part s = Some (x, r)"
    using that d [of "tl s"] by (auto simp: parse_int_part_def split: list.splits if_splits)
  show "length r \<le> length s" if "parse_frac_part s = Some (f, r)"
    using that d [of "tl s"] by (auto simp: parse_frac_part_def split: list.splits if_splits)
  show "length r \<le> length s" if "parse_exp_part s = Some (e, r)"
  proof (cases s)
    case (Cons c cs)
    define ds where "ds = (case cs of [] \<Rightarrow> [] | g # q \<Rightarrow> if g = CHR ''-'' \<or> g = CHR ''+'' then q else cs)"
    have "length ds \<le> length cs" by (auto simp: ds_def split: list.splits)
    moreover have "r = dropWhile is_digit ds \<or> r = s"
      using that by (auto simp: parse_exp_part_def Let_def Cons ds_def [symmetric] split: if_splits)
    ultimately show ?thesis using d [of ds] Cons by auto
  qed (use that in \<open>simp add: parse_exp_part_def\<close>)
qed

lemma parse_number_length:
  assumes "parse_number s = Some (l, r)" shows "length r < length s"
proof -
  obtain a b c s1 s2 s3 where p: "parse_int_part s1 = Some (a, s2)" "parse_frac_part s2 = Some (b, s3)"
      "parse_exp_part s3 = Some (c, r)" "length s1 \<le> length s"
  proof -
    define s1 where "s1 = (if case s of [] \<Rightarrow> False | c # _ \<Rightarrow> c = CHR ''-'' then tl s else s)"
    have "length s1 \<le> length s" by (simp add: s1_def)
    then show ?thesis using that [of s1] assms
      by (auto simp: parse_number_def Let_def s1_def [symmetric] split: option.splits)
  qed
  show ?thesis
    using parse_part_lengths(1) [OF p(1)] parse_part_lengths(2) [OF p(2)] parse_part_lengths(3) [OF p(3)] p(4) by simp
qed

definition shortens :: "nat \<Rightarrow> bool" where
  "shortens n \<longleftrightarrow> (\<forall>d s v r. parse_value n d s = Some (v, r) \<longrightarrow> length r \<le> length s) \<and>
     (\<forall>d s vs r. parse_elems n d s = Some (vs, r) \<longrightarrow> length r \<le> length s) \<and>
     (\<forall>d s ms r. parse_members n d s = Some (ms, r) \<longrightarrow> length r \<le> length s)"

lemma shortensD:
  assumes "shortens n"
  shows "parse_value n d s = Some (v, r) \<Longrightarrow> length r \<le> length s"
    "parse_elems n d s = Some (vs, r) \<Longrightarrow> length r \<le> length s"
    "parse_members n d s = Some (ms, r) \<Longrightarrow> length r \<le> length s"
  using assms unfolding shortens_def by blast+

lemma parse_value_shortens:
  assumes "shortens n" "parse_value (Suc n) d s = Some (v, r)" shows "length r \<le> length s"
proof -
  obtain c cs where s: "skip_ws s = c # cs"
    using assms(2) by (auto simp: parse_value.simps split: list.splits)
  have l: "length cs < length s" using skip_ws_shorter [OF s] .
  have "length r \<le> length cs"
    using assms(2) shortensD [OF assms(1)] less_imp_le [OF parse_string_length [of cs]] parse_number_length [of "c # cs"] skip_ws_length [of cs]
    by (auto simp: parse_value.simps s less_Suc_eq_le split: if_splits)
  then show ?thesis using l by simp
qed

lemma parse_elems_shortens:
  assumes "shortens n" "parse_elems (Suc n) d s = Some (vs, r)" shows "length r \<le> length s"
proof -
  obtain v r1 where v: "parse_value n d s = Some (v, r1)"
    using assms(2) by (auto simp: parse_elems.simps split: option.splits)
  obtain c cs where s: "skip_ws r1 = c # cs"
    using assms(2) by (auto simp: parse_elems.simps v split: list.splits)
  have "length cs < length s" using skip_ws_shorter [OF s] shortensD(1) [OF assms(1) v] by simp
  moreover have "length r \<le> length cs"
    using assms(2) shortensD(2) [OF assms(1)]
    by (auto simp: parse_elems.simps v s split: if_splits)
  ultimately show ?thesis by simp
qed

lemma parse_members_shortens:
  assumes "shortens n" "parse_members (Suc n) d s = Some (ms, r)" shows "length r \<le> length s"
proof -
  obtain q s1 where q: "skip_ws s = q # s1" "q = CHR 0x22"
    using assms(2) by (auto simp: parse_members.simps split: list.splits if_splits)
  obtain k r0 where k: "parse_string s1 = Some (k, r0)"
    using assms(2) by (auto simp: parse_members.simps q split: option.splits)
  have h: "HasPrefix (skip_ws r0) '':''"
    using assms(2) by (auto simp: parse_members.simps q k split: if_splits)
  obtain v r1 where v: "parse_value n d (tl (skip_ws r0)) = Some (v, r1)"
    using assms(2) by (auto simp: parse_members.simps q k h split: option.splits)
  obtain c cs where s: "skip_ws r1 = c # cs"
    using assms(2) by (auto simp: parse_members.simps q k h v split: list.splits)
  have "length cs < length s"
    using skip_ws_shorter [OF s] shortensD(1) [OF assms(1) v] skip_ws_shorter [OF q(1)] parse_string_length [OF k]
      skip_ws_length [of r0] by simp
  moreover have "length r \<le> length cs"
    using assms(2) shortensD(3) [OF assms(1)]
    by (auto simp: parse_members.simps q k h v s split: if_splits)
  ultimately show ?thesis by simp
qed

lemma shortens_all: "shortens n"
proof (induction n)
  case 0
  show ?case by (simp add: shortens_def parse_value.simps parse_elems.simps parse_members.simps)
next
  case (Suc n)
  show ?case
    unfolding shortens_def using parse_value_shortens [OF Suc] parse_elems_shortens [OF Suc] parse_members_shortens [OF Suc] by blast
qed

text \<open>Fuel beyond twice the length of the text makes no difference.\<close>

definition fuel_free :: "nat \<Rightarrow> bool" where
  "fuel_free l \<longleftrightarrow> (\<forall>s d n m. length s < l \<longrightarrow>
     (2 * length s < n \<longrightarrow> 2 * length s < m \<longrightarrow> parse_value n d s = parse_value m d s) \<and>
     (2 * length s + 1 < n \<longrightarrow> 2 * length s + 1 < m \<longrightarrow> parse_elems n d s = parse_elems m d s) \<and>
     (2 * length s < n \<longrightarrow> 2 * length s < m \<longrightarrow> parse_members n d s = parse_members m d s))"

lemma fuel_freeD:
  assumes "fuel_free l" "length s < l"
  shows "2 * length s < n \<Longrightarrow> 2 * length s < m \<Longrightarrow> parse_value n d s = parse_value m d s"
    "2 * length s + 1 < n \<Longrightarrow> 2 * length s + 1 < m \<Longrightarrow> parse_elems n d s = parse_elems m d s"
    "2 * length s < n \<Longrightarrow> 2 * length s < m \<Longrightarrow> parse_members n d s = parse_members m d s"
  using assms unfolding fuel_free_def by blast+

lemma parse_value_fuel:
  assumes "fuel_free (length s)" "2 * length s \<le> n" "2 * length s \<le> m"
  shows "parse_value (Suc n) d s = parse_value (Suc m) d s"
proof (cases "skip_ws s")
  case (Cons c cs)
  have l: "length cs < length s" using skip_ws_shorter [OF Cons] .
  have "parse_elems n (Suc d) cs = parse_elems m (Suc d) cs" "parse_members n (Suc d) cs = parse_members m (Suc d) cs"
    using fuel_freeD(2,3) [OF assms(1) l] assms(2,3) l by auto
  then show ?thesis by (simp add: parse_value.simps Cons)
qed (simp add: parse_value.simps)

lemma parse_elems_fuel:
  assumes "fuel_free (length s)" "parse_value n d s = parse_value m d s" "2 * length s < n" "2 * length s < m"
  shows "parse_elems (Suc n) d s = parse_elems (Suc m) d s"
proof (cases "parse_value m d s")
  case (Some p)
  obtain v r where p: "p = (v, r)" by (cases p)
  show ?thesis
  proof (cases "skip_ws r")
    case (Cons c cs)
    have l: "length cs < length s" using skip_ws_shorter [OF Cons] shortensD(1) [OF shortens_all, of m d s v r] Some p by simp
    then have "parse_elems n d cs = parse_elems m d cs"
      using fuel_freeD(2) [OF assms(1) l] assms(3,4) by simp
    then show ?thesis by (simp add: parse_elems.simps assms(2) Some p Cons)
  qed (simp add: parse_elems.simps assms(2) Some p)
qed (simp add: parse_elems.simps assms(2))

lemma parse_members_fuel:
  assumes "fuel_free (length s)" "2 * length s \<le> n" "2 * length s \<le> m"
  shows "parse_members (Suc n) d s = parse_members (Suc m) d s"
proof (cases "\<exists>s1 k r. skip_ws s = CHR 0x22 # s1 \<and> parse_string s1 = Some (k, r) \<and> HasPrefix (skip_ws r) '':''")
  case True
  then obtain s1 k r where k: "skip_ws s = CHR 0x22 # s1" "parse_string s1 = Some (k, r)" "HasPrefix (skip_ws r) '':''" by blast
  define t where "t = tl (skip_ws r)"
  have l: "length t < length s"
    using skip_ws_shorter [OF k(1)] parse_string_length [OF k(2)] skip_ws_length [of r] by (simp add: t_def)
  then have e: "parse_value n d t = parse_value m d t" using fuel_freeD(1) [OF assms(1) l] assms(2,3) by simp
  show ?thesis
  proof (cases "parse_value m d t")
    case (Some p)
    obtain v r2 where p: "p = (v, r2)" by (cases p)
    show ?thesis
    proof (cases "skip_ws r2")
      case (Cons c cs)
      have l2: "length cs < length s"
        using skip_ws_shorter [OF Cons] shortensD(1) [OF shortens_all, of m d t v r2] Some p l by simp
      then have "parse_members n d cs = parse_members m d cs"
        using fuel_freeD(3) [OF assms(1) l2] assms(2,3) by simp
      then show ?thesis by (simp add: parse_members.simps k t_def [symmetric] e Some p Cons)
    qed (simp add: parse_members.simps k t_def [symmetric] e Some p)
  qed (simp add: parse_members.simps k t_def [symmetric] e)
next
  case False
  then show ?thesis by (auto simp: parse_members.simps split: list.splits option.splits)
qed

lemma fuel_free_mono: "fuel_free l \<Longrightarrow> k \<le> l \<Longrightarrow> fuel_free k"
  unfolding fuel_free_def by (intro allI impI) (elim allE, erule mp, simp)

lemma fuel_free_all: "fuel_free l"
proof (induction l)
  case (Suc l)
  have v: "parse_value n d s = parse_value m d s" if h: "length s \<le> l" "2 * length s < n" "2 * length s < m" for n m d s
  proof -
    obtain n' m' where nm: "n = Suc n'" "m = Suc m'" using h by (cases n; cases m) auto
    have "fuel_free (length s)" using fuel_free_mono [OF Suc h(1)] .
    then show ?thesis using h(2,3) unfolding nm by (intro parse_value_fuel) simp_all
  qed
  have e: "parse_elems n d s = parse_elems m d s" if h: "length s \<le> l" "2 * length s + 1 < n" "2 * length s + 1 < m" for n m d s
  proof -
    obtain n' m' where nm: "n = Suc n'" "m = Suc m'" using h by (cases n; cases m) auto
    have "fuel_free (length s)" using fuel_free_mono [OF Suc h(1)] .
    then show ?thesis using h v [of s n' m' d] unfolding nm by (intro parse_elems_fuel) simp_all
  qed
  have m: "parse_members n d s = parse_members m d s" if h: "length s \<le> l" "2 * length s < n" "2 * length s < m" for n m d s
  proof -
    obtain n' m' where nm: "n = Suc n'" "m = Suc m'" using h by (cases n; cases m) auto
    have "fuel_free (length s)" using fuel_free_mono [OF Suc h(1)] .
    then show ?thesis using h(2,3) unfolding nm by (intro parse_members_fuel) simp_all
  qed
  show ?case
    unfolding fuel_free_def less_Suc_eq_le by (intro allI impI conjI) (rule v e m; assumption)+
qed (simp add: fuel_free_def)

lemma parse_enough: "2 * length s + 2 \<le> n \<Longrightarrow> parse_value n d s = parse_value (2 * length s + 2) d s"
  using fuel_freeD(1) [OF fuel_free_all [of "Suc (length s)"], of s n "2 * length s + 2" d] by simp

section \<open>Typed decoding\<close>

text \<open>
  Decoding into Go structs, on the tree of a text.  A field is found by its name up to
  case folding, under which U+017F counts as S and U+212A as K; unknown members are
  ignored, \<^verbatim>\<open>null\<close> changes nothing, members are decoded in the order of the text into the
  current value of the field, and a value of the wrong type is an error.
\<close>

fun fold_name :: "bytes \<Rightarrow> bytes" where
  "fold_name (a # b # c # s) =
     (if a = CHR 0xC5 \<and> b = CHR 0xBF then CHR ''S'' # fold_name (c # s)
      else if a = CHR 0xE2 \<and> b = CHR 0x84 \<and> c = CHR 0xAA then CHR ''K'' # fold_name s
      else (if in_range 97 122 a then char_of ((of_char a :: nat) - 32) else a) # fold_name (b # c # s))"
| "fold_name [a, b] =
     (if a = CHR 0xC5 \<and> b = CHR 0xBF then [CHR ''S'']
      else (if in_range 97 122 a then char_of ((of_char a :: nat) - 32) else a) # fold_name [b])"
| "fold_name [a] = [if in_range 97 122 a then char_of ((of_char a :: nat) - 32) else a]"
| "fold_name [] = []"

definition field_is :: "bytes \<Rightarrow> bytes \<Rightarrow> bool" where
  "field_is key name \<longleftrightarrow> fold_name key = fold_name name"

fun decode_members :: "(bytes \<Rightarrow> jraw \<Rightarrow> 's \<Rightarrow> 's option) \<Rightarrow> (bytes \<times> jraw) list \<Rightarrow> 's \<Rightarrow> 's option" where
  "decode_members dec [] x = Some x"
| "decode_members dec ((k, v) # ms) x =
     (case dec k v x of None \<Rightarrow> None | Some y \<Rightarrow> decode_members dec ms y)"

definition decode_struct :: "(bytes \<Rightarrow> jraw \<Rightarrow> 's \<Rightarrow> 's option) \<Rightarrow> jraw \<Rightarrow> 's \<Rightarrow> 's option" where
  "decode_struct dec v x =
     (case v of RNull \<Rightarrow> Some x | RObj ms \<Rightarrow> decode_members dec ms x | _ \<Rightarrow> None)"

definition decode_int :: "jraw \<Rightarrow> int \<Rightarrow> int option" where
  "decode_int v x =
     (case v of
        RNull \<Rightarrow> Some x
      | RNum l \<Rightarrow>
          if nl_frac l \<noteq> None \<or> nl_exp l \<noteq> None then None
          else (case ParseInt ((if nl_neg l then ''-'' else []) @ nl_int l) of (i, None) \<Rightarrow> Some i | _ \<Rightarrow> None)
      | _ \<Rightarrow> None)"

definition decode_string :: "jraw \<Rightarrow> bytes \<Rightarrow> bytes option" where
  "decode_string v x = (case v of RNull \<Rightarrow> Some x | RStr s \<Rightarrow> Some s | _ \<Rightarrow> None)"

text \<open>A pointer to a struct: \<^verbatim>\<open>null\<close> sets it to nil, another value is decoded into the struct it
  points to, a new one if it is nil.\<close>

definition decode_ptr :: "'s \<Rightarrow> (jraw \<Rightarrow> 's \<Rightarrow> 's option) \<Rightarrow> jraw \<Rightarrow> 's option \<Rightarrow> 's option option" where
  "decode_ptr zero dec v p =
     (if v = RNull then Some None
      else map_option Some (dec v (case p of None \<Rightarrow> zero | Some x \<Rightarrow> x)))"

text \<open>A slice, by its backing array and its length: a repeated member decodes into the elements
  that are there.\<close>

fun decode_elems :: "'s \<Rightarrow> (jraw \<Rightarrow> 's \<Rightarrow> 's option) \<Rightarrow> jraw list \<Rightarrow> 's list \<Rightarrow> 's list option" where
  "decode_elems zero dec [] old = Some []"
| "decode_elems zero dec (v # vs) old =
     (case dec v (case old of [] \<Rightarrow> zero | x # _ \<Rightarrow> x) of
        None \<Rightarrow> None
      | Some y \<Rightarrow> map_option ((#) y) (decode_elems zero dec vs (drop 1 old)))"

definition decode_slice :: "'s \<Rightarrow> (jraw \<Rightarrow> 's \<Rightarrow> 's option) \<Rightarrow> jraw \<Rightarrow> 's list \<times> nat \<Rightarrow> ('s list \<times> nat) option" where
  "decode_slice zero dec v sl =
     (case v of
        RNull \<Rightarrow> Some ([], 0)
      | RArr [] \<Rightarrow> Some ([], 0)
      | RArr vs \<Rightarrow> map_option (\<lambda>ys. (ys @ drop (length ys) (fst sl), length ys)) (decode_elems zero dec vs (fst sl))
      | _ \<Rightarrow> None)"

text \<open>\<^verbatim>\<open>json.Unmarshal\<close> into a \<^verbatim>\<open>[]string\<close>, \<open>None\<close> on an error.\<close>

definition Unmarshal_strings :: "bytes \<Rightarrow> string list option" where
  "Unmarshal_strings s =
     (case parse_text s of
        None \<Rightarrow> None
      | Some t \<Rightarrow> map_option (\<lambda>(xs, n). take n xs) (decode_slice [] decode_string t ([], 0)))"

definition Marshal_strings :: "string list \<Rightarrow> bytes" where
  "Marshal_strings xs = Marshal (JArr (map JStr xs))"

section \<open>Evaluation\<close>

text \<open>Rewrite rules that run the decoder on a concrete text.\<close>

lemma max_depth_gt: "0 < max_depth" "Suc 0 < max_depth" "numeral k < max_depth \<longleftrightarrow> (numeral k :: nat) < 10000"
  by (simp_all add: max_depth_def)

lemmas parse_numeral = parse_value.simps(2) [of "pred_numeral k" for k, folded numeral_eq_Suc]
  parse_elems.simps(2) [of "pred_numeral k" for k, folded numeral_eq_Suc]
  parse_members.simps(2) [of "pred_numeral k" for k, folded numeral_eq_Suc]

lemmas json_eval = parse_numeral parse_value.simps parse_elems.simps parse_members.simps max_depth_gt not_le
  Unmarshal_map_def Unmarshal_any_def parse_text_def skip_ws_def is_ws_def HasPrefix_def parse_string.simps
  string_step_def is_ascii_def unescape_def

end
