(* ===== verification/Go_Url.thy ===== *)
theory Go_Url
  imports Go_Json
begin

text \<open>
  What the handlers use of \<^verbatim>\<open>net/url\<close>: \<^verbatim>\<open>URL.Query\<close>, which splits the raw query at \<^verbatim>\<open>&\<close> and \<^verbatim>\<open>=\<close> and decodes
  the parts, skipping those it cannot decode, and \<^verbatim>\<open>Values.Get\<close>.  The lemma \<open>query_roundtrip\<close> is that
  an escaped pair is read back.
\<close>

section \<open>Model\<close>

text \<open>\<^verbatim>\<open>QueryUnescape\<close>.\<close>

fun QueryUnescape :: "string \<Rightarrow> string option" where
  "QueryUnescape [] = Some []"
| "QueryUnescape (c # s) =
     (if c = CHR 0x25
      then (case s of
              a # b # r \<Rightarrow>
                (case (hex_val a, hex_val b) of
                   (Some x, Some y) \<Rightarrow> map_option ((#) (char_of (16 * x + y))) (QueryUnescape r)
                 | _ \<Rightarrow> None)
            | _ \<Rightarrow> None)
      else map_option ((#) (if c = CHR ''+'' then CHR '' '' else c)) (QueryUnescape s))"

text \<open>\<^verbatim>\<open>strings.Cut(s, "=")\<close>: the parts before and after the first occurrence.\<close>

fun cut_at :: "char \<Rightarrow> string \<Rightarrow> string \<times> string" where
  "cut_at c [] = ([], [])"
| "cut_at c (x # s) = (if x = c then ([], s) else (case cut_at c s of (a, b) \<Rightarrow> (x # a, b)))"

type_synonym url_values = "(string \<times> string) list"

text \<open>The pairs in the order of the query; the values of a key are those of its pairs.\<close>

fun parse_pairs :: "string list \<Rightarrow> url_values" where
  "parse_pairs [] = []"
| "parse_pairs (seg # segs) =
     (if CHR '';'' \<in> set seg then parse_pairs segs
      else if seg = [] then parse_pairs segs
      else (case cut_at (CHR ''='') seg of (k, v) \<Rightarrow>
              (case (QueryUnescape k, QueryUnescape v) of
                 (Some k', Some v') \<Rightarrow> (k', v') # parse_pairs segs
               | _ \<Rightarrow> parse_pairs segs)))"

definition url_Query :: "string \<Rightarrow> url_values" where
  "url_Query rawQuery = (if rawQuery = [] then [] else parse_pairs (split_char (CHR ''&'') rawQuery))"

definition values_Get :: "url_values \<Rightarrow> string \<Rightarrow> string" where
  "values_Get vs k = (case map_of vs k of None \<Rightarrow> [] | Some v \<Rightarrow> v)"

section \<open>Reading an escaped pair\<close>

text \<open>Letters and digits stand for themselves in a query, any other byte may be written in two
  hexadecimal digits.\<close>

definition query_plain :: "char \<Rightarrow> bool" where
  "query_plain c \<longleftrightarrow> is_digit c \<or> in_range 65 90 c \<or> in_range 97 122 c"

definition QueryEscape :: "string \<Rightarrow> string" where
  "QueryEscape s =
     concat (map (\<lambda>c. if query_plain c then [c]
                      else [CHR 0x25, hex_digit (of_char c div 16), hex_digit (of_char c mod 16)]) s)"

lemma url_hex_digit: "n < 16 \<Longrightarrow> hex_val (hex_digit n) = Some n"
  by (auto simp: hex_val_def hex_digit_def is_digit_def digit_val_def in_range_def digit_def)

lemma query_plain_simps: "query_plain c \<Longrightarrow> c \<noteq> CHR 0x25 \<and> c \<noteq> CHR ''+'' \<and> c \<noteq> CHR ''&'' \<and> c \<noteq> CHR ''='' \<and> c \<noteq> CHR '';''"
  by (auto simp: query_plain_def is_digit_def in_range_def)

lemma hex_digit_plain: "n < 16 \<Longrightarrow> query_plain (hex_digit n)"
  by (auto simp: query_plain_def hex_digit_def is_digit_def in_range_def digit_def)

lemma escape_bytes: "set (QueryEscape s) \<subseteq> {c. query_plain c} \<union> {CHR 0x25}"
proof -
  have "hex_digit (of_char c div 16) \<in> {c. query_plain c} \<and> hex_digit (of_char c mod 16) \<in> {c. query_plain c}" for c
    using hex_digit_plain [of "of_char c div 16"] hex_digit_plain [of "of_char c mod 16"] nat_of_char_less_256 [of c]
    by (simp add: div_less_iff_less_mult del: nat_of_char_less_256)
  then show ?thesis by (auto simp: QueryEscape_def)
qed

lemma unescape_escape: "QueryUnescape (QueryEscape s) = Some s"
proof (induction s)
  case (Cons c s)
  have n: "(of_char c :: nat) div 16 < 16" "(of_char c :: nat) mod 16 < 16"
    using nat_of_char_less_256 [of c] by (simp_all add: div_less_iff_less_mult del: nat_of_char_less_256)
  have "char_of (16 * (of_char c div 16) + of_char c mod 16 :: nat) = c" by simp
  then show ?case
    using Cons query_plain_simps [of c] url_hex_digit [OF n(1)] url_hex_digit [OF n(2)]
    by (auto simp: QueryEscape_def)
qed (simp add: QueryEscape_def)

lemma cut_at_append: "c \<notin> set a \<Longrightarrow> cut_at c (a @ c # b) = (a, b)"
  by (induction a) auto

lemma escape_free:
  "c \<in> {CHR ''&'', CHR ''='', CHR '';''} \<Longrightarrow> c \<notin> set (QueryEscape s)"
  using escape_bytes [of s] query_plain_simps [of c] by auto

lemma query_roundtrip: "values_Get (url_Query (QueryEscape k @ ''='' @ QueryEscape v)) k = v"
  using escape_free [of "CHR ''&''"] escape_free [of "CHR '';''"] escape_free [of "CHR ''=''"]
  by (simp add: url_Query_def values_Get_def split_char_none cut_at_append unescape_escape)

end
