(* ===== verification/Metrics.thy ===== *)
theory Metrics
  imports Go_Text "HOL-Library.Word" "HOL-Library.Sublist"
begin

text \<open>
  The metrics registry of \<^verbatim>\<open>internal/metrics/metrics.go\<close>.  A \<^verbatim>\<open>sync.Map\<close> of counters is a finite
  map; \<^verbatim>\<open>Range\<close> visits its keys in an order that is an argument of \<open>WritePrometheus\<close>.  An
  \<^verbatim>\<open>atomic.Uint64\<close> is a word of 64 bits, an \<^verbatim>\<open>atomic.Int64\<close> an integer reduced by \<^const>\<open>i64\<close>.  The lemmas
  show that each counter holds the number of its calls, that labels are never shared, and
  what a model name that holds a line break does to the text of the exposition.
\<close>

section \<open>Model\<close>

record Registry =
  requestsTotal :: "string \<rightharpoonup> 64 word"
  tokensTotal :: "string \<rightharpoonup> 64 word"
  queueLength :: "string \<rightharpoonup> int"
  workerBusyCount :: int

definition metrics_Default :: Registry where
  "metrics_Default = \<lparr>requestsTotal = Map.empty, tokensTotal = Map.empty, queueLength = Map.empty, workerBusyCount = 0\<rparr>"

text \<open>\<^verbatim>\<open>LoadOrStore(label, zero)\<close>, then the operation on the counter found.\<close>

definition getCounter :: "(string \<rightharpoonup> 64 word) \<Rightarrow> string \<Rightarrow> 64 word" where
  "getCounter m label = (case m label of None \<Rightarrow> 0 | Some v \<Rightarrow> v)"

definition getGauge :: "(string \<rightharpoonup> int) \<Rightarrow> string \<Rightarrow> int" where
  "getGauge m label = (case m label of None \<Rightarrow> 0 | Some v \<Rightarrow> v)"

definition quoted :: "string \<Rightarrow> string" where
  "quoted s = CHR 0x22 # s @ [CHR 0x22]"

definition requests_label :: "string \<Rightarrow> string \<Rightarrow> string" where
  "requests_label model status = ''model='' @ quoted model @ '',status='' @ quoted status"

definition tokens_label :: "string \<Rightarrow> string \<Rightarrow> string" where
  "tokens_label model tokenType = ''model='' @ quoted model @ '',type='' @ quoted tokenType"

definition IncRequests :: "string \<Rightarrow> string \<Rightarrow> Registry \<Rightarrow> Registry" where
  "IncRequests model status r =
     (let label = requests_label model status
      in r\<lparr>requestsTotal := (requestsTotal r)(label \<mapsto> getCounter (requestsTotal r) label + 1)\<rparr>)"

definition AddTokens :: "string \<Rightarrow> string \<Rightarrow> int \<Rightarrow> Registry \<Rightarrow> Registry" where
  "AddTokens model tokenType n r =
     (if n \<le> 0 then r
      else let label = tokens_label model tokenType
           in r\<lparr>tokensTotal := (tokensTotal r)(label \<mapsto> getCounter (tokensTotal r) label + of_int n)\<rparr>)"

definition SetQueueLength :: "string \<Rightarrow> int \<Rightarrow> Registry \<Rightarrow> Registry" where
  "SetQueueLength model len r = r\<lparr>queueLength := (queueLength r)(model \<mapsto> len)\<rparr>"

definition IncWorkerBusy :: "Registry \<Rightarrow> Registry" where
  "IncWorkerBusy r = r\<lparr>workerBusyCount := i64 (workerBusyCount r + 1)\<rparr>"

definition DecWorkerBusy :: "Registry \<Rightarrow> Registry" where
  "DecWorkerBusy r = r\<lparr>workerBusyCount := i64 (workerBusyCount r - 1)\<rparr>"

definition newline :: string where
  "newline = [CHR 0x0A]"

text \<open>The writes of the exposition: one line per key, in the order of \<^verbatim>\<open>Range\<close>.\<close>

definition counter_lines :: "string \<Rightarrow> (string \<rightharpoonup> 64 word) \<Rightarrow> string list \<Rightarrow> string list" where
  "counter_lines name m ks =
     map (\<lambda>k. name @ ''{'' @ k @ ''} '' @ format_nat (unat (getCounter m k)) @ newline) ks"

definition gauge_lines :: "(string \<rightharpoonup> int) \<Rightarrow> string list \<Rightarrow> string list" where
  "gauge_lines m ks =
     map (\<lambda>k. ''proxyllm_queue_length{model='' @ quoted k @ ''} '' @ FormatInt (getGauge m k) @ newline) ks"

definition WritePrometheus :: "string list \<Rightarrow> string list \<Rightarrow> string list \<Rightarrow> Registry \<Rightarrow> string list" where
  "WritePrometheus rs ts qs r =
     [''# HELP proxyllm_requests_total Total number of requests processed.'' @ newline,
      ''# TYPE proxyllm_requests_total counter'' @ newline] @
     counter_lines ''proxyllm_requests_total'' (requestsTotal r) rs @
     [''# HELP proxyllm_tokens_total Total number of tokens processed.'' @ newline,
      ''# TYPE proxyllm_tokens_total counter'' @ newline] @
     counter_lines ''proxyllm_tokens_total'' (tokensTotal r) ts @
     [''# HELP proxyllm_queue_length Current number of requests in queue.'' @ newline,
      ''# TYPE proxyllm_queue_length gauge'' @ newline] @
     gauge_lines (queueLength r) qs @
     [''# HELP proxyllm_worker_busy_count Current number of busy worker goroutines.'' @ newline,
      ''# TYPE proxyllm_worker_busy_count gauge'' @ newline,
      ''proxyllm_worker_busy_count '' @ FormatInt (workerBusyCount r) @ newline]"

section \<open>What the counters hold\<close>

text \<open>The calls the handlers and the workers make.\<close>

datatype metric_call =
    CIncRequests string string
  | CAddTokens string string int
  | CSetQueueLength string int
  | CIncBusy
  | CDecBusy

fun metric_step :: "metric_call \<Rightarrow> Registry \<Rightarrow> Registry" where
  "metric_step (CIncRequests m s) r = IncRequests m s r"
| "metric_step (CAddTokens m t n) r = AddTokens m t n r"
| "metric_step (CSetQueueLength m n) r = SetQueueLength m n r"
| "metric_step CIncBusy r = IncWorkerBusy r"
| "metric_step CDecBusy r = DecWorkerBusy r"

fun metric_run :: "metric_call list \<Rightarrow> Registry \<Rightarrow> Registry" where
  "metric_run [] r = r"
| "metric_run (c # cs) r = metric_run cs (metric_step c r)"

text \<open>A status or token type without a quotation mark determines the label's parts.\<close>

lemma takeWhile_before: "c \<notin> set s \<Longrightarrow> takeWhile (\<lambda>d. d \<noteq> c) (s @ c # x) = s"
  by (induction s) auto

lemma last_quote:
  assumes "x @ CHR 0x22 # s = x' @ CHR 0x22 # s'" "CHR 0x22 \<notin> set s" "CHR 0x22 \<notin> set s'"
  shows "x = x' \<and> s = s'"
proof -
  have "rev s @ CHR 0x22 # rev x = rev s' @ CHR 0x22 # rev x'"
    using arg_cong [OF assms(1), of rev] by simp
  then have "takeWhile (\<lambda>c. c \<noteq> CHR 0x22) (rev s @ CHR 0x22 # rev x) = takeWhile (\<lambda>c. c \<noteq> CHR 0x22) (rev s' @ CHR 0x22 # rev x')"
    by simp
  then have "rev s = rev s'" using assms(2,3) takeWhile_before [of "CHR 0x22"] by simp
  then show ?thesis using assms(1) by simp
qed

lemma requests_label_inj:
  assumes "CHR 0x22 \<notin> set s" "CHR 0x22 \<notin> set s'"
  shows "requests_label m s = requests_label m' s' \<longleftrightarrow> m = m' \<and> s = s'"
proof
  assume "requests_label m s = requests_label m' s'"
  then have "(quoted m @ '',status='') @ CHR 0x22 # s = (quoted m' @ '',status='') @ CHR 0x22 # s'"
    by (simp add: requests_label_def quoted_def)
  from last_quote [OF this assms] show "m = m' \<and> s = s'" by (simp add: quoted_def)
qed simp

lemma tokens_label_inj:
  assumes "CHR 0x22 \<notin> set s" "CHR 0x22 \<notin> set s'"
  shows "tokens_label m s = tokens_label m' s' \<longleftrightarrow> m = m' \<and> s = s'"
proof
  assume "tokens_label m s = tokens_label m' s'"
  then have "(quoted m @ '',type='') @ CHR 0x22 # s = (quoted m' @ '',type='') @ CHR 0x22 # s'"
    by (simp add: tokens_label_def quoted_def)
  from last_quote [OF this assms] show "m = m' \<and> s = s'" by (simp add: quoted_def)
qed simp

text \<open>The statuses and token types of a sequence of calls are quotation-free, as the constants
  the code passes are.\<close>

fun plain_call :: "metric_call \<Rightarrow> bool" where
  "plain_call (CIncRequests m s) \<longleftrightarrow> CHR 0x22 \<notin> set s"
| "plain_call (CAddTokens m t n) \<longleftrightarrow> CHR 0x22 \<notin> set t"
| "plain_call _ \<longleftrightarrow> True"

definition tokens_called :: "string \<Rightarrow> string \<Rightarrow> metric_call \<Rightarrow> int" where
  "tokens_called m t c = (case c of CAddTokens m' t' n \<Rightarrow> if m' = m \<and> t' = t \<and> 0 < n then n else 0 | _ \<Rightarrow> 0)"

definition busy_change :: "metric_call \<Rightarrow> int" where
  "busy_change c = (case c of CIncBusy \<Rightarrow> 1 | CDecBusy \<Rightarrow> -1 | _ \<Rightarrow> 0)"

lemma requests_step:
  assumes "plain_call c" "CHR 0x22 \<notin> set s"
  shows "getCounter (requestsTotal (metric_step c r)) (requests_label m s) =
    getCounter (requestsTotal r) (requests_label m s) + (if c = CIncRequests m s then 1 else 0)"
  using assms requests_label_inj
  by (cases c)
    (auto simp: IncRequests_def AddTokens_def SetQueueLength_def IncWorkerBusy_def DecWorkerBusy_def getCounter_def Let_def)

lemma tokens_step:
  assumes "plain_call c" "CHR 0x22 \<notin> set t"
  shows "getCounter (tokensTotal (metric_step c r)) (tokens_label m t) =
    getCounter (tokensTotal r) (tokens_label m t) + of_int (tokens_called m t c)"
  using assms tokens_label_inj
  by (cases c)
    (auto simp: IncRequests_def AddTokens_def SetQueueLength_def IncWorkerBusy_def DecWorkerBusy_def getCounter_def
      tokens_called_def Let_def)

lemma busy_step: "workerBusyCount (metric_step c r) = i64 (workerBusyCount r + busy_change c) \<or> busy_change c = 0 \<and> workerBusyCount (metric_step c r) = workerBusyCount r"
  by (cases c) (auto simp: IncRequests_def AddTokens_def SetQueueLength_def IncWorkerBusy_def DecWorkerBusy_def busy_change_def Let_def)

lemma requests_run:
  assumes "list_all plain_call cs" "CHR 0x22 \<notin> set s"
  shows "getCounter (requestsTotal (metric_run cs r)) (requests_label m s) =
    getCounter (requestsTotal r) (requests_label m s) + of_nat (count_list cs (CIncRequests m s))"
  using assms(1) by (induction cs arbitrary: r) (simp_all add: requests_step [OF _ assms(2)])

lemma tokens_run:
  assumes "list_all plain_call cs" "CHR 0x22 \<notin> set t"
  shows "getCounter (tokensTotal (metric_run cs r)) (tokens_label m t) =
    getCounter (tokensTotal r) (tokens_label m t) + of_int (sum_list (map (tokens_called m t) cs))"
  using assms(1) by (induction cs arbitrary: r) (simp_all add: tokens_step [OF _ assms(2)])

lemma busy_run:
  assumes "is_i64 (workerBusyCount r)"
  shows "workerBusyCount (metric_run cs r) = i64 (workerBusyCount r + sum_list (map busy_change cs))"
  using assms
proof (induction cs arbitrary: r)
  case (Cons c cs)
  show ?case
  proof (cases "busy_change c = 0")
    case True
    then have "workerBusyCount (metric_step c r) = workerBusyCount r"
      using busy_step [of c r] Cons.prems by auto
    then show ?thesis using Cons True by simp
  next
    case False
    then have s: "workerBusyCount (metric_step c r) = i64 (workerBusyCount r + busy_change c)"
      using busy_step [of c r] by auto
    then have "is_i64 (workerBusyCount (metric_step c r))" by simp
    from Cons.IH [OF this] show ?thesis by (simp add: s i64_add_left add.assoc)
  qed
qed simp

section \<open>The exposition\<close>

lemma sublist_mid: "sublist t m \<Longrightarrow> sublist t (a @ m @ b)"
  unfolding sublist_def by (metis append.assoc)

lemma split_char_line: "c \<notin> set l \<Longrightarrow> l \<in> set (split_char c (a @ c # l @ c # b))"
  by (simp add: split_char_append split_char_none)

text \<open>The exposition quotes the model name as it came from the client: a model name that holds
  a line of its own between line breaks puts that line, unchanged, among the samples (for
  instance a value of the worker gauge that no worker reported).\<close>

lemma forged_sample:
  assumes "m = x @ newline @ line @ newline @ y" "CHR 0x0A \<notin> set line" "requests_label m s \<in> set rs"
  shows "line \<in> set (split_char (CHR 0x0A) (concat (WritePrometheus rs ts qs (IncRequests m s r))))"
proof -
  let ?t = "newline @ line @ newline"
  have "sublist ?t m" unfolding assms(1) sublist_def by (metis append.assoc)
  then have "sublist ?t ((''proxyllm_requests_total{model='' @ [CHR 0x22]) @ m @ ([CHR 0x22] @ '',status='' @ quoted s @ u))" for u
    by (rule sublist_mid)
  then have t: "sublist ?t (''proxyllm_requests_total{'' @ requests_label m s @ u)" for u
    by (simp add: requests_label_def quoted_def)
  obtain r1 r2 where rs: "rs = r1 @ requests_label m s # r2" using assms(3) by (metis in_set_conv_decomp)
  obtain l u where "l = ''proxyllm_requests_total{'' @ requests_label m s @ u"
      "l \<in> set (WritePrometheus rs ts qs (IncRequests m s r))"
    by (auto simp: WritePrometheus_def counter_lines_def rs)
  with t have "\<exists>l\<in>set (WritePrometheus rs ts qs (IncRequests m s r)). sublist ?t l" by blast
  then obtain l p q where "sublist ?t l" "WritePrometheus rs ts qs (IncRequests m s r) = p @ l # q" by (metis in_set_conv_decomp)
  then have "sublist ?t (concat (WritePrometheus rs ts qs (IncRequests m s r)))" using sublist_mid by simp
  then obtain a b where "concat (WritePrometheus rs ts qs (IncRequests m s r)) = a @ newline @ line @ newline @ b"
    by (auto simp: sublist_def)
  then show ?thesis using split_char_line [OF assms(2)] by (simp add: newline_def)
qed

end
