(* ===== verification/Chain_Log.thy ===== *)
theory Chain_Log
  imports Request_Queue Http Float64
begin

text \<open>
  The request log of \<^verbatim>\<open>internal/logging/chain_logger.go\<close>: the classification of failures that
  steers the retries, the helpers on identifiers, addresses and durations, and the log
  calls.  A log call returns the lines it emits; only \<^verbatim>\<open>LogRateLimitCheck\<close> has state, two atomic
  counters.  Its atomic operations are modelled as one step, in which the compare-and-swap
  succeeds.
\<close>

section \<open>Failure classes\<close>

definition ClassifyError :: "goerror option \<Rightarrow> int \<Rightarrow> string" where
  "ClassifyError err statusCode =
     (case err of
        None \<Rightarrow>
          (if statusCode \<ge> 500 then ''upstream_5xx''
           else if statusCode = 429 then ''upstream_429''
           else if statusCode \<ge> 400 then ''upstream_4xx''
           else ''unknown'')
      | Some e \<Rightarrow>
          (if err_deadline e then ''upstream_timeout''
           else if err_canceled e then ''client_cancelled''
           else if str_Contains (err_text e) ''connection refused'' then ''connection_refused''
           else if str_Contains (err_text e) ''connection reset'' then ''connection_reset''
           else if str_Contains (err_text e) ''no such host'' then ''dns_error''
           else ''unknown_error''))"

definition IsRetryable :: "string \<Rightarrow> bool" where
  "IsRetryable errorType \<longleftrightarrow>
     errorType \<in> {''upstream_timeout'', ''upstream_5xx'', ''upstream_429'', ''connection_refused'',
                 ''connection_reset'', ''dns_error''}"

section \<open>Helpers\<close>

definition short :: "string \<Rightarrow> string" where
  "short ident = (if length ident > 8 then take 8 ident else ident)"

text \<open>\<^verbatim>\<open>%.1f\<close> prints the float's exact value rounded to one decimal, ties to even.\<close>

definition fmtMs :: "int \<Rightarrow> string" where
  "fmtMs ms =
     (if ms < 1000 then FormatInt ms @ ''ms''
      else let tenths = round_even (10 * f64 (f64 (of_int ms) / 1000))
           in FormatInt (tenths div 10) @ ''.'' @ FormatInt (tenths mod 10) @ ''s'')"

fun last_index :: "char \<Rightarrow> string \<Rightarrow> nat option" where
  "last_index c [] = None"
| "last_index c (x # xs) =
     (case last_index c xs of Some i \<Rightarrow> Some (Suc i) | None \<Rightarrow> if x = c then Some 0 else None)"

fun first_index :: "char \<Rightarrow> string \<Rightarrow> nat option" where
  "first_index c [] = None"
| "first_index c (x # xs) = (if x = c then Some 0 else map_option Suc (first_index c xs))"

text \<open>\<^verbatim>\<open>net.SplitHostPort\<close>, the host part; \<open>None\<close> is an error.\<close>

definition split_host :: "string \<Rightarrow> string option" where
  "split_host hostport =
     (case last_index CHR '':'' hostport of
        None \<Rightarrow> None
      | Some i \<Rightarrow>
          if hostport ! 0 = CHR ''['' then
            (case first_index CHR '']'' hostport of
               None \<Rightarrow> None
             | Some e \<Rightarrow>
                 if e + 1 = i \<and> CHR ''['' \<notin> set (drop 1 hostport) \<and> CHR '']'' \<notin> set (drop (e + 1) hostport)
                 then Some (drop 1 (take e hostport)) else None)
          else if CHR '':'' \<in> set (take i hostport) \<or> CHR ''['' \<in> set hostport \<or> CHR '']'' \<in> set hostport
               then None else Some (take i hostport))"

definition extractClientIP :: "header \<Rightarrow> string \<Rightarrow> string" where
  "extractClientIP headers remoteAddr =
     (if header_Get headers ''X-Forwarded-For'' \<noteq> []
      then hd (split_char CHR '','' (header_Get headers ''X-Forwarded-For''))
      else if header_Get headers ''X-Real-IP'' \<noteq> [] then header_Get headers ''X-Real-IP''
      else case split_host remoteAddr of Some host \<Rightarrow> host | None \<Rightarrow> remoteAddr)"

definition Milliseconds :: "duration \<Rightarrow> int" where
  "Milliseconds d = go_div d Millisecond"

section \<open>Log calls\<close>

datatype log_level = LInfo | LWarn | LError

record log_line =
  ll_level :: log_level
  ll_msg :: string
  ll_attrs :: "(string \<times> string) list"

definition slog :: "log_level \<Rightarrow> string \<Rightarrow> (string \<times> string) list \<Rightarrow> log_line" where
  "slog lvl msg attrs = \<lparr>ll_level = lvl, ll_msg = msg, ll_attrs = attrs\<rparr>"

definition LogRequestReceived :: "PendingRequest \<Rightarrow> log_line list" where
  "LogRequestReceived req =
     [slog LInfo (bytes_of [0xE2, 0x86, 0x92] @ '' REQ'')
        [(''id'', short (p_ID req)), (''model'', p_ModelAlias req), (''key'', short (p_APIKeyID req)),
         (''ip'', extractClientIP (p_Headers req) (p_RemoteAddr req))]]"

definition LogEnqueued :: "PendingRequest \<Rightarrow> int \<Rightarrow> int \<Rightarrow> log_line list" where
  "LogEnqueued req position len =
     (if len > 1
      then [slog LInfo (bytes_of [0xE2, 0x87, 0xA2] @ '' QUEUE'')
              [(''id'', short (p_ID req)), (''pos'', FormatInt position), (''len'', FormatInt len)]]
      else [])"

definition LogDequeued :: "gotime \<Rightarrow> PendingRequest \<Rightarrow> string \<Rightarrow> log_line list" where
  "LogDequeued now req workerID =
     (let waitMs = Milliseconds (now - p_Timestamp req)
      in if waitMs > 500
         then [slog LInfo (bytes_of [0xE2, 0x87, 0xA0] @ '' DEQUEUE'')
                 [(''id'', short (p_ID req)), (''worker'', workerID), (''wait'', fmtMs waitMs)]]
         else [])"

record ChainLogger =
  cl_blocked :: int
  cl_lastLog :: int

definition NewChainLogger :: ChainLogger where
  "NewChainLogger = \<lparr>cl_blocked = 0, cl_lastLog = 0\<rparr>"

definition LogRateLimitCheck ::
  "gotime \<Rightarrow> ChainLogger \<Rightarrow> bool \<Rightarrow> RateLimitStatus \<Rightarrow> log_line list \<times> ChainLogger" where
  "LogRateLimitCheck now l allowed st =
     (if allowed then ([], l)
      else let count = i64 (cl_blocked l + 1); l1 = l\<lparr>cl_blocked := count\<rparr>; sec = Unix now
           in if sec - cl_lastLog l < 5 then ([], l1)
              else ([slog LWarn (bytes_of [0xE2, 0x9A, 0xA0] @ '' RATELIMIT'')
                       [(''blocked'', FormatInt count), (''reason'', BlockReason st),
                        (''rpm'', FormatInt (RPMCurrent st) @ ''/'' @ FormatInt (RPMLimit st)),
                        (''tpm'', FormatInt (TPMCurrent st) @ ''/'' @ FormatInt (TPMLimit st))]],
                    l1\<lparr>cl_lastLog := sec, cl_blocked := 0\<rparr>))"

definition LogNodeAttemptStart :: "PendingRequest \<Rightarrow> int \<Rightarrow> ModelNode \<Rightarrow> log_line list" where
  "LogNodeAttemptStart req attempt node =
     (if attempt > 1
      then [slog LInfo (bytes_of [0xE2, 0x86, 0xBB] @ '' RETRY'')
              [(''id'', short (p_ID req)), (''attempt'', FormatInt attempt), (''node'', n_Name node)]]
      else [])"

definition LogNodeAttemptFailed ::
  "PendingRequest \<Rightarrow> ModelNode \<Rightarrow> goerror option \<Rightarrow> int \<Rightarrow> int \<Rightarrow> bool \<Rightarrow> log_line list" where
  "LogNodeAttemptFailed req node err statusCode durationMs willRetry =
     [slog LError (bytes_of [0xE2, 0x9C, 0x97] @ '' NODE FAIL'')
        [(''id'', short (p_ID req)), (''node'', n_Name node), (''status'', FormatInt statusCode),
         (''error'', case err of None \<Rightarrow> ClassifyError err statusCode | Some e \<Rightarrow> err_text e),
         (''time'', fmtMs durationMs), (''retry'', if willRetry then ''yes'' else ''no'')]]"

definition LogRequestCompleted :: "gotime \<Rightarrow> PendingRequest \<Rightarrow> ExecutionResult \<Rightarrow> log_line list" where
  "LogRequestCompleted now req result =
     [slog LInfo (bytes_of [0xE2, 0x9C, 0x93] @ '' DONE'')
        [(''id'', short (p_ID req)), (''model'', p_ModelAlias req), (''node'', x_FinalNodeID result),
         (''tokens'', FormatInt (x_PromptTokens result) @ ''/'' @ FormatInt (x_CompletionTokens result) @
            ''/'' @ FormatInt (x_TotalTokens result)),
         (''time'', fmtMs (Milliseconds (now - p_Timestamp req))),
         (''attempts'', FormatInt (int (length (x_Attempts result))))]]"

definition LogRequestFailed :: "gotime \<Rightarrow> PendingRequest \<Rightarrow> AttemptLog list \<Rightarrow> log_line list" where
  "LogRequestFailed now req attempts =
     [slog LError (bytes_of [0xE2, 0x9C, 0x97] @ '' FAILED'')
        [(''id'', short (p_ID req)), (''model'', p_ModelAlias req),
         (''attempts'', FormatInt (int (length attempts))),
         (''nodes'', join_strings ('' '' @ bytes_of [0xE2, 0x86, 0x92] @ '' '')
            (map (\<lambda>a. a_NodeID a @ ''('' @ a_ErrorType a @ '')'') attempts)),
         (''time'', fmtMs (Milliseconds (now - p_Timestamp req)))]]"

definition LogRequestTimeout :: "gotime \<Rightarrow> PendingRequest \<Rightarrow> int \<Rightarrow> log_line list" where
  "LogRequestTimeout now req maxWaitSec =
     [slog LError (bytes_of [0xE2, 0x8F, 0xB1] @ '' TIMEOUT'')
        [(''id'', short (p_ID req)), (''model'', p_ModelAlias req),
         (''waited'', fmtMs (Milliseconds (now - p_Timestamp req))),
         (''limit'', FormatInt maxWaitSec @ ''s'')]]"

definition LogRequestCancelled :: "gotime \<Rightarrow> PendingRequest \<Rightarrow> int \<Rightarrow> log_line list" where
  "LogRequestCancelled now req currentAttempt =
     [slog LWarn (bytes_of [0xE2, 0x8A, 0x98] @ '' CANCELLED'')
        [(''id'', short (p_ID req)), (''model'', p_ModelAlias req),
         (''time'', fmtMs (Milliseconds (now - p_Timestamp req))),
         (''at_attempt'', FormatInt currentAttempt)]]"

section \<open>Runs of rate-limit checks\<close>

fun check_run :: "(gotime \<times> bool \<times> RateLimitStatus) list \<Rightarrow> ChainLogger \<Rightarrow> log_line list \<times> ChainLogger" where
  "check_run [] l = ([], l)"
| "check_run ((now, allowed, st) # evs) l =
     (let (ls, l1) = LogRateLimitCheck now l allowed st; (ls', l2) = check_run evs l1
      in (ls @ ls', l2))"

text \<open>The number of blocked requests a line reports.\<close>

definition reported :: "log_line \<Rightarrow> int" where
  "reported x = (case map_of (ll_attrs x) ''blocked'' of Some s \<Rightarrow> fst (ParseInt s) | None \<Rightarrow> 0)"

definition blocked_count :: "(gotime \<times> bool \<times> RateLimitStatus) list \<Rightarrow> int" where
  "blocked_count evs = int (length (filter (\<lambda>(_, allowed, _). \<not> allowed) evs))"

lemma check_step:
  assumes "0 \<le> cl_blocked l" "cl_blocked l + 1 < 2 ^ 63"
  shows "sum_list (map reported (fst (LogRateLimitCheck now l allowed st))) +
      cl_blocked (snd (LogRateLimitCheck now l allowed st)) = cl_blocked l + (if allowed then 0 else 1) \<and>
    0 \<le> cl_blocked (snd (LogRateLimitCheck now l allowed st)) \<and>
    0 \<le> sum_list (map reported (fst (LogRateLimitCheck now l allowed st)))"
proof -
  have "is_i64 (cl_blocked l + 1)" using assms by (simp add: is_i64_def)
  then show ?thesis using assms
    by (auto simp: LogRateLimitCheck_def Let_def slog_def reported_def ParseInt_FormatInt)
qed

section \<open>Properties\<close>

text \<open>Which failures are retried: with a response, the statuses from 500 up and 429; without one,
  a passed deadline, and, unless the client has gone, a refused or reset connection or a
  host name that does not resolve.\<close>

theorem retryable_iff:
  "IsRetryable (ClassifyError err sc) \<longleftrightarrow>
     (case err of
        None \<Rightarrow> sc \<ge> 500 \<or> sc = 429
      | Some e \<Rightarrow> err_deadline e \<or> (\<not> err_canceled e \<and>
          (\<exists>s\<in>{''connection refused'', ''connection reset'', ''no such host''}.
             \<exists>a b. err_text e = a @ s @ b)))"
proof (cases err)
  case (Some e)
  have "str_Contains (err_text e) s \<longleftrightarrow> (\<exists>a b. err_text e = a @ s @ b)" for s
    by (rule str_Contains_iff)
  then show ?thesis by (simp add: Some ClassifyError_def IsRetryable_def)
qed (simp add: ClassifyError_def IsRetryable_def)

text \<open>No blocked request goes unreported: over any run of checks, the counts in the emitted lines
  and the count still held add up to the number of blocked requests.\<close>

theorem blocked_all_reported:
  assumes "0 \<le> cl_blocked l" "cl_blocked l + int (length evs) < 2 ^ 63"
  shows "sum_list (map reported (fst (check_run evs l))) + cl_blocked (snd (check_run evs l)) =
    cl_blocked l + blocked_count evs"
  using assms
proof (induction evs arbitrary: l)
  case (Cons ev evs)
  obtain now allowed st where ev: "ev = (now, allowed, st)" by (cases ev)
  obtain ls l1 where c: "LogRateLimitCheck now l allowed st = (ls, l1)" by (meson surj_pair)
  obtain ls' l2 where r: "check_run evs l1 = (ls', l2)" by (meson surj_pair)
  have s: "sum_list (map reported ls) + cl_blocked l1 = cl_blocked l + (if allowed then 0 else 1)"
      "0 \<le> cl_blocked l1" "0 \<le> sum_list (map reported ls)"
    using check_step [of l now allowed st] Cons.prems by (auto simp: c)
  then have "sum_list (map reported ls') + cl_blocked l2 = cl_blocked l1 + blocked_count evs"
    using Cons.IH [of l1] Cons.prems r by (auto split: if_splits)
  then show ?case using s c r by (auto simp: ev blocked_count_def)
qed (simp add: blocked_count_def)

definition blocked_status :: RateLimitStatus where
  "blocked_status = \<lparr>RPMCurrent = 61, RPMLimit = 60, TPMCurrent = 0, TPMLimit = 0, BlockReason = ''limit_exceeded''\<rparr>"

theorem blocked_all_reported_witness:
  "sum_list (map reported (fst (check_run [(0, False, blocked_status), (1, True, blocked_status)] NewChainLogger))) +
     cl_blocked (snd (check_run [(0, False, blocked_status), (1, True, blocked_status)] NewChainLogger)) = 1"
  using blocked_all_reported [of NewChainLogger "[(0, False, blocked_status), (1, True, blocked_status)]"]
  by (simp add: NewChainLogger_def blocked_count_def)

end
