(* ===== verification/Async_Log.thy ===== *)
theory Async_Log
  imports Chain_Log "HOL-Library.Multiset"
begin

text \<open>
  The asynchronous logger of \<^verbatim>\<open>internal/logging/logger.go\<close>: two buffered channels, a worker that
  empties each of them in batches, \<^verbatim>\<open>Flush\<close> and \<^verbatim>\<open>Close\<close>.

  A \<open>lane\<close> is one channel with its worker: the buffer, the batch, the phase of the worker's
  loop, and the entries the calling goroutine of \<^verbatim>\<open>Flush\<close> has received.  Three history fields
  record what was accepted, dropped and handed to the database.  Each alternative of a
  \<^verbatim>\<open>select\<close> is an event with the condition under which Go may choose it; the events of the
  workers, of the callers and of \<^verbatim>\<open>Flush\<close> interleave freely.  A send on a channel without a free
  place succeeds if the worker is waiting to receive (\<open>ready\<close>).  The two bulk inserts are
  arguments.

  The lemmas show that no accepted entry is lost or handed over twice, in whatever order the
  goroutines run, that a batch stays below its limit, and that after \<^verbatim>\<open>Close\<close> the worker hands
  over everything that is left and ends.
\<close>

section \<open>One channel and its worker\<close>

datatype worker_phase = Running | Draining | Exited

record 'a lane =
  ln_items :: "'a list"
  ln_cap :: nat
  ln_batch :: "'a list"
  ln_phase :: worker_phase
  ln_flushing :: "'a list"
  ln_accepted :: "'a list"
  ln_dropped :: "'a list"
  ln_handed :: "'a list list"

definition new_lane :: "nat \<Rightarrow> 'a lane" where
  "new_lane n = \<lparr>ln_items = [], ln_cap = n, ln_batch = [], ln_phase = Running, ln_flushing = [],
                 ln_accepted = [], ln_dropped = [], ln_handed = []\<rparr>"

text \<open>\<^verbatim>\<open>select { case ch <- x: default: }\<close>.\<close>

definition lane_send :: "bool \<Rightarrow> 'a \<Rightarrow> 'a lane \<Rightarrow> bool \<times> 'a lane" where
  "lane_send ready x la =
     (if length (ln_items la) < ln_cap la \<or> ready \<and> ln_items la = []
      then (True, la\<lparr>ln_items := ln_items la @ [x], ln_accepted := ln_accepted la @ [x]\<rparr>)
      else (False, la\<lparr>ln_dropped := ln_dropped la @ [x]\<rparr>))"

text \<open>A batch handed to a bulk insert; an error is logged.  The lane, the database and the lines
  logged form the state of a worker.\<close>

type_synonym ('a, 'd) lane_state = "'a lane \<times> 'd \<times> log_line list"
type_synonym ('a, 'd) bulk_insert = "'a list \<Rightarrow> 'd \<Rightarrow> goerror option \<times> 'd"

definition hand_over ::
  "('a, 'd) bulk_insert \<Rightarrow> (goerror \<Rightarrow> nat \<Rightarrow> log_line) \<Rightarrow> 'a list \<Rightarrow> ('a, 'd) lane_state \<Rightarrow> ('a, 'd) lane_state" where
  "hand_over ins report b st =
     (case st of (la, db, lg) \<Rightarrow>
        (case ins b db of (err, db') \<Rightarrow>
           (la\<lparr>ln_handed := ln_handed la @ [b]\<rparr>, db',
            case err of None \<Rightarrow> lg | Some e \<Rightarrow> lg @ [report e (length b)])))"

text \<open>The local function \<^verbatim>\<open>flush\<close> of a worker.\<close>

definition lane_flush ::
  "('a, 'd) bulk_insert \<Rightarrow> (goerror \<Rightarrow> nat \<Rightarrow> log_line) \<Rightarrow> ('a, 'd) lane_state \<Rightarrow> ('a, 'd) lane_state" where
  "lane_flush ins report st =
     (case st of (la, db, lg) \<Rightarrow>
        if length (ln_batch la) = 0 then st
        else (case hand_over ins report (ln_batch la) st of (la', db', lg') \<Rightarrow>
                (la'\<lparr>ln_batch := []\<rparr>, db', lg')))"

datatype worker_event = Recv | Tick | StopSeen | DrainRecv | DrainEnd

text \<open>One round of the worker's loop; \<open>stop\<close> is whether \<^verbatim>\<open>stopCh\<close> is closed.\<close>

definition worker_step ::
  "('a, 'd) bulk_insert \<Rightarrow> (goerror \<Rightarrow> nat \<Rightarrow> log_line) \<Rightarrow> nat \<Rightarrow> bool \<Rightarrow> worker_event \<Rightarrow>
   ('a, 'd) lane_state \<Rightarrow> ('a, 'd) lane_state option" where
  "worker_step ins report maxBatch stop ev st =
     (case st of (la, db, lg) \<Rightarrow>
      (case ev of
         Recv \<Rightarrow>
           (case ln_items la of
              x # xs \<Rightarrow>
                if ln_phase la = Running
                then let st1 = (la\<lparr>ln_items := xs, ln_batch := ln_batch la @ [x]\<rparr>, db, lg)
                     in Some (if length (ln_batch la @ [x]) \<ge> maxBatch then lane_flush ins report st1 else st1)
                else None
            | [] \<Rightarrow> None)
       | Tick \<Rightarrow> if ln_phase la = Running then Some (lane_flush ins report st) else None
       | StopSeen \<Rightarrow> if ln_phase la = Running \<and> stop then Some (la\<lparr>ln_phase := Draining\<rparr>, db, lg) else None
       | DrainRecv \<Rightarrow>
           (case ln_items la of
              x # xs \<Rightarrow>
                if ln_phase la = Draining
                then Some (la\<lparr>ln_items := xs, ln_batch := ln_batch la @ [x]\<rparr>, db, lg) else None
            | [] \<Rightarrow> None)
       | DrainEnd \<Rightarrow>
           (if ln_phase la = Draining \<and> ln_items la = []
            then (case lane_flush ins report st of (la', db', lg') \<Rightarrow> Some (la'\<lparr>ln_phase := Exited\<rparr>, db', lg'))
            else None)))"

text \<open>One round of a loop of \<^verbatim>\<open>Flush\<close>: receive, or, with the channel empty, hand over what was
  received; the result says whether the loop is done.\<close>

definition flush_round ::
  "('a, 'd) bulk_insert \<Rightarrow> (goerror \<Rightarrow> nat \<Rightarrow> log_line) \<Rightarrow> ('a, 'd) lane_state \<Rightarrow> bool \<times> ('a, 'd) lane_state" where
  "flush_round ins report st =
     (case st of (la, db, lg) \<Rightarrow>
      (case ln_items la of
         x # xs \<Rightarrow> (False, (la\<lparr>ln_items := xs, ln_flushing := ln_flushing la @ [x]\<rparr>, db, lg))
       | [] \<Rightarrow>
           (True,
            if length (ln_flushing la) > 0
            then (case hand_over ins report (ln_flushing la) st of (la', db', lg') \<Rightarrow>
                    (la'\<lparr>ln_flushing := []\<rparr>, db', lg'))
            else st)))"

section \<open>The logger\<close>

datatype flush_phase = FIdle | FReqs | FDetails

record 'd AsyncLogger =
  al_req :: "RequestLog lane"
  al_detail :: "DetailLog lane"
  al_stop :: bool
  al_flush :: flush_phase
  al_db :: 'd
  al_slog :: "log_line list"

record 'd log_sink =
  BulkInsertRequestLogs :: "(RequestLog, 'd) bulk_insert"
  BulkInsertDetailLogs :: "(DetailLog, 'd) bulk_insert"

definition NewAsyncLogger :: "nat \<Rightarrow> 'd \<Rightarrow> 'd AsyncLogger" where
  "NewAsyncLogger bufferSize db =
     \<lparr>al_req = new_lane bufferSize, al_detail = new_lane bufferSize, al_stop = False, al_flush = FIdle,
      al_db = db, al_slog = []\<rparr>"

definition AsyncLog :: "bool \<Rightarrow> RequestLog \<Rightarrow> 'd AsyncLogger \<Rightarrow> 'd AsyncLogger" where
  "AsyncLog ready x l =
     (case lane_send ready x (al_req l) of
        (True, la) \<Rightarrow> l\<lparr>al_req := la\<rparr>
      | (False, la) \<Rightarrow>
          l\<lparr>al_req := la,
            al_slog := al_slog l @ [slog LWarn ''request log channel full, dropping entry'' [(''trace_id'', l_ID x)]]\<rparr>)"

definition AsyncLogDetail :: "bool \<Rightarrow> DetailLog \<Rightarrow> 'd AsyncLogger \<Rightarrow> 'd AsyncLogger" where
  "AsyncLogDetail ready x l =
     (case lane_send ready x (al_detail l) of
        (True, la) \<Rightarrow> l\<lparr>al_detail := la\<rparr>
      | (False, la) \<Rightarrow>
          l\<lparr>al_detail := la,
            al_slog := al_slog l @ [slog LWarn ''detail log channel full, dropping entry'' [(''trace_id'', d_TraceID x)]]\<rparr>)"

definition al_Close :: "'d AsyncLogger \<Rightarrow> 'd AsyncLogger" where
  "al_Close l = l\<lparr>al_stop := True\<rparr>"

definition req_state :: "'d AsyncLogger \<Rightarrow> (RequestLog, 'd) lane_state" where
  "req_state l = (al_req l, al_db l, al_slog l)"

definition set_req :: "'d AsyncLogger \<Rightarrow> (RequestLog, 'd) lane_state \<Rightarrow> 'd AsyncLogger" where
  "set_req l st = (case st of (la, db, lg) \<Rightarrow> l\<lparr>al_req := la, al_db := db, al_slog := lg\<rparr>)"

definition detail_state :: "'d AsyncLogger \<Rightarrow> (DetailLog, 'd) lane_state" where
  "detail_state l = (al_detail l, al_db l, al_slog l)"

definition set_detail :: "'d AsyncLogger \<Rightarrow> (DetailLog, 'd) lane_state \<Rightarrow> 'd AsyncLogger" where
  "set_detail l st = (case st of (la, db, lg) \<Rightarrow> l\<lparr>al_detail := la, al_db := db, al_slog := lg\<rparr>)"

definition flush_error :: "string \<Rightarrow> goerror \<Rightarrow> nat \<Rightarrow> log_line" where
  "flush_error msg e n = slog LError msg [(''err'', err_text e), (''count'', FormatInt (int n))]"

definition shutdown_error :: "string \<Rightarrow> goerror \<Rightarrow> nat \<Rightarrow> log_line" where
  "shutdown_error msg e n = slog LError msg [(''err'', err_text e)]"

definition runRequestWorker :: "'d log_sink \<Rightarrow> worker_event \<Rightarrow> 'd AsyncLogger \<Rightarrow> 'd AsyncLogger option" where
  "runRequestWorker sk ev l =
     map_option (set_req l)
       (worker_step (BulkInsertRequestLogs sk) (flush_error ''request log flush error'') 256 (al_stop l) ev (req_state l))"

definition runDetailWorker :: "'d log_sink \<Rightarrow> worker_event \<Rightarrow> 'd AsyncLogger \<Rightarrow> 'd AsyncLogger option" where
  "runDetailWorker sk ev l =
     map_option (set_detail l)
       (worker_step (BulkInsertDetailLogs sk) (flush_error ''detail log flush error'') 64 (al_stop l) ev (detail_state l))"

definition flush_step :: "'d log_sink \<Rightarrow> 'd AsyncLogger \<Rightarrow> 'd AsyncLogger option" where
  "flush_step sk l =
     (case al_flush l of
        FIdle \<Rightarrow> None
      | FReqs \<Rightarrow>
          (case flush_round (BulkInsertRequestLogs sk) (shutdown_error ''flush: bulk insert request logs'') (req_state l) of
             (fin, st) \<Rightarrow> Some ((set_req l st)\<lparr>al_flush := if fin then FDetails else FReqs\<rparr>))
      | FDetails \<Rightarrow>
          (case flush_round (BulkInsertDetailLogs sk) (shutdown_error ''flush: bulk insert detail logs'') (detail_state l) of
             (fin, st) \<Rightarrow> Some ((set_detail l st)\<lparr>al_flush := if fin then FIdle else FDetails\<rparr>)))"

text \<open>The events of the system; \<open>BeginFlush\<close> is a call of \<^verbatim>\<open>Flush\<close>, \<open>FlushRound\<close> a round of its loops.\<close>

datatype log_event =
    Send bool RequestLog
  | SendDetail bool DetailLog
  | ReqWorker worker_event
  | DetailWorker worker_event
  | CloseCall
  | BeginFlush
  | FlushRound

fun log_event_step :: "'d log_sink \<Rightarrow> log_event \<Rightarrow> 'd AsyncLogger \<Rightarrow> 'd AsyncLogger option" where
  "log_event_step sk (Send ready x) l = Some (AsyncLog ready x l)"
| "log_event_step sk (SendDetail ready x) l = Some (AsyncLogDetail ready x l)"
| "log_event_step sk (ReqWorker ev) l = runRequestWorker sk ev l"
| "log_event_step sk (DetailWorker ev) l = runDetailWorker sk ev l"
| "log_event_step sk CloseCall l = Some (al_Close l)"
| "log_event_step sk BeginFlush l = (if al_flush l = FIdle then Some (l\<lparr>al_flush := FReqs\<rparr>) else None)"
| "log_event_step sk FlushRound l = flush_step sk l"

inductive log_reach :: "'d log_sink \<Rightarrow> nat \<Rightarrow> 'd \<Rightarrow> 'd AsyncLogger \<Rightarrow> bool" for sk n db where
  log_init: "log_reach sk n db (NewAsyncLogger n db)"
| log_next: "log_reach sk n db l \<Longrightarrow> log_event_step sk ev l = Some l' \<Longrightarrow> log_reach sk n db l'"

text \<open>\<^verbatim>\<open>Flush\<close> with no other goroutine between its rounds.  It takes a round per entry and one to end
  each loop, so the fuel is enough (\<open>Flush_ends\<close>).\<close>

fun flush_run :: "'d log_sink \<Rightarrow> nat \<Rightarrow> 'd AsyncLogger \<Rightarrow> 'd AsyncLogger" where
  "flush_run sk 0 l = l"
| "flush_run sk (Suc n) l = (case flush_step sk l of None \<Rightarrow> l | Some l' \<Rightarrow> flush_run sk n l')"

definition al_Flush :: "'d log_sink \<Rightarrow> 'd AsyncLogger \<Rightarrow> 'd AsyncLogger" where
  "al_Flush sk l =
     flush_run sk (length (ln_items (al_req l)) + length (ln_items (al_detail l)) + 2) (l\<lparr>al_flush := FReqs\<rparr>)"

section \<open>No entry is lost\<close>

definition lane_inv :: "nat \<Rightarrow> 'a lane \<Rightarrow> bool" where
  "lane_inv maxBatch la \<longleftrightarrow>
     mset (ln_accepted la) = mset (ln_items la) + mset (ln_batch la) + mset (ln_flushing la) + mset (concat (ln_handed la)) \<and>
     length (ln_items la) \<le> max 1 (ln_cap la) \<and>
     (ln_phase la = Running \<longrightarrow> length (ln_batch la) < maxBatch) \<and>
     (ln_phase la = Exited \<longrightarrow> ln_batch la = []) \<and>
     [] \<notin> set (ln_handed la)"

lemma new_lane_inv: "0 < maxBatch \<Longrightarrow> lane_inv maxBatch (new_lane n)"
  by (simp add: lane_inv_def new_lane_def)

lemma send_inv: "lane_inv maxBatch la \<Longrightarrow> lane_inv maxBatch (snd (lane_send ready x la))"
  by (auto simp: lane_inv_def lane_send_def)

lemma hand_over_lane:
  "fst (hand_over ins report b st) = (fst st)\<lparr>ln_handed := ln_handed (fst st) @ [b]\<rparr>"
  by (simp add: hand_over_def split: prod.split)

definition flushed :: "'a lane \<Rightarrow> 'a lane" where
  "flushed la = (if ln_batch la = [] then la else la\<lparr>ln_handed := ln_handed la @ [ln_batch la], ln_batch := []\<rparr>)"

lemma flush_lane [simp]: "fst (lane_flush ins report st) = flushed (fst st)"
proof -
  obtain la db lg where st: "st = (la, db, lg)" by (metis surj_pair)
  obtain la' db' lg' where h: "hand_over ins report (ln_batch la) (la, db, lg) = (la', db', lg')" by (metis surj_pair)
  have "la' = la\<lparr>ln_handed := ln_handed la @ [ln_batch la]\<rparr>"
    using hand_over_lane [of ins report "ln_batch la" "(la, db, lg)"] by (simp add: h)
  then show ?thesis using h by (simp add: lane_flush_def flushed_def st)
qed

text \<open>What a worker's round does to its lane.\<close>

lemma worker_step_cases:
  assumes "worker_step ins report maxBatch stop ev st = Some st'"
  obtains
    (recv) x xs where "ev = Recv" "ln_items (fst st) = x # xs" "ln_phase (fst st) = Running"
      "fst st' = (let la = (fst st)\<lparr>ln_items := xs, ln_batch := ln_batch (fst st) @ [x]\<rparr>
                  in if length (ln_batch la) \<ge> maxBatch then flushed la else la)"
  | (tick) "ev = Tick" "ln_phase (fst st) = Running" "fst st' = flushed (fst st)"
  | (stop) "ev = StopSeen" "ln_phase (fst st) = Running" "stop" "fst st' = (fst st)\<lparr>ln_phase := Draining\<rparr>"
  | (drain) x xs where "ev = DrainRecv" "ln_items (fst st) = x # xs" "ln_phase (fst st) = Draining"
      "fst st' = (fst st)\<lparr>ln_items := xs, ln_batch := ln_batch (fst st) @ [x]\<rparr>"
  | (finish) "ev = DrainEnd" "ln_items (fst st) = []" "ln_phase (fst st) = Draining"
      "fst st' = (flushed (fst st))\<lparr>ln_phase := Exited\<rparr>"
proof -
  obtain la db lg where st: "st = (la, db, lg)" by (metis surj_pair)
  obtain la' db' lg' where fl: "lane_flush ins report st = (la', db', lg')" by (metis surj_pair)
  have la': "la' = flushed la" using flush_lane [of ins report st] unfolding fl by (simp add: st)
  show ?thesis
    using assms that fl
    by (cases ev)
      (auto simp: worker_step_def st la' Let_def if_distrib [of fst] split: list.splits if_splits)
qed

lemma flushed_inv: "lane_inv maxBatch la \<Longrightarrow> 0 < maxBatch \<Longrightarrow> lane_inv maxBatch (flushed la)"
  by (auto simp: lane_inv_def flushed_def)

lemma recv_inv:
  assumes "lane_inv maxBatch la" "ln_items la = x # xs" "ln_phase la = Running" "la' = la\<lparr>ln_items := xs, ln_batch := ln_batch la @ [x]\<rparr>"
  shows "lane_inv maxBatch (if length (ln_batch la') \<ge> maxBatch then flushed la' else la')"
  using assms by (auto simp: lane_inv_def flushed_def)

lemma worker_step_inv:
  assumes "worker_step ins report maxBatch stop ev st = Some st'" "lane_inv maxBatch (fst st)" "0 < maxBatch"
  shows "lane_inv maxBatch (fst st')"
  using assms(1)
proof (cases rule: worker_step_cases)
  case (recv x xs)
  then show ?thesis using recv_inv [OF assms(2) recv(2,3) refl] by (simp add: Let_def)
qed (use assms flushed_inv [of maxBatch "fst st"] in \<open>auto simp: lane_inv_def flushed_def\<close>)

lemma flush_round_lane:
  "fst (snd (flush_round ins report st)) =
     (case ln_items (fst st) of
        x # xs \<Rightarrow> (fst st)\<lparr>ln_items := xs, ln_flushing := ln_flushing (fst st) @ [x]\<rparr>
      | [] \<Rightarrow> if ln_flushing (fst st) = [] then fst st
              else (fst st)\<lparr>ln_handed := ln_handed (fst st) @ [ln_flushing (fst st)], ln_flushing := []\<rparr>)"
proof -
  obtain la db lg where st: "st = (la, db, lg)" by (metis surj_pair)
  obtain la' db' lg' where h: "hand_over ins report (ln_flushing la) (la, db, lg) = (la', db', lg')" by (metis surj_pair)
  have "la' = la\<lparr>ln_handed := ln_handed la @ [ln_flushing la]\<rparr>"
    using hand_over_lane [of ins report "ln_flushing la" "(la, db, lg)"] by (simp add: h)
  then show ?thesis using h by (simp add: flush_round_def st split: list.split)
qed

lemma flush_round_inv:
  assumes "lane_inv maxBatch (fst st)" shows "lane_inv maxBatch (fst (snd (flush_round ins report st)))"
  using assms unfolding flush_round_lane by (auto simp: lane_inv_def split: list.split)

text \<open>The two lanes of a logger are independent: each event touches one of them.\<close>

lemma log_event_step_inv:
  assumes "log_event_step sk ev l = Some l'" "lane_inv 256 (al_req l)" "lane_inv 64 (al_detail l)"
  shows "lane_inv 256 (al_req l') \<and> lane_inv 64 (al_detail l')"
proof (cases ev)
  case (Send ready x)
  then show ?thesis using assms send_inv [OF assms(2), of ready x] by (auto simp: AsyncLog_def split: prod.splits bool.splits)
next
  case (SendDetail ready x)
  then show ?thesis using assms send_inv [OF assms(3), of ready x] by (auto simp: AsyncLogDetail_def split: prod.splits bool.splits)
next
  case (ReqWorker e)
  then obtain st where st: "worker_step (BulkInsertRequestLogs sk) (flush_error ''request log flush error'') 256 (al_stop l) e (req_state l) = Some st"
      "l' = set_req l st" using assms(1) by (auto simp: runRequestWorker_def)
  then show ?thesis
    using worker_step_inv [OF st(1)] assms(2,3) by (auto simp: req_state_def set_req_def split: prod.splits)
next
  case (DetailWorker e)
  then obtain st where st: "worker_step (BulkInsertDetailLogs sk) (flush_error ''detail log flush error'') 64 (al_stop l) e (detail_state l) = Some st"
      "l' = set_detail l st" using assms(1) by (auto simp: runDetailWorker_def)
  then show ?thesis
    using worker_step_inv [OF st(1)] assms(2,3) by (auto simp: detail_state_def set_detail_def split: prod.splits)
next
  case FlushRound
  show ?thesis
    using FlushRound assms
      flush_round_inv [of 256 "req_state l" "BulkInsertRequestLogs sk" "shutdown_error ''flush: bulk insert request logs''"]
      flush_round_inv [of 64 "detail_state l" "BulkInsertDetailLogs sk" "shutdown_error ''flush: bulk insert detail logs''"]
    by (auto simp: flush_step_def req_state_def set_req_def detail_state_def set_detail_def
        split: flush_phase.splits prod.splits)
qed (use assms in \<open>auto simp: al_Close_def split: if_splits\<close>)

lemma log_reach_inv:
  assumes "log_reach sk n db l" shows "lane_inv 256 (al_req l) \<and> lane_inv 64 (al_detail l)"
  using assms
proof induction
  case log_init
  then show ?case using new_lane_inv [of 256 n] new_lane_inv [of 64 n] by (simp add: NewAsyncLogger_def)
next
  case (log_next l ev l')
  then show ?case using log_event_step_inv by blast
qed


section \<open>Closing\<close>

fun run_events :: "'d log_sink \<Rightarrow> log_event list \<Rightarrow> 'd AsyncLogger \<Rightarrow> 'd AsyncLogger option" where
  "run_events sk [] l = Some l"
| "run_events sk (ev # evs) l = (case log_event_step sk ev l of None \<Rightarrow> None | Some l' \<Rightarrow> run_events sk evs l')"

lemma run_events_reach:
  "log_reach sk n db l \<Longrightarrow> run_events sk evs l = Some l' \<Longrightarrow> log_reach sk n db l'"
  by (induction evs arbitrary: l) (auto intro: log_next split: option.splits)

text \<open>A draining worker has one thing to do, until it has exited.\<close>

definition drain_left :: "'a lane \<Rightarrow> nat" where
  "drain_left la = (case ln_phase la of Running \<Rightarrow> length (ln_items la) + 2 | Draining \<Rightarrow> Suc (length (ln_items la)) | Exited \<Rightarrow> 0)"

lemma drain_enabled:
  assumes "ln_phase (fst st) = Draining"
  shows "\<exists>st'. worker_step ins report maxBatch stop (if ln_items (fst st) = [] then DrainEnd else DrainRecv) st = Some st'"
proof -
  obtain la db lg where st: "st = (la, db, lg)" by (metis surj_pair)
  show ?thesis using assms by (auto simp: worker_step_def st neq_Nil_conv split: prod.split)
qed

lemma drain_step:
  assumes "worker_step ins report maxBatch stop ev st = Some st'" "ln_phase (fst st) = Draining"
  shows "drain_left (fst st) = Suc (drain_left (fst st')) \<and> ln_phase (fst st') \<noteq> Running \<and>
    ln_accepted (fst st') = ln_accepted (fst st) \<and> ln_flushing (fst st') = ln_flushing (fst st) \<and>
    (ln_phase (fst st') = Exited \<longrightarrow> ln_items (fst st') = [])"
  using assms(1)
  by (cases rule: worker_step_cases) (use assms(2) in \<open>auto simp: drain_left_def flushed_def\<close>)

lemma exited_stuck:
  "ln_phase (fst st) = Exited \<Longrightarrow> worker_step ins report maxBatch stop ev st = None"
  by (cases "worker_step ins report maxBatch stop ev st") (auto elim: worker_step_cases)

lemma req_worker_step:
  assumes "runRequestWorker sk ev l = Some l'" "ln_phase (al_req l) = Draining"
  shows "drain_left (al_req l) = Suc (drain_left (al_req l')) \<and> ln_phase (al_req l') \<noteq> Running \<and>
    ln_accepted (al_req l') = ln_accepted (al_req l) \<and> ln_flushing (al_req l') = ln_flushing (al_req l) \<and>
    (ln_phase (al_req l') = Exited \<longrightarrow> ln_items (al_req l') = [])"
proof -
  obtain st where st: "worker_step (BulkInsertRequestLogs sk) (flush_error ''request log flush error'') 256 (al_stop l) ev (req_state l) = Some st"
      "l' = set_req l st" using assms(1) by (auto simp: runRequestWorker_def)
  have "ln_phase (fst (req_state l)) = Draining" using assms(2) by (simp add: req_state_def)
  from drain_step [OF st(1) this] show ?thesis
    by (auto simp: st(2) set_req_def req_state_def split: prod.splits)
qed

lemma req_worker_enabled:
  assumes "ln_phase (al_req l) = Draining" shows "\<exists>ev l'. runRequestWorker sk ev l = Some l'"
proof -
  have "ln_phase (fst (req_state l)) = Draining" using assms by (simp add: req_state_def)
  from drain_enabled [OF this] show ?thesis unfolding runRequestWorker_def by (metis option.map(2))
qed

lemma req_worker_exited: "ln_phase (al_req l) = Exited \<Longrightarrow> runRequestWorker sk ev l = None"
  using exited_stuck [of "req_state l"] by (simp add: runRequestWorker_def req_state_def)

lemma drain_run:
  assumes "run_events sk (map ReqWorker evs) l = Some l'" "ln_phase (al_req l) \<noteq> Running"
    "ln_phase (al_req l) = Exited \<Longrightarrow> ln_items (al_req l) = []"
  shows "length evs + drain_left (al_req l') = drain_left (al_req l) \<and> ln_phase (al_req l') \<noteq> Running \<and>
    ln_accepted (al_req l') = ln_accepted (al_req l) \<and> ln_flushing (al_req l') = ln_flushing (al_req l) \<and>
    (ln_phase (al_req l') = Exited \<longrightarrow> ln_items (al_req l') = [])"
  using assms
proof (induction evs arbitrary: l)
  case (Cons ev evs)
  then obtain l1 where l1: "runRequestWorker sk ev l = Some l1" "run_events sk (map ReqWorker evs) l1 = Some l'"
    by (auto split: option.splits)
  then have "ln_phase (al_req l) = Draining"
    using Cons.prems(2) req_worker_exited [of l sk ev] by (cases "ln_phase (al_req l)") auto
  from req_worker_step [OF l1(1) this] show ?case using Cons.IH [OF l1(2)] by auto
qed simp

lemma drain_run_exists:
  "ln_phase (al_req l) = Draining \<Longrightarrow> k \<le> drain_left (al_req l) \<Longrightarrow> \<exists>evs l'. length evs = k \<and> run_events sk (map ReqWorker evs) l = Some l'"
proof (induction k arbitrary: l)
  case (Suc k)
  obtain ev l1 where l1: "runRequestWorker sk ev l = Some l1" using req_worker_enabled [OF Suc.prems(1)] by blast
  from req_worker_step [OF l1 Suc.prems(1)] have d: "k \<le> drain_left (al_req l1)" "ln_phase (al_req l1) \<noteq> Running"
    using Suc.prems(2) by auto
  have "\<exists>evs l'. length evs = k \<and> run_events sk (map ReqWorker evs) l1 = Some l'"
  proof (cases "ln_phase (al_req l1)")
    case Draining
    then show ?thesis using Suc.IH d(1) by blast
  next
    case Exited
    then have "k = 0" using d(1) by (simp add: drain_left_def)
    then show ?thesis by (intro exI [of _ "[]"]) simp
  qed (use d in simp)
  then obtain evs l' where "length evs = k" "run_events sk (map ReqWorker evs) l1 = Some l'" by blast
  then show ?case using l1 by (intro exI [of _ "ev # evs"]) auto
qed (intro exI [of _ "[]"], simp)

lemma stop_seen:
  assumes "al_stop l" "ln_phase (al_req l) = Running"
  shows "runRequestWorker sk StopSeen l = Some (l\<lparr>al_req := (al_req l)\<lparr>ln_phase := Draining\<rparr>\<rparr>)"
  using assms by (simp add: runRequestWorker_def worker_step_def req_state_def set_req_def)

text \<open>C35. Once \<^verbatim>\<open>Close\<close> has been called, the request worker may leave its loop, and then, if no one
  else uses the channel, it takes one step per entry left and one to end: it can always go on
  until then, it never takes more, and when it has ended every entry ever accepted has been
  handed to the database exactly once.\<close>

theorem close_drains:
  assumes "log_reach sk n db l" "al_stop l" "ln_phase (al_req l) = Running" "ln_flushing (al_req l) = []"
    and "k = Suc (length (ln_items (al_req l)))"
  shows "\<exists>l1. runRequestWorker sk StopSeen l = Some l1 \<and>
    (\<exists>evs l'. length evs = k \<and> run_events sk (map ReqWorker evs) l1 = Some l') \<and>
    (\<forall>evs l'. run_events sk (map ReqWorker evs) l1 = Some l' \<longrightarrow>
       length evs \<le> k \<and>
       (length evs = k \<longrightarrow>
          ln_phase (al_req l') = Exited \<and> mset (concat (ln_handed (al_req l'))) = mset (ln_accepted (al_req l))))"
proof -
  define l1 where "l1 = l\<lparr>al_req := (al_req l)\<lparr>ln_phase := Draining\<rparr>\<rparr>"
  have s: "runRequestWorker sk StopSeen l = Some l1" unfolding l1_def by (rule stop_seen [OF assms(2,3)])
  have d: "ln_phase (al_req l1) = Draining" "drain_left (al_req l1) = k" "ln_flushing (al_req l1) = []"
      "ln_accepted (al_req l1) = ln_accepted (al_req l)"
    using assms(4,5) by (simp_all add: l1_def drain_left_def)
  have r: "log_reach sk n db l1" using log_next [OF assms(1), of "ReqWorker StopSeen"] s by simp
  have "length evs \<le> k \<and> (length evs = k \<longrightarrow> ln_phase (al_req l') = Exited \<and>
      mset (concat (ln_handed (al_req l'))) = mset (ln_accepted (al_req l)))"
    if run: "run_events sk (map ReqWorker evs) l1 = Some l'" for evs l'
  proof -
    have f: "length evs + drain_left (al_req l') = k" "ln_phase (al_req l') \<noteq> Running"
        "ln_accepted (al_req l') = ln_accepted (al_req l)" "ln_flushing (al_req l') = []"
        "ln_phase (al_req l') = Exited \<Longrightarrow> ln_items (al_req l') = []"
      using drain_run [OF run] d by auto
    have "lane_inv 256 (al_req l')" using log_reach_inv [OF run_events_reach [OF r run]] by simp
    moreover have "ln_phase (al_req l') = Exited" if "length evs = k"
      using f(1,2) that by (cases "ln_phase (al_req l')") (auto simp: drain_left_def)
    ultimately show ?thesis using f by (auto simp: lane_inv_def)
  qed
  then show ?thesis using s drain_run_exists [OF d(1), of k sk] d(2) by auto
qed

text \<open>A store that keeps the batches it is given, and a logger with one waiting entry.\<close>

definition sample_sink :: "(RequestLog list list \<times> DetailLog list list) log_sink" where
  "sample_sink = \<lparr>BulkInsertRequestLogs = (\<lambda>b (rs, ds). (None, (rs @ [b], ds))),
                  BulkInsertDetailLogs = (\<lambda>b (rs, ds). (None, (rs, ds @ [b])))\<rparr>"

definition sample_log :: RequestLog where
  "sample_log = \<lparr>l_ID = ''r1'', l_SessionID = [], l_Timestamp = 0, l_APIKeyID = ''k'', l_ModelAlias = ''m'', l_NodeID = ''n'',
     l_ActualModel = [], l_PromptTokens = 1, l_CompletionTokens = 2, l_TotalTokens = 3, l_DurationMs = 4,
     l_StatusCode = 200, l_Stream = False, l_ErrorMsg = [], l_HasDetail = True\<rparr>"

definition closed_logger :: "(RequestLog list list \<times> DetailLog list list) AsyncLogger" where
  "closed_logger = al_Close (AsyncLog False sample_log (NewAsyncLogger 2 ([], [])))"

lemma closed_logger_reach: "log_reach sample_sink 2 ([], []) closed_logger"
proof -
  have "log_reach sample_sink 2 ([], []) (AsyncLog False sample_log (NewAsyncLogger 2 ([], [])))"
    using log_next [OF log_init, of sample_sink "Send False sample_log"] by simp
  then show ?thesis unfolding closed_logger_def by (rule log_next [where ev = CloseCall]) simp
qed

lemma closed_logger_fields:
  "al_stop closed_logger" "ln_phase (al_req closed_logger) = Running" "ln_flushing (al_req closed_logger) = []"
  "ln_items (al_req closed_logger) = [sample_log]" "ln_accepted (al_req closed_logger) = [sample_log]"
  by (simp_all add: closed_logger_def al_Close_def AsyncLog_def NewAsyncLogger_def new_lane_def lane_send_def)


theorem close_drains_witness:
  "\<exists>l1 evs l'. runRequestWorker sample_sink StopSeen closed_logger = Some l1 \<and> length evs = 2 \<and>
     run_events sample_sink (map ReqWorker evs) l1 = Some l' \<and>
     mset (concat (ln_handed (al_req l'))) = {#sample_log#}"
  using close_drains [OF closed_logger_reach closed_logger_fields(1-3), of 2] closed_logger_fields(4,5) by fastforce

section \<open>Flushing\<close>

definition flush_left :: "'d AsyncLogger \<Rightarrow> nat" where
  "flush_left l =
     (case al_flush l of
        FIdle \<Rightarrow> 0
      | FReqs \<Rightarrow> length (ln_items (al_req l)) + length (ln_items (al_detail l)) + 2
      | FDetails \<Rightarrow> length (ln_items (al_detail l)) + 1)"

lemma flush_round_items:
  "ln_items (fst (snd (flush_round ins report st))) = tl (ln_items (fst st))"
  "fst (flush_round ins report st) \<longleftrightarrow> ln_items (fst st) = []"
  using flush_round_lane [of ins report st] by (auto simp: flush_round_def split: prod.splits list.splits)

text \<open>What is received by \<^verbatim>\<open>Flush\<close> has left its hands when its loop is done.\<close>

definition flush_ok :: "'d AsyncLogger \<Rightarrow> bool" where
  "flush_ok l \<longleftrightarrow>
     (al_flush l \<noteq> FReqs \<longrightarrow> ln_items (al_req l) = [] \<and> ln_flushing (al_req l) = []) \<and>
     (al_flush l = FIdle \<longrightarrow> ln_items (al_detail l) = [] \<and> ln_flushing (al_detail l) = [])"

lemma flush_round_flushing:
  "ln_items (fst st) = [] \<Longrightarrow> ln_flushing (fst (snd (flush_round ins report st))) = []"
  by (simp add: flush_round_lane)

lemma flush_step_ok:
  assumes "al_flush l \<noteq> FIdle" "flush_ok l"
  shows "\<exists>l'. flush_step sk l = Some l' \<and> flush_ok l' \<and> flush_left l = Suc (flush_left l')"
proof (cases "al_flush l")
  case FReqs
  obtain fin la db lg where r: "flush_round (BulkInsertRequestLogs sk) (shutdown_error ''flush: bulk insert request logs'') (req_state l) = (fin, la, db, lg)"
    by (metis surj_pair)
  then show ?thesis
    using FReqs assms(2) flush_round_items [of "BulkInsertRequestLogs sk" "shutdown_error ''flush: bulk insert request logs''" "req_state l"]
      flush_round_flushing [of "req_state l" "BulkInsertRequestLogs sk" "shutdown_error ''flush: bulk insert request logs''"]
    by (cases "ln_items (al_req l)") (auto simp: flush_step_def set_req_def req_state_def flush_ok_def flush_left_def)
next
  case FDetails
  obtain fin la db lg where r: "flush_round (BulkInsertDetailLogs sk) (shutdown_error ''flush: bulk insert detail logs'') (detail_state l) = (fin, la, db, lg)"
    by (metis surj_pair)
  then show ?thesis
    using FDetails assms(2) flush_round_items [of "BulkInsertDetailLogs sk" "shutdown_error ''flush: bulk insert detail logs''" "detail_state l"]
      flush_round_flushing [of "detail_state l" "BulkInsertDetailLogs sk" "shutdown_error ''flush: bulk insert detail logs''"]
    by (cases "ln_items (al_detail l)") (auto simp: flush_step_def set_detail_def detail_state_def flush_ok_def flush_left_def)
qed (use assms in simp)

lemma flush_run_ends:
  "flush_ok l \<Longrightarrow> flush_left l \<le> n \<Longrightarrow> al_flush (flush_run sk n l) = FIdle \<and> flush_ok (flush_run sk n l)"
proof (induction n arbitrary: l)
  case 0
  then show ?case by (auto simp: flush_left_def split: flush_phase.splits)
next
  case (Suc n)
  show ?case
  proof (cases "al_flush l = FIdle")
    case True
    then show ?thesis using Suc.prems by (simp add: flush_step_def)
  next
    case False
    from flush_step_ok [OF this Suc.prems(1)] obtain l' where
      "flush_step sk l = Some l'" "flush_ok l'" "flush_left l = Suc (flush_left l')" by blast
    then show ?thesis using Suc by simp
  qed
qed

lemma Flush_ends:
  "al_flush (al_Flush sk l) = FIdle \<and>
   ln_items (al_req (al_Flush sk l)) = [] \<and> ln_flushing (al_req (al_Flush sk l)) = [] \<and>
   ln_items (al_detail (al_Flush sk l)) = [] \<and> ln_flushing (al_detail (al_Flush sk l)) = []"
proof -
  have "al_flush (al_Flush sk l) = FIdle \<and> flush_ok (al_Flush sk l)"
    unfolding al_Flush_def by (rule flush_run_ends) (simp_all add: flush_ok_def flush_left_def)
  then show ?thesis by (simp add: flush_ok_def)
qed

lemma flush_run_reach: "log_reach sk n db l \<Longrightarrow> log_reach sk n db (flush_run sk k l)"
proof (induction k arbitrary: l)
  case (Suc k)
  then show ?case using log_next [OF Suc.prems, of FlushRound] by (auto split: option.split)
qed simp

lemma Flush_reach: "log_reach sk n db l \<Longrightarrow> al_flush l = FIdle \<Longrightarrow> log_reach sk n db (al_Flush sk l)"
  unfolding al_Flush_def by (rule flush_run_reach, erule log_next [where ev = BeginFlush]) simp

end
