(* ===== verification/Middleware.thy ===== *)
theory Middleware
  imports Auth Go_Url Metrics Async_Log Rate_Limiter
begin

text \<open>
  \<^verbatim>\<open>internal/api/middleware.go\<close> and \<^verbatim>\<open>context.go\<close>: the layers around every handler, and the two
  functions that write JSON answers.

  An \<^verbatim>\<open>http.ResponseWriter\<close> is the server's response or a \<^verbatim>\<open>statusRecorder\<close> around another one
  (\<open>rwriter\<close>); its methods go by its kind, as Go's do.  A handler takes the writer, the request
  and the state of the program, and yields the writer and the state after it; \<open>None\<close> is a panic.
  The values that \<^verbatim>\<open>context.go\<close> puts into the request's context are fields of the request.  What
  the layers take from outside, random bytes and the clock, is in \<open>api_env\<close>.
\<close>

section \<open>Response writers\<close>

datatype rwriter = Response ResponseWriter | StatusRecorder rwriter int

fun w_Header :: "rwriter \<Rightarrow> header" where
  "w_Header (Response w) = rw_header w"
| "w_Header (StatusRecorder w st) = w_Header w"

fun w_SetHeader :: "rwriter \<Rightarrow> header \<Rightarrow> rwriter" where
  "w_SetHeader (Response w) h = Response (rw_SetHeader w h)"
| "w_SetHeader (StatusRecorder w st) h = StatusRecorder (w_SetHeader w h) st"

fun w_WriteHeader :: "rwriter \<Rightarrow> int \<Rightarrow> rwriter option" where
  "w_WriteHeader (Response w) code = map_option Response (rw_WriteHeader w code)"
| "w_WriteHeader (StatusRecorder w st) code = map_option (\<lambda>w'. StatusRecorder w' code) (w_WriteHeader w code)"

text \<open>Every status that a handler or a layer writes is a constant between 100 and 999, for which \<^verbatim>\<open>WriteHeader\<close> does not
  panic: it has the effect of \<open>w_begin\<close>, which they use (\<open>w_WriteHeader_begin\<close>).\<close>

fun w_begin :: "rwriter \<Rightarrow> int \<Rightarrow> rwriter" where
  "w_begin (Response w) code = Response (rw_begin w code)"
| "w_begin (StatusRecorder w st) code = StatusRecorder (w_begin w code) code"

lemma w_WriteHeader_begin: "\<not> bad_code code \<Longrightarrow> w_WriteHeader w code = Some (w_begin w code)"
  by (induction w) (simp_all add: rw_WriteHeader_def)

fun w_Write :: "rwriter \<Rightarrow> bytes \<Rightarrow> (nat \<times> goerror option) \<times> rwriter" where
  "w_Write (Response w) b = (case rw_Write w b of (r, w') \<Rightarrow> (r, Response w'))"
| "w_Write (StatusRecorder w st) b = (case w_Write w b of (r, w') \<Rightarrow> (r, StatusRecorder w' st))"

fun w_Flush :: "rwriter \<Rightarrow> rwriter" where
  "w_Flush (Response w) = Response (rw_Flush w)"
| "w_Flush (StatusRecorder w st) = StatusRecorder (w_Flush w) st"

definition w_ops :: "rwriter writer_ops" where
  "w_ops = \<lparr>W_Header = w_Header, W_SetHeader = w_SetHeader, W_WriteHeader = w_WriteHeader,
            W_Write = w_Write, W_Flush = Some w_Flush\<rparr>"

text \<open>The server's response under the recorders.\<close>

fun w_under :: "rwriter \<Rightarrow> ResponseWriter" where
  "w_under (Response w) = w"
| "w_under (StatusRecorder w st) = w_under w"

section \<open>Requests, state, handlers\<close>

record api_request =
  ar_Method :: string
  ar_Path :: string
  ar_RawQuery :: string
  ar_Header :: header
  ar_Body :: "goerror + bytes"
  ar_RemoteAddr :: string
  ar_requestID :: "string option"
  ar_sessionID :: "string option"
  ar_proxy :: "ProxyContext option"

definition withProxyCtx :: "api_request \<Rightarrow> ProxyContext \<Rightarrow> api_request" where
  "withProxyCtx r pc = r\<lparr>ar_proxy := Some pc\<rparr>"

definition proxyCtxFrom :: "api_request \<Rightarrow> ProxyContext option" where
  "proxyCtxFrom r = ar_proxy r"

definition withRequestID :: "api_request \<Rightarrow> string \<Rightarrow> api_request" where
  "withRequestID r i = r\<lparr>ar_requestID := Some i\<rparr>"

definition requestIDFrom :: "api_request \<Rightarrow> string" where
  "requestIDFrom r = (case ar_requestID r of None \<Rightarrow> [] | Some i \<Rightarrow> i)"

definition withSessionID :: "api_request \<Rightarrow> string \<Rightarrow> api_request" where
  "withSessionID r i = r\<lparr>ar_sessionID := Some i\<rparr>"

definition sessionIDFrom :: "api_request \<Rightarrow> string" where
  "sessionIDFrom r = (case ar_sessionID r of None \<Rightarrow> [] | Some i \<Rightarrow> i)"

text \<open>The state the handlers share: the queue, the metrics, the logger with the database and the
  lines logged, the cache, the goroutines started to record tokens, and the next reference.\<close>

record ('c, 'd) api_state =
  as_queue :: RequestQueue
  as_metrics :: Registry
  as_logger :: "'d AsyncLogger"
  as_cache :: "'c cworld"
  as_tasks :: "(string \<times> string \<times> int) list"
  as_next :: nat

type_synonym 's handler = "rwriter \<Rightarrow> api_request \<Rightarrow> 's \<Rightarrow> (rwriter \<times> 's) option"

definition log_lines :: "log_line list \<Rightarrow> ('c, 'd) api_state \<Rightarrow> ('c, 'd) api_state" where
  "log_lines ls s = s\<lparr>as_logger := (as_logger s)\<lparr>al_slog := al_slog (as_logger s) @ ls\<rparr>\<rparr>"

definition db_of :: "('c, 'd) api_state \<Rightarrow> 'd" where
  "db_of s = al_db (as_logger s)"

definition set_db :: "'d \<Rightarrow> ('c, 'd) api_state \<Rightarrow> ('c, 'd) api_state" where
  "set_db d s = s\<lparr>as_logger := (as_logger s)\<lparr>al_db := d\<rparr>\<rparr>"

record api_env =
  ae_random :: "bytes option"
  ae_fallback :: bytes
  ae_authNow :: gotime
  ae_start :: gotime
  ae_elapsed :: duration

section \<open>Answers\<close>

text \<open>\<^verbatim>\<open>http.StatusText\<close> of the codes the handlers send.\<close>

definition StatusText :: "int \<Rightarrow> string" where
  "StatusText code =
     (if code = 200 then ''OK''
      else if code = 400 then ''Bad Request''
      else if code = 401 then ''Unauthorized''
      else if code = 403 then ''Forbidden''
      else if code = 404 then ''Not Found''
      else if code = 405 then ''Method Not Allowed''
      else if code = 500 then ''Internal Server Error''
      else if code = 503 then ''Service Unavailable''
      else if code = 504 then ''Gateway Timeout''
      else [])"

text \<open>\<^verbatim>\<open>json.NewEncoder(w).Encode\<close> of an encoded value: one write, with a line break at the end.\<close>

definition w_Encode :: "rwriter \<Rightarrow> bytes \<Rightarrow> goerror option \<times> rwriter" where
  "w_Encode w v = (case w_Write w (v @ newline) of ((n, e), w') \<Rightarrow> (e, w'))"

definition error_body :: "int \<Rightarrow> string \<Rightarrow> bytes" where
  "error_body status msg =
     Marshal (JObj [(''error'', JObj [(''message'', JStr msg), (''type'', JStr (map lower (StatusText status))),
                                      (''code'', JInt status)])])"

definition writeJSON :: "rwriter \<Rightarrow> int \<Rightarrow> bytes \<Rightarrow> rwriter" where
  "writeJSON w status v =
     (let w1 = w_SetHeader w (header_Set (w_Header w) ''Content-Type'' ''application/json'');
          w2 = w_begin w1 status
      in snd (w_Encode w2 v))"

definition writeError :: "rwriter \<Rightarrow> int \<Rightarrow> string \<Rightarrow> rwriter" where
  "writeError w status msg =
     (let w1 = w_SetHeader w (header_Set (w_Header w) ''Content-Type'' ''application/json'');
          w2 = w_begin w1 status
      in snd (w_Encode w2 (error_body status msg)))"

section \<open>The layers\<close>

definition set_headers :: "(string \<times> string) list \<Rightarrow> rwriter \<Rightarrow> rwriter" where
  "set_headers kvs w = fold (\<lambda>(k, v) w. w_SetHeader w (header_Set (w_Header w) k v)) kvs w"

definition corsMiddleware :: "string list \<Rightarrow> 's handler \<Rightarrow> 's handler" where
  "corsMiddleware origins next w r s =
     (let allowAll = (origins = [''*'']);
          origin = header_Get (ar_Header r) ''Origin'';
          w1 = (if origin \<noteq> [] \<and> (allowAll \<or> origin \<in> set origins)
                then set_headers
                  [(''Access-Control-Allow-Origin'', origin),
                   (''Access-Control-Allow-Methods'', ''GET,POST,PUT,DELETE,OPTIONS''),
                   (''Access-Control-Allow-Headers'', ''Content-Type,Authorization,X-Session-Id''),
                   (''Access-Control-Max-Age'', ''86400'')] w
                else w)
      in if ar_Method r = ''OPTIONS'' then Some (w_begin w1 204, s) else next w1 r s)"

definition traceMiddleware :: "api_env \<Rightarrow> 's handler \<Rightarrow> 's handler" where
  "traceMiddleware env next w r s =
     (let given = header_Get (ar_Header r) ''X-Request-Id'';
          rid = (if given = [] then GenerateID (ae_random env) (ae_fallback env) else given);
          sid = header_Get (ar_Header r) ''X-Session-Id'';
          r1 = withSessionID (withRequestID r rid) sid;
          w1 = w_SetHeader w (header_Set (w_Header w) ''X-Request-Id'' rid)
      in next w1 r1 s)"

definition authMiddleware ::
  "(string \<Rightarrow> 'd \<Rightarrow> (goerror + APIKey option) \<times> 'd) \<Rightarrow> api_env \<Rightarrow> ('c, 'd) api_state handler \<Rightarrow> ('c, 'd) api_state handler" where
  "authMiddleware GetAPIKeyByValue env next w r s =
     (case ExtractToken (ar_Header r) of
        None \<Rightarrow> Some (writeError w 401 ''missing or invalid Authorization header'', s)
      | Some token \<Rightarrow>
          (case GetAPIKeyByValue token (db_of s) of
             (found, db) \<Rightarrow>
               (case Authenticate (\<lambda>_. found) (ae_authNow env) token of
                  Inl ErrExpired \<Rightarrow> Some (writeError w 401 ''api key expired'', set_db db s)
                | Inl ErrUnauthorized \<Rightarrow> Some (writeError w 401 ''unauthorized'', set_db db s)
                | Inr key \<Rightarrow>
                    next w
                      (withProxyCtx r
                         \<lparr>pc_RequestID = requestIDFrom r, pc_SessionID = sessionIDFrom r, pc_APIKey = Some key,
                          pc_TargetNode = None, pc_ModelAlias = [], pc_Stream = False, pc_StartTime = ae_start env\<rparr>)
                      (set_db db s))))"

definition adminAuthMiddleware :: "string \<Rightarrow> ('c, 'd) api_state handler \<Rightarrow> ('c, 'd) api_state handler" where
  "adminAuthMiddleware adminToken next w r s =
     (if adminToken = []
      then Some (writeError w 403 ''admin access disabled: no admin_token configured'',
                 log_lines [slog LWarn ''admin access denied: admin_token is not configured in config.toml'' []] s)
      else
        let token = (case ExtractToken (ar_Header r) of
                       Some t \<Rightarrow> t
                     | None \<Rightarrow> values_Get (url_Query (ar_RawQuery r)) ''token'')
        in if token = [] \<or> token \<noteq> adminToken then Some (writeError w 401 ''unauthorized'', s)
           else next w r s)"

text \<open>The handler inside is given the recorder and returns it, so the second case does not occur.\<close>

definition accessLogMiddleware :: "api_env \<Rightarrow> ('c, 'd) api_state handler \<Rightarrow> ('c, 'd) api_state handler" where
  "accessLogMiddleware env next w r s =
     (case next (StatusRecorder w 200) r s of
        None \<Rightarrow> None
      | Some (Response w', s') \<Rightarrow> None
      | Some (StatusRecorder w' status, s') \<Rightarrow>
          Some (w', log_lines
            [slog LInfo ''access''
               [(''method'', ar_Method r), (''path'', ar_Path r), (''status'', FormatInt status),
                (''duration_ms'', FormatInt (Milliseconds (ae_elapsed env))), (''request_id'', requestIDFrom r),
                (''remote'', ar_RemoteAddr r)]] s'))"

text \<open>The loop of \<^verbatim>\<open>chain\<close> from the last layer to the first.\<close>

definition chain :: "'s handler \<Rightarrow> ('s handler \<Rightarrow> 's handler) list \<Rightarrow> 's handler" where
  "chain h middlewares = foldr (\<lambda>m h. m h) middlewares h"

section \<open>What a writer has sent\<close>

text \<open>A recorder changes nothing of what reaches the server's response.\<close>

lemma w_under_simps [simp, http_simps]:
  "w_Header w = rw_header (w_under w)"
  "w_under (w_SetHeader w h) = rw_SetHeader (w_under w) h"
  "w_under (w_begin w c) = rw_begin (w_under w) c"
  "w_under (w_Flush w) = rw_Flush (w_under w)"
  by (induction w) simp_all

lemma w_under_WriteHeader: "map_option w_under (w_WriteHeader w c) = rw_WriteHeader (w_under w) c"
  by (induction w) (simp_all add: option.map_comp comp_def option.map_ident)

lemma w_under_Write [simp, http_simps]:
  "fst (w_Write w b) = fst (rw_Write (w_under w) b)" "w_under (snd (w_Write w b)) = snd (rw_Write (w_under w) b)"
  by (induction w) (simp_all add: case_prod_unfold)

interpretation aw: http_writer w_ops "\<lambda>w. rw_status (w_under w)" "\<lambda>w. rw_body (w_under w)" "\<lambda>_. True"
proof
  fix w h
  assume "rw_status (w_under w) = None"
  then show "True \<and> W_Header w_ops (W_SetHeader w_ops w h) = h \<and> rw_status (w_under (W_SetHeader w_ops w h)) = None \<and>
      rw_body (w_under (W_SetHeader w_ops w h)) = rw_body (w_under w)"
    by (simp add: w_ops_def rw_defs)
next
  fix w w' and c :: int
  assume "rw_status (w_under w) = None" "W_WriteHeader w_ops w c = Some w'"
  then show "True \<and> rw_status (w_under w') = Some c \<and> rw_body (w_under w') = rw_body (w_under w)"
    using w_under_WriteHeader [of w c] by (auto simp: w_ops_def rw_defs split: if_splits)
next
  fix w and c :: int
  assume "\<not> bad_code c"
  then show "W_WriteHeader w_ops w c \<noteq> None"
    by (simp add: w_ops_def w_WriteHeader_begin)
next
  fix w c b n e w'
  assume a: "rw_status (w_under w) = Some c" "W_Write w_ops w b = ((n, e), w')"
  then have "rw_Write (w_under w) b = ((n, e), w_under w')"
    using w_under_Write [of w b] by (simp add: w_ops_def prod_eq_iff)
  then show "True \<and> rw_status (w_under w') = Some c \<and> rw_body (w_under w') = rw_body (w_under w) @ take n b \<and> (e = None \<longrightarrow> n = length b)"
    using rw.write_bytes [of "w_under w" c b n e "w_under w'"] a(1) by (simp add: rw_ops_def)
next
  fix w c f
  assume "rw_status (w_under w) = Some c" "W_Flush w_ops = Some f"
  then show "True \<and> rw_status (w_under (f w)) = Some c \<and> rw_body (w_under (f w)) = rw_body (w_under w)"
    by (auto simp: w_ops_def rw_defs Let_def)
qed

text \<open>A response to which nothing has been written, on a connection that takes all writes.\<close>

definition fresh_response :: "rwriter \<Rightarrow> bool" where
  "fresh_response w \<longleftrightarrow> rw_status (w_under w) = None \<and> rw_body (w_under w) = [] \<and> rw_fault (w_under w) = (\<lambda>_. None)"

definition answered :: "int \<Rightarrow> bytes \<Rightarrow> rwriter \<Rightarrow> bool" where
  "answered code body w \<longleftrightarrow> rw_status (w_under w) = Some code \<and> rw_body (w_under w) = body"

lemma fresh_SetHeader [simp]: "fresh_response (w_SetHeader w h) \<longleftrightarrow> fresh_response w"
  by (simp add: fresh_response_def rw_SetHeader_def)

lemma fresh_StatusRecorder [simp]: "fresh_response (StatusRecorder w st) \<longleftrightarrow> fresh_response w"
  by (simp add: fresh_response_def)

lemma set_headers_simps [simp]:
  "set_headers [] w = w"
  "set_headers ((k, v) # kvs) w = set_headers kvs (w_SetHeader w (header_Set (w_Header w) k v))"
  by (simp_all add: set_headers_def)

lemma fresh_set_headers [simp]: "fresh_response (set_headers kvs w) \<longleftrightarrow> fresh_response w"
proof (induction kvs arbitrary: w)
  case (Cons kv kvs)
  obtain k v where kv: "kv = (k, v)" by (cases kv)
  show ?case unfolding kv set_headers_simps Cons.IH fresh_SetHeader by (rule refl)
qed simp

lemma writeJSON_answer: "fresh_response w \<Longrightarrow> answered code (v @ newline) (writeJSON w code v)"
  by (simp add: fresh_response_def answered_def writeJSON_def w_Encode_def Let_def case_prod_unfold rw_defs)

lemma writeError_answer: "fresh_response w \<Longrightarrow> answered code (error_body code msg @ newline) (writeError w code msg)"
  using writeJSON_answer [of w code "error_body code msg"] by (simp add: writeError_def writeJSON_def)

text \<open>Whatever a writer did before, the first status counts.\<close>

lemma writeError_status:
  "rw_status (w_under (writeError w code msg)) = Some (case rw_status (w_under w) of None \<Rightarrow> code | Some c \<Rightarrow> c)"
  by (auto simp: writeError_def w_Encode_def Let_def case_prod_unfold rw_defs split: option.split)

fun is_recorder :: "rwriter \<Rightarrow> bool" where
  "is_recorder (Response w) = False"
| "is_recorder (StatusRecorder w st) = True"

lemma is_recorder_simps [simp]:
  "is_recorder (w_SetHeader w h) = is_recorder w" "is_recorder (w_begin w c) = is_recorder w"
  "is_recorder (snd (w_Write w b)) = is_recorder w"
  by (cases w; simp split: prod.split)+

lemma is_recorder_writeJSON [simp]: "is_recorder (writeJSON w c v) = is_recorder w"
  by (simp add: writeJSON_def w_Encode_def Let_def case_prod_unfold)

lemma is_recorder_writeError [simp]: "is_recorder (writeError w c m) = is_recorder w"
  by (simp add: writeError_def w_Encode_def Let_def case_prod_unfold)

section \<open>The guards\<close>

text \<open>The key a request is admitted with.\<close>

definition admitted_key ::
  "(string \<Rightarrow> 'd \<Rightarrow> (goerror + APIKey option) \<times> 'd) \<Rightarrow> gotime \<Rightarrow> header \<Rightarrow> 'd \<Rightarrow> APIKey option" where
  "admitted_key get now h db =
     (case ExtractToken h of
        None \<Rightarrow> None
      | Some t \<Rightarrow> (case Authenticate (\<lambda>_. fst (get t db)) now t of Inl _ \<Rightarrow> None | Inr key \<Rightarrow> Some key))"

lemma admitted_key_iff:
  "admitted_key get now h db = Some key \<longleftrightarrow>
     (\<exists>t. header_Get h ''Authorization'' = ''Bearer '' @ t \<and> t \<noteq> [] \<and> fst (get t db) = Inr (Some key) \<and>
        k_Enabled key \<and> (\<forall>e. k_ExpiresAt key = Some e \<longrightarrow> now \<le> e))"
proof -
  have a: "(case Authenticate (\<lambda>_. fst (get t db)) now t of Inl _ \<Rightarrow> None | Inr key \<Rightarrow> Some key) = Some key \<longleftrightarrow>
      fst (get t db) = Inr (Some key) \<and> k_Enabled key \<and> (\<forall>e. k_ExpiresAt key = Some e \<longrightarrow> now \<le> e)" for t
    using Authenticate_Inr [of "\<lambda>_. fst (get t db)" now t key] by (auto split: sum.splits)
  show ?thesis
  proof (cases "ExtractToken h")
    case None
    then show ?thesis using ExtractToken_Some [of h] by (auto simp: admitted_key_def)
  next
    case (Some t)
    have "admitted_key get now h db = Some key \<longleftrightarrow>
        fst (get t db) = Inr (Some key) \<and> k_Enabled key \<and> (\<forall>e. k_ExpiresAt key = Some e \<longrightarrow> now \<le> e)"
      unfolding admitted_key_def Some option.case by (rule a)
    moreover have "header_Get h ''Authorization'' = ''Bearer '' @ t" "t \<noteq> []" using ExtractToken_Some [of h t] Some by simp_all
    ultimately show ?thesis by (simp only: same_append_eq) blast
  qed
qed

lemma auth_rejects:
  assumes "admitted_key get (ae_authNow env) (ar_Header r) (db_of s) = None"
  shows "\<exists>msg db. authMiddleware get env next w r s = Some (writeError w 401 msg, set_db db s)"
proof (cases "ExtractToken (ar_Header r)")
  case None
  have "set_db (db_of s) s = s" by (simp add: set_db_def db_of_def)
  then show ?thesis using None by (auto simp: authMiddleware_def intro: exI [of _ "db_of s"])
next
  case (Some t)
  obtain f db where g: "get t (db_of s) = (f, db)" by (metis surj_pair)
  then obtain e where "Authenticate (\<lambda>_. f) (ae_authNow env) t = Inl e"
    using assms Some by (auto simp: admitted_key_def split: sum.splits)
  then show ?thesis using Some g by (cases e) (auto simp: authMiddleware_def)
qed

lemma auth_admits:
  assumes "admitted_key get (ae_authNow env) (ar_Header r) (db_of s) = Some key"
  shows "\<exists>db. authMiddleware get env next w r s =
    next w (withProxyCtx r \<lparr>pc_RequestID = requestIDFrom r, pc_SessionID = sessionIDFrom r, pc_APIKey = Some key,
        pc_TargetNode = None, pc_ModelAlias = [], pc_Stream = False, pc_StartTime = ae_start env\<rparr>) (set_db db s)"
proof -
  obtain t where t: "ExtractToken (ar_Header r) = Some t" using assms by (auto simp: admitted_key_def split: option.splits)
  obtain f db where g: "get t (db_of s) = (f, db)" by (metis surj_pair)
  then have "Authenticate (\<lambda>_. f) (ae_authNow env) t = Inr key"
    using assms t by (auto simp: admitted_key_def split: sum.splits)
  then show ?thesis using t g by (auto simp: authMiddleware_def)
qed

text \<open>The token a request shows to the administration interface.\<close>

definition admin_token_of :: "api_request \<Rightarrow> string" where
  "admin_token_of r =
     (case ExtractToken (ar_Header r) of Some t \<Rightarrow> t | None \<Rightarrow> values_Get (url_Query (ar_RawQuery r)) ''token'')"

lemma admin_rejects:
  assumes "adminToken = [] \<or> admin_token_of r \<noteq> adminToken"
  shows "\<exists>code msg ls. code \<in> {401, 403} \<and> adminAuthMiddleware adminToken next w r s = Some (writeError w code msg, log_lines ls s)"
proof (cases "adminToken = []")
  case True
  then show ?thesis by (auto simp: adminAuthMiddleware_def)
next
  case False
  have "log_lines [] s = s" by (simp add: log_lines_def)
  then have "adminAuthMiddleware adminToken next w r s = Some (writeError w 401 ''unauthorized'', log_lines [] s)"
    using assms False by (simp add: adminAuthMiddleware_def admin_token_of_def)
  then show ?thesis by blast
qed

lemma admin_admits:
  "adminToken \<noteq> [] \<Longrightarrow> admin_token_of r = adminToken \<Longrightarrow> adminAuthMiddleware adminToken next w r s = next w r s"
  by (auto simp: adminAuthMiddleware_def admin_token_of_def Let_def)

end
