(* ===== verification/Recorder.thy ===== *)
theory Recorder
  imports Chain_Log
begin

text \<open>
  The buffering response writer \<^verbatim>\<open>retryableRecorder\<close> of \<^verbatim>\<open>internal/worker/pool.go\<close>.  It holds
  back a response whose status may be retried and passes every other response on to the
  client's writer, which it contains.  The writer interface is interpreted on it, and the
  properties compare what the client gets with what was written to the recorder.
\<close>

section \<open>Model\<close>

record retryableRecorder =
  r_w :: ResponseWriter
  r_header :: header
  r_statusCode :: int
  r_wroteHeader :: bool
  r_body :: bytes
  r_commit :: bool

definition newRetryableRecorder :: "ResponseWriter \<Rightarrow> retryableRecorder" where
  "newRetryableRecorder w =
     \<lparr>r_w = w, r_header = [], r_statusCode = 0, r_wroteHeader = False, r_body = [], r_commit = False\<rparr>"

definition rec_SetHeader :: "retryableRecorder \<Rightarrow> header \<Rightarrow> retryableRecorder" where
  "rec_SetHeader r h = r\<lparr>r_header := h\<rparr>"

text \<open>A panic of the client's writer is one of the recorder.\<close>

definition rec_Commit :: "retryableRecorder \<Rightarrow> retryableRecorder option" where
  "rec_Commit r =
     (if r_commit r then Some r
      else let w1 = rw_SetHeader (r_w r) (put_headers (r_header r) (rw_header (r_w r)));
               sc = (if r_statusCode r = 0 then 200 else r_statusCode r)
           in (case rw_WriteHeader w1 sc of
                 None \<Rightarrow> None
               | Some w2 \<Rightarrow> Some (r\<lparr>r_commit := True, r_statusCode := sc, r_w := w2\<rparr>)))"

definition rec_WriteHeader :: "retryableRecorder \<Rightarrow> int \<Rightarrow> retryableRecorder option" where
  "rec_WriteHeader r statusCode =
     (if r_wroteHeader r then Some r
      else let r1 = r\<lparr>r_statusCode := statusCode, r_wroteHeader := True\<rparr>
           in if \<not> IsRetryable (ClassifyError None statusCode) then rec_Commit r1 else Some r1)"

text \<open>A write without a status first writes the status 200.  That never panics (\<open>rec_WriteHeader_ok\<close>).\<close>

definition rec_Write :: "retryableRecorder \<Rightarrow> bytes \<Rightarrow> (nat \<times> goerror option) \<times> retryableRecorder" where
  "rec_Write r b =
     (let r1 = (if \<not> r_wroteHeader r then the (rec_WriteHeader r 200) else r)
      in if r_commit r1
         then (case rw_Write (r_w r1) b of (res, w') \<Rightarrow> (res, r1\<lparr>r_w := w'\<rparr>))
         else ((length b, None), r1\<lparr>r_body := r_body r1 @ b\<rparr>))"

text \<open>The server's writer is a \<^verbatim>\<open>Flusher\<close>, so the type assertion in \<^verbatim>\<open>Flush\<close> succeeds.\<close>

definition rec_Flush :: "retryableRecorder \<Rightarrow> retryableRecorder" where
  "rec_Flush r = (if r_commit r then r\<lparr>r_w := rw_Flush (r_w r)\<rparr> else r)"

definition rec_ops :: "retryableRecorder writer_ops" where
  "rec_ops = \<lparr>W_Header = r_header, W_SetHeader = rec_SetHeader, W_WriteHeader = rec_WriteHeader,
              W_Write = rec_Write, W_Flush = Some rec_Flush\<rparr>"

lemma rec_ops_simps [simp]:
  "W_Header rec_ops = r_header" "W_SetHeader rec_ops = rec_SetHeader"
  "W_WriteHeader rec_ops = rec_WriteHeader" "W_Write rec_ops = rec_Write" "W_Flush rec_ops = Some rec_Flush"
  by (simp_all add: rec_ops_def)

lemmas rec_defs [http_simps] = rec_SetHeader_def rec_Commit_def rec_WriteHeader_def rec_Write_def rec_Flush_def

lemma rec_WriteHeader_ok: "\<not> bad_code c \<Longrightarrow> rec_WriteHeader r c \<noteq> None"
  by (auto simp: rec_WriteHeader_def rec_Commit_def rw_WriteHeader_def bad_code_def Let_def)

section \<open>The writer contract\<close>

definition rec_status :: "retryableRecorder \<Rightarrow> int option" where
  "rec_status r = (if r_wroteHeader r then Some (r_statusCode r) else None)"

text \<open>The bytes produced so far, those the client has and those held back.\<close>

definition rec_bytes :: "retryableRecorder \<Rightarrow> bytes" where
  "rec_bytes r = rw_body (r_w r) @ r_body r"

definition rec_good :: "retryableRecorder \<Rightarrow> bool" where
  "rec_good r \<longleftrightarrow>
     (if r_commit r then r_wroteHeader r \<and> r_body r = [] \<and> rw_status (r_w r) \<noteq> None
      else r_wroteHeader r \<or> r_body r = [])"

lemma rw_Write_result:
  "rw_Write w b = ((n, e), w') \<Longrightarrow>
   rw_body w' = rw_body w @ take n b \<and> (e = None \<longrightarrow> n = length b) \<and> rw_status w' \<noteq> None"
  by (auto simp: http_simps Let_def min_def split: option.splits if_splits)

interpretation rec: http_writer rec_ops rec_status rec_bytes rec_good
proof
  fix w w' :: retryableRecorder and h c b n e f
  show "rec_good w \<Longrightarrow> rec_status w = None \<Longrightarrow>
      rec_good (W_SetHeader rec_ops w h) \<and> W_Header rec_ops (W_SetHeader rec_ops w h) = h \<and>
      rec_status (W_SetHeader rec_ops w h) = None \<and> rec_bytes (W_SetHeader rec_ops w h) = rec_bytes w"
    by (auto simp: rec_SetHeader_def rec_good_def rec_status_def rec_bytes_def split: if_splits)
  show "rec_good w \<Longrightarrow> rec_status w = None \<Longrightarrow> c \<noteq> 0 \<Longrightarrow> W_WriteHeader rec_ops w c = Some w' \<Longrightarrow>
      rec_good w' \<and> rec_status w' = Some c \<and> rec_bytes w' = rec_bytes w"
    by (auto simp: http_simps Let_def rec_good_def rec_status_def rec_bytes_def split: if_splits)
  show "rec_good w \<Longrightarrow> \<not> bad_code c \<Longrightarrow> W_WriteHeader rec_ops w c \<noteq> None"
    using rec_WriteHeader_ok by simp
  show "rec_good w \<Longrightarrow> rec_status w = Some c \<Longrightarrow> W_Write rec_ops w b = ((n, e), w') \<Longrightarrow>
      rec_good w' \<and> rec_status w' = Some c \<and> rec_bytes w' = rec_bytes w @ take n b \<and> (e = None \<longrightarrow> n = length b)"
    by (auto simp: rec_Write_def Let_def rec_good_def rec_status_def rec_bytes_def
        dest!: rw_Write_result split: if_splits prod.splits)
  show "rec_good w \<Longrightarrow> rec_status w = Some c \<Longrightarrow> W_Flush rec_ops = Some f \<Longrightarrow>
      rec_good (f w) \<and> rec_status (f w) = Some c \<and> rec_bytes (f w) = rec_bytes w"
    by (auto simp: rec_Flush_def rw_Flush_def rw_begin_def Let_def rec_good_def rec_status_def rec_bytes_def)
qed

section \<open>Runs of writer calls\<close>

datatype writer_call = CallSetHeader header | CallWriteHeader int | CallWrite bytes | CallFlush

fun do_call :: "'w writer_ops \<Rightarrow> writer_call \<Rightarrow> 'w \<Rightarrow> 'w option" where
  "do_call W (CallSetHeader h) w = Some (W_SetHeader W w h)"
| "do_call W (CallWriteHeader c) w = W_WriteHeader W w c"
| "do_call W (CallWrite b) w = Some (snd (W_Write W w b))"
| "do_call W CallFlush w = Some (case W_Flush W of None \<Rightarrow> w | Some f \<Rightarrow> f w)"

fun do_calls :: "'w writer_ops \<Rightarrow> writer_call list \<Rightarrow> 'w \<Rightarrow> 'w option" where
  "do_calls W [] w = Some w"
| "do_calls W (c # cs) w = (case do_call W c w of None \<Rightarrow> None | Some w' \<Rightarrow> do_calls W cs w')"

lemma rec_commit_cases:
  assumes "rec_WriteHeader r c = Some r'"
  shows "r_commit r \<Longrightarrow> r_commit r'" "\<not> r_commit r' \<Longrightarrow> r_w r' = r_w r"
  using assms by (auto simp: rec_WriteHeader_def rec_Commit_def Let_def split: if_splits option.splits)

lemma do_call_commit: "do_call rec_ops c r = Some r' \<Longrightarrow> (r_commit r \<longrightarrow> r_commit r') \<and> (\<not> r_commit r' \<longrightarrow> r_w r' = r_w r)"
proof (cases c)
  case (CallWrite b)
  assume d: "do_call rec_ops c r = Some r'"
  obtain r1 where "rec_WriteHeader r 200 = Some r1" using rec_WriteHeader_ok [of 200 r] by (auto simp: bad_code_def)
  then show ?thesis
    using d CallWrite rec_commit_cases [of r 200 r1] by (auto simp: rec_Write_def Let_def split: if_splits prod.splits)
qed (auto simp: rec_SetHeader_def rec_Flush_def dest: rec_commit_cases)

lemma do_calls_uncommitted:
  "do_calls rec_ops cs r = Some r' \<Longrightarrow> (r_commit r \<longrightarrow> r_commit r') \<and> (\<not> r_commit r' \<longrightarrow> r_w r' = r_w r)"
proof (induction cs arbitrary: r)
  case (Cons c cs)
  then obtain r1 where "do_call rec_ops c r = Some r1" "do_calls rec_ops cs r1 = Some r'" by (auto split: option.splits)
  then show ?case using Cons.IH do_call_commit by metis
qed simp

text \<open>Once committed, body calls go straight to the client's writer.\<close>

fun body_call :: "writer_call \<Rightarrow> bool" where
  "body_call (CallWrite b) = True"
| "body_call CallFlush = True"
| "body_call _ = False"

lemma do_calls_through:
  assumes "r_commit r" "r_wroteHeader r" "\<forall>c\<in>set cs. body_call c"
  shows "do_calls rec_ops cs r = map_option (\<lambda>w. r\<lparr>r_w := w\<rparr>) (do_calls rw_ops cs (r_w r))"
  using assms
proof (induction cs arbitrary: r)
  case (Cons c cs)
  have "do_call rec_ops c r = map_option (\<lambda>w. r\<lparr>r_w := w\<rparr>) (do_call rw_ops c (r_w r))"
    using Cons.prems by (cases c) (auto simp: rec_Write_def rec_Flush_def rw_ops_def split: prod.splits)
  then show ?case using Cons by (auto split: option.split)
qed simp

section \<open>Properties\<close>

text \<open>C24. Until the recorder commits, the client's writer is untouched: whatever sequence of calls is
  made on a new recorder, if it has not committed, the client has seen nothing.\<close>

theorem recorder_holds_back:
  assumes "do_calls rec_ops cs (newRetryableRecorder w) = Some r" "\<not> r_commit r"
  shows "r_w r = w"
  using do_calls_uncommitted [OF assms(1)] assms(2) by (simp add: newRetryableRecorder_def)

definition fresh_writer :: ResponseWriter where
  "fresh_writer = \<lparr>rw_header = [], rw_status = None, rw_sent = [], rw_body = [], rw_writes = 0,
     rw_flushes = 0, rw_fault = (\<lambda>_. None)\<rparr>"

theorem recorder_holds_back_witness:
  "\<exists>r. do_calls rec_ops [CallWriteHeader 503, CallWrite ''busy''] (newRetryableRecorder fresh_writer) = Some r \<and>
     r_body r = ''busy'' \<and> r_w r = fresh_writer"
proof -
  have "\<exists>r. do_calls rec_ops [CallWriteHeader 503, CallWrite ''busy''] (newRetryableRecorder fresh_writer) = Some r \<and>
      \<not> r_commit r \<and> r_body r = ''busy''"
    by (simp add: newRetryableRecorder_def http_simps Let_def IsRetryable_def ClassifyError_def)
  then show ?thesis using recorder_holds_back by blast
qed

text \<open>C23. A response that will not be retried goes through unchanged: setting the header, writing a
  status that is not retryable and then any writes and flushes has the same effect on the
  client's writer as making these calls on it directly, a panic on an invalid status included.\<close>

theorem recorder_transparent:
  assumes "\<not> IsRetryable (ClassifyError None code)" "code \<noteq> 0" "\<forall>c\<in>set cs. body_call c"
  shows "map_option r_w (do_calls rec_ops (CallSetHeader h # CallWriteHeader code # cs) (newRetryableRecorder w)) =
    do_calls rw_ops (CallSetHeader (put_headers h (rw_header w)) # CallWriteHeader code # cs) w"
proof (cases "rw_WriteHeader (rw_SetHeader w (put_headers h (rw_header w))) code")
  case None
  then show ?thesis
    using assms(1,2) by (simp add: newRetryableRecorder_def rec_WriteHeader_def rec_SetHeader_def rec_Commit_def rw_ops_def Let_def)
next
  case (Some w1)
  then obtain r where r: "rec_WriteHeader (rec_SetHeader (newRetryableRecorder w) h) code = Some r"
      "r_commit r" "r_wroteHeader r" "r_w r = w1"
    using assms(1,2) by (simp add: newRetryableRecorder_def rec_WriteHeader_def rec_SetHeader_def rec_Commit_def Let_def)
  then show ?thesis
    using do_calls_through [OF r(2,3) assms(3)] Some by (simp add: rw_ops_def option.map_comp comp_def option.map_ident)
qed

theorem recorder_transparent_witness:
  "\<exists>w. map_option r_w (do_calls rec_ops [CallSetHeader [], CallWriteHeader 200, CallWrite ''ok'']
     (newRetryableRecorder fresh_writer)) = Some w \<and> rw_body w = ''ok''"
proof -
  have "map_option r_w (do_calls rec_ops (CallSetHeader [] # CallWriteHeader 200 # [CallWrite ''ok''])
      (newRetryableRecorder fresh_writer)) =
    do_calls rw_ops (CallSetHeader (put_headers [] (rw_header fresh_writer)) # CallWriteHeader 200 # [CallWrite ''ok'']) fresh_writer"
    by (rule recorder_transparent) (simp_all add: IsRetryable_def ClassifyError_def)
  moreover have "\<exists>w. do_calls rw_ops [CallSetHeader (put_headers [] (rw_header fresh_writer)), CallWriteHeader 200, CallWrite ''ok''] fresh_writer =
      Some w \<and> rw_body w = ''ok''"
    by (simp add: rw_ops_def rw_SetHeader_def rw_WriteHeader_def rw_begin_def rw_Write_def bad_code_def fresh_writer_def)
  ultimately show ?thesis by simp
qed

end
