(* ===== verification/Openai_Api.thy ===== *)
theory Openai_Api
  imports Middleware Router Recorder
begin

text \<open>
  \<^verbatim>\<open>internal/api/openai.go\<close>: the OpenAI-compatible endpoints.

  \<open>forward\<close> is the whole handler.  While it waits in its \<^verbatim>\<open>select\<close>, the rest of the program runs;
  what happens meanwhile is the argument \<open>wait\<close>: from the writer, the request put into the queue
  and the state it makes the writer and the state at the end of the wait and the branch of the
  \<^verbatim>\<open>select\<close> that is taken.  The goroutine that records the tokens is put on the list of started tasks
  with the arguments of its call of \<^verbatim>\<open>RecordTokens\<close>.  The result \<open>None\<close> is a panic: of a request that
  did not pass the authentication layer.
\<close>

section \<open>Model\<close>

record OpenAIHandler =
  oh_router :: Router
  oh_config :: AppConfig

record openai_env =
  oe_order :: "string list"
  oe_timestamp :: gotime
  oe_resumed :: gotime
  oe_logged :: gotime
  oe_finished :: gotime
  oe_ready :: bool
  oe_readyDetail :: bool

datatype wait_outcome = GotResult ExecutionResult | DeadlineExceeded | ContextCanceled

type_synonym ('c, 'd) waiting =
  "rwriter \<Rightarrow> PendingRequest \<Rightarrow> ('c, 'd) api_state \<Rightarrow> wait_outcome \<times> rwriter \<times> ('c, 'd) api_state"

text \<open>\<^verbatim>\<open>listModels\<close>: the aliases of the enabled nodes, each once, in the order of the nodes.\<close>

fun model_loop :: "string list \<Rightarrow> string list \<Rightarrow> string list" where
  "model_loop seen [] = []"
| "model_loop seen (a # as) = (if a \<in> set seen then model_loop seen as else a # model_loop (a # seen) as)"

definition model_obj :: "string \<Rightarrow> bytes" where
  "model_obj a = json_members [(''id'', json_string a), (''object'', json_string ''model''), (''owned_by'', json_string ''proxyllm'')]"

text \<open>A nil slice is encoded as \<^verbatim>\<open>null\<close>.\<close>

definition model_list :: "string list \<Rightarrow> bytes" where
  "model_list as =
     json_members [(''data'', if as = [] then ''null'' else json_array (map model_obj as)), (''object'', json_string ''list'')]"

definition listModels :: "OpenAIHandler \<Rightarrow> openai_env \<Rightarrow> 's handler" where
  "listModels h oe w r s =
     (if ar_Method r \<noteq> ''GET'' then Some (writeError w 405 ''method not allowed'', s)
      else let nodes = ListEnabled (oe_order oe) (oh_router h)
           in Some (writeJSON w 200 (model_list (model_loop [] (concat (map n_Aliases nodes)))), s))"

text \<open>\<^verbatim>\<open>int(p)\<close> of a \<^verbatim>\<open>float64\<close>; out of range amd64 yields the smallest integer.\<close>

definition float_to_int :: "rat \<Rightarrow> int" where
  "float_to_int x = (let t = go_trunc x in if is_i64 t then t else - (2 ^ 63))"

definition get_string :: "jobject option \<Rightarrow> string \<Rightarrow> string" where
  "get_string m k = (case m of None \<Rightarrow> [] | Some ob \<Rightarrow> (case map_of ob k of Some (JStr s) \<Rightarrow> s | _ \<Rightarrow> []))"

definition get_bool :: "jobject option \<Rightarrow> string \<Rightarrow> bool" where
  "get_bool m k = (case m of None \<Rightarrow> False | Some ob \<Rightarrow> (case map_of ob k of Some (JBool b) \<Rightarrow> b | _ \<Rightarrow> False))"

definition request_priority :: "int \<Rightarrow> jobject option \<Rightarrow> int" where
  "request_priority def m =
     (case m of None \<Rightarrow> def | Some ob \<Rightarrow> (case map_of ob ''priority'' of Some (JNum p) \<Rightarrow> float_to_int p | _ \<Rightarrow> def))"

text \<open>The usage member of an answer's body, decoded into the three counters of the local struct.\<close>

definition dec_usage :: "bytes \<Rightarrow> jraw \<Rightarrow> int \<times> int \<times> int \<Rightarrow> (int \<times> int \<times> int) option" where
  "dec_usage k v u =
     (case u of (p, c, t) \<Rightarrow>
        if field_is k ''prompt_tokens'' then map_option (\<lambda>x. (x, c, t)) (decode_int v p)
        else if field_is k ''completion_tokens'' then map_option (\<lambda>x. (p, x, t)) (decode_int v c)
        else if field_is k ''total_tokens'' then map_option (\<lambda>x. (p, c, x)) (decode_int v t)
        else Some u)"

definition body_usage :: "bytes \<Rightarrow> (int \<times> int \<times> int) option" where
  "body_usage body =
     (case parse_text body of
        None \<Rightarrow> None
      | Some t \<Rightarrow>
          decode_struct (\<lambda>k v u. if field_is k ''usage'' then decode_struct dec_usage v u else Some u) t (0, 0, 0))"

text \<open>The token counts of a result: its own, or, if it has none, those of its body.\<close>

definition result_tokens :: "ExecutionResult \<Rightarrow> int \<times> int \<times> int" where
  "result_tokens result =
     (if x_TotalTokens result \<le> 0 \<and> length (x_Body result) > 0
      then (case body_usage (x_Body result) of
              Some (p, c, t) \<Rightarrow>
                if t > 0 then (p, c, t)
                else (x_PromptTokens result, x_CompletionTokens result, x_TotalTokens result)
            | None \<Rightarrow> (x_PromptTokens result, x_CompletionTokens result, x_TotalTokens result))
      else (x_PromptTokens result, x_CompletionTokens result, x_TotalTokens result))"

definition on_metrics :: "(Registry \<Rightarrow> Registry) \<Rightarrow> ('c, 'd) api_state \<Rightarrow> ('c, 'd) api_state" where
  "on_metrics f s = s\<lparr>as_metrics := f (as_metrics s)\<rparr>"

definition on_logger :: "('d AsyncLogger \<Rightarrow> 'd AsyncLogger) \<Rightarrow> ('c, 'd) api_state \<Rightarrow> ('c, 'd) api_state" where
  "on_logger f s = s\<lparr>as_logger := f (as_logger s)\<rparr>"

definition pending_request ::
  "api_request \<Rightarrow> ProxyContext \<Rightarrow> APIKey \<Rightarrow> string \<Rightarrow> int \<Rightarrow> EndpointType \<Rightarrow> bytes \<Rightarrow> gotime \<Rightarrow> nat \<Rightarrow> PendingRequest" where
  "pending_request r pc key modelAlias priority et body now ref =
     \<lparr>p_ID = pc_RequestID pc, p_SessionID = pc_SessionID pc, p_RequestID = pc_RequestID pc, p_Priority = priority,
      p_APIKeyID = k_ID key, p_ModelAlias = modelAlias, p_EndpointType = et, p_Timestamp = now,
      p_BodyBytes = body, p_Headers = ar_Header r, p_Method = ar_Method r, p_Path = ar_Path r,
      p_RemoteAddr = ar_RemoteAddr r, p_ResponseWriter = ref, p_ResultChan = ref, p_Context = ref,
      p_QueueWaitMs = 0, p_ExecutionMs = 0, p_RatelimitRetries = 0\<rparr>"

definition request_log ::
  "openai_env \<Rightarrow> ProxyContext \<Rightarrow> APIKey \<Rightarrow> string \<Rightarrow> bool \<Rightarrow> ExecutionResult \<Rightarrow> int \<times> int \<times> int \<Rightarrow> RequestLog" where
  "request_log oe pc key modelAlias isStream result toks =
     (case toks of (prompt, completion, tot) \<Rightarrow>
        \<lparr>l_ID = pc_RequestID pc, l_SessionID = pc_SessionID pc, l_Timestamp = pc_StartTime pc, l_APIKeyID = k_ID key,
         l_ModelAlias = modelAlias, l_NodeID = x_FinalNodeID result, l_ActualModel = [], l_PromptTokens = prompt,
         l_CompletionTokens = completion, l_TotalTokens = tot,
         l_DurationMs = Milliseconds (oe_finished oe - pc_StartTime pc), l_StatusCode = x_StatusCode result,
         l_Stream = isStream, l_ErrorMsg = x_Error result, l_HasDetail = True\<rparr>)"

definition detail_log :: "ProxyContext \<Rightarrow> bytes \<Rightarrow> ExecutionResult \<Rightarrow> DetailLog" where
  "detail_log pc body result =
     \<lparr>d_TraceID = pc_RequestID pc, d_SessionID = pc_SessionID pc, d_Timestamp = pc_StartTime pc,
      d_RequestBody = body, d_ResponseBody = x_Body result\<rparr>"

text \<open>The branch of the result.\<close>

definition forward_result ::
  "openai_env \<Rightarrow> ProxyContext \<Rightarrow> APIKey \<Rightarrow> PendingRequest \<Rightarrow> string \<Rightarrow> bool \<Rightarrow> bytes \<Rightarrow> ExecutionResult \<Rightarrow>
   ('c, 'd) api_state \<Rightarrow> ('c, 'd) api_state" where
  "forward_result oe pc key pending modelAlias isStream body result s =
     (let pending = pending\<lparr>p_ExecutionMs := x_ExecutionMs result,
            p_QueueWaitMs := Milliseconds (oe_resumed oe - p_Timestamp pending) - x_ExecutionMs result\<rparr>;
          s1 = on_metrics (IncRequests modelAlias (if x_Error result \<noteq> [] then ''error'' else ''success'')) s;
          s2 = log_lines (if x_Error result = [] then LogRequestCompleted (oe_logged oe) pending result
                          else LogRequestFailed (oe_logged oe) pending (x_Attempts result)) s1;
          toks = result_tokens result
      in (case toks of (prompt, completion, tot) \<Rightarrow>
            let s3 = (if tot > 0
                      then (on_metrics (\<lambda>m. AddTokens modelAlias ''completion'' completion (AddTokens modelAlias ''prompt'' prompt m)) s2)
                             \<lparr>as_tasks := as_tasks s2 @ [(k_ID key, modelAlias, tot)]\<rparr>
                      else s2);
                s4 = on_logger (AsyncLog (oe_ready oe) (request_log oe pc key modelAlias isStream result toks)) s3
            in on_logger (AsyncLogDetail (oe_readyDetail oe) (detail_log pc body result)) s4))"

text \<open>From the queue on: the request waits, and the branch taken ends the handler.\<close>

definition forward_queue ::
  "OpenAIHandler \<Rightarrow> openai_env \<Rightarrow> ('c, 'd) waiting \<Rightarrow> ProxyContext \<Rightarrow> APIKey \<Rightarrow> PendingRequest \<Rightarrow> string \<Rightarrow> bool \<Rightarrow> bytes \<Rightarrow>
   rwriter \<Rightarrow> ('c, 'd) api_state \<Rightarrow> rwriter \<times> ('c, 'd) api_state" where
  "forward_queue h oe wait pc key pending modelAlias isStream body w s =
     (let maxWaitSec = (if dw_MaxWaitTimeSec (ac_Worker (oh_config h)) \<le> 0 then 1800 else dw_MaxWaitTimeSec (ac_Worker (oh_config h)));
          s1 = log_lines (LogRequestReceived pending) s
      in case queue_Enqueue (as_queue s1) pending of
           ((position, len), q) \<Rightarrow>
             let s2 = s1\<lparr>as_queue := q\<rparr>
             in if position = -1
                then (writeError w 503 ''queue is full'', on_metrics (IncRequests modelAlias ''queue_full'') s2)
                else
                  let s3 = log_lines (LogEnqueued pending position len) (on_metrics (SetQueueLength modelAlias len) s2)
                  in case wait w pending s3 of
                       (GotResult result, w', s4) \<Rightarrow> (w', forward_result oe pc key pending modelAlias isStream body result s4)
                     | (DeadlineExceeded, w', s4) \<Rightarrow>
                         (writeError w' 504 ''request timeout after waiting in queue'',
                          log_lines (LogRequestTimeout (oe_logged oe) pending maxWaitSec)
                            (on_metrics (IncRequests modelAlias ''timeout'') s4))
                     | (ContextCanceled, w', s4) \<Rightarrow>
                         (w', log_lines (LogRequestCancelled (oe_logged oe) pending 0)
                                (on_metrics (IncRequests modelAlias ''cancelled'') s4)))"

definition forward ::
  "OpenAIHandler \<Rightarrow> openai_env \<Rightarrow> ('c, 'd) waiting \<Rightarrow> EndpointType \<Rightarrow> ('c, 'd) api_state handler" where
  "forward h oe wait et w r s =
     (case ar_Body r of
        Inl _ \<Rightarrow> Some (writeError w 400 ''cannot read request body'', s)
      | Inr body \<Rightarrow>
          (case Unmarshal_map body of
             None \<Rightarrow> Some (writeError w 400 ''invalid JSON body'', s)
           | Some reqBody \<Rightarrow>
               let modelAlias = get_string reqBody ''model''
               in if modelAlias = [] then Some (writeError w 400 (''missing '' @ [CHR 0x27] @ ''model'' @ [CHR 0x27] @ '' field''), s)
                  else
                    let isStream = get_bool reqBody ''stream'';
                        priority = request_priority (qc_DefaultPriority (ac_Queue (oh_config h))) reqBody
                    in case proxyCtxFrom r of
                         None \<Rightarrow> None
                       | Some pc \<Rightarrow>
                           (case pc_APIKey pc of
                              None \<Rightarrow> None
                            | Some key \<Rightarrow>
                                if \<not> CheckModelAllowed key modelAlias
                                then Some (writeError w 403 ''model not allowed for this key'', s)
                                else Some (forward_queue h oe wait pc key
                                       (pending_request r pc key modelAlias priority et body (oe_timestamp oe) (as_next s))
                                       modelAlias isStream body w (s\<lparr>as_next := Suc (as_next s)\<rparr>)))))"

definition post_only :: "('c, 'd) api_state handler \<Rightarrow> ('c, 'd) api_state handler" where
  "post_only next w r s =
     (if ar_Method r \<noteq> ''POST'' then Some (writeError w 405 ''method not allowed'', s) else next w r s)"

definition chatCompletions :: "OpenAIHandler \<Rightarrow> openai_env \<Rightarrow> ('c, 'd) waiting \<Rightarrow> ('c, 'd) api_state handler" where
  "chatCompletions h oe wait = post_only (forward h oe wait EndpointChat)"

definition responses :: "OpenAIHandler \<Rightarrow> openai_env \<Rightarrow> ('c, 'd) waiting \<Rightarrow> ('c, 'd) api_state handler" where
  "responses h oe wait = post_only (forward h oe wait EndpointResponses)"

definition embeddings :: "OpenAIHandler \<Rightarrow> openai_env \<Rightarrow> ('c, 'd) waiting \<Rightarrow> ('c, 'd) api_state handler" where
  "embeddings h oe wait = post_only (forward h oe wait EndpointEmbedding)"

definition openai_routes ::
  "OpenAIHandler \<Rightarrow> openai_env \<Rightarrow> ('c, 'd) waiting \<Rightarrow> (('c, 'd) api_state handler \<Rightarrow> ('c, 'd) api_state handler) \<Rightarrow>
   (string \<times> ('c, 'd) api_state handler) list" where
  "openai_routes h oe wait mw =
     [(''/v1/chat/completions'', mw (chatCompletions h oe wait)),
      (''/v1/completions'', mw (chatCompletions h oe wait)),
      (''/v1/embeddings'', mw (embeddings h oe wait)),
      (''/v1/responses'', mw (responses h oe wait)),
      (''/v1/models'', mw (listModels h oe))]"

section \<open>The list of models\<close>





section \<open>Requests that are turned away\<close>

text \<open>A request that \<open>forward\<close> passes on to the queue: its body, model, context and key.\<close>

definition admissible :: "api_request \<Rightarrow> (bytes \<times> jobject option \<times> ProxyContext \<times> APIKey) option" where
  "admissible r =
     (case ar_Body r of
        Inl _ \<Rightarrow> None
      | Inr body \<Rightarrow>
          (case Unmarshal_map body of
             None \<Rightarrow> None
           | Some m \<Rightarrow>
               if get_string m ''model'' = [] then None
               else (case proxyCtxFrom r of
                       None \<Rightarrow> None
                     | Some pc \<Rightarrow>
                         (case pc_APIKey pc of
                            None \<Rightarrow> None
                          | Some key \<Rightarrow> if CheckModelAllowed key (get_string m ''model'') then Some (body, m, pc, key) else None))))"

lemma forward_admissible:
  assumes "admissible r = Some (body, m, pc, key)"
  shows "forward h oe wait et w r s =
    Some (forward_queue h oe wait pc key
      (pending_request r pc key (get_string m ''model'') (request_priority (qc_DefaultPriority (ac_Queue (oh_config h))) m) et body
         (oe_timestamp oe) (as_next s))
      (get_string m ''model'') (get_bool m ''stream'') body w (s\<lparr>as_next := Suc (as_next s)\<rparr>))"
  using assms by (auto simp: admissible_def forward_def Let_def split: sum.splits option.splits if_splits)

text \<open>The request that waits is the one described by the body, the headers and the key.\<close>

definition body_model :: "api_request \<Rightarrow> string option" where
  "body_model r =
     (case ar_Body r of
        Inl _ \<Rightarrow> None
      | Inr body \<Rightarrow>
          (case Unmarshal_map body of
             None \<Rightarrow> None
           | Some m \<Rightarrow> if get_string m ''model'' = [] then None else Some (get_string m ''model'')))"

definition queue_full :: "RequestQueue \<Rightarrow> bool" where
  "queue_full q \<longleftrightarrow> q_closed q \<or> q_max q > 0 \<and> queue_Length q \<ge> q_max q"

lemma queue_position_nonneg: "0 \<le> queue_position hp p"
  by (induction hp) auto

lemma Enqueue_full: "queue_full q \<Longrightarrow> queue_Enqueue q p = ((-1, -1), q)"
  by (auto simp: queue_full_def queue_Enqueue_def queue_Length_def)

lemma Enqueue_position: "\<not> queue_full q \<Longrightarrow> 0 \<le> fst (fst (queue_Enqueue q p))"
  by (auto simp: queue_full_def queue_Enqueue_def queue_Length_def Let_def queue_position_nonneg)

lemma forward_queue_full:
  assumes "queue_full (as_queue s)"
  shows "forward_queue h oe wait pc key pending m isStream body w s =
    (writeError w 503 ''queue is full'',
     on_metrics (IncRequests m ''queue_full'') ((log_lines (LogRequestReceived pending) s)\<lparr>as_queue := as_queue s\<rparr>))"
proof -
  have "as_queue (log_lines ls s) = as_queue s" for ls by (simp add: log_lines_def)
  then show ?thesis using Enqueue_full [OF assms, of pending] by (simp add: forward_queue_def)
qed

text \<open>What a refused request leaves alone: the queue, the token accounts, the request logs and the
  cache.\<close>

definition untouched :: "('c, 'd) api_state \<Rightarrow> ('c, 'd) api_state \<Rightarrow> bool" where
  "untouched s s' \<longleftrightarrow>
     as_queue s' = as_queue s \<and> as_tasks s' = as_tasks s \<and> as_cache s' = as_cache s \<and> db_of s' = db_of s \<and>
     al_req (as_logger s') = al_req (as_logger s) \<and> al_detail (as_logger s') = al_detail (as_logger s)"

text \<open>C37. A request of an authenticated client is refused, with the error of its case, if its body is
  unreadable, no JSON object, or names no model (400), if the key may not use the model (403), or
  if the queue is full or closed (503); a refused request is not enqueued, not charged and not
  logged as served.\<close>

theorem forward_refuses:
  assumes "proxyCtxFrom r = Some pc" "pc_APIKey pc = Some key" "fresh_response w"
    and "code = (case body_model r of None \<Rightarrow> 400 | Some m \<Rightarrow> if CheckModelAllowed key m then 503 else 403)"
    and "code = 503 \<Longrightarrow> queue_full (as_queue s)"
  shows "\<exists>w' s' msg. forward h oe wait et w r s = Some (w', s') \<and> answered code (error_body code msg @ newline) w' \<and> untouched s s'"
proof -
  have self: "untouched s s" by (simp add: untouched_def)
  have err: "answered c (error_body c msg @ newline) (writeError w c msg)" for c msg by (rule writeError_answer [OF assms(3)])
  show ?thesis
  proof (cases "body_model r")
    case None
    then obtain msg where "forward h oe wait et w r s = Some (writeError w 400 msg, s)"
      by (auto simp: body_model_def forward_def Let_def split: sum.splits option.splits if_splits)
    then show ?thesis using err self assms(4) None by auto
  next
    case (Some m)
    then obtain body b where b: "ar_Body r = Inr body" "Unmarshal_map body = Some b" "get_string b ''model'' = m" "m \<noteq> []"
      by (auto simp: body_model_def split: sum.splits option.splits if_splits)
    show ?thesis
    proof (cases "CheckModelAllowed key m")
      case False
      then have "forward h oe wait et w r s = Some (writeError w 403 ''model not allowed for this key'', s)"
        using b assms(1,2) by (simp add: forward_def Let_def)
      then show ?thesis using err self assms(4) Some False by auto
    next
      case True
      then have code: "code = 503" using assms(4) Some by simp
      have "admissible r = Some (body, b, pc, key)" using b True assms(1,2) by (simp add: admissible_def)
      note f = forward_admissible [OF this, of h oe wait et w s]
      have "queue_full (as_queue (s\<lparr>as_next := Suc (as_next s)\<rparr>))" using assms(5) [OF code] by simp
      then show ?thesis
        unfolding f code
        by (subst forward_queue_full) (use err [of 503] in \<open>auto simp: untouched_def on_metrics_def log_lines_def db_of_def\<close>)
    qed
  qed
qed

section \<open>Requests that are served\<close>

text \<open>Every priority a request is queued with fits into Go's \<^verbatim>\<open>int\<close>.\<close>

lemma request_priority_int: "is_i64 def \<Longrightarrow> is_i64 (request_priority def m)"
  by (auto simp: request_priority_def float_to_int_def Let_def is_i64_def split: option.splits json.splits)

lemma AsyncLog_simps [simp]:
  "al_req (AsyncLog ready x l) = snd (lane_send ready x (al_req l))"
  "al_detail (AsyncLog ready x l) = al_detail l" "al_db (AsyncLog ready x l) = al_db l"
  by (simp_all add: AsyncLog_def split: prod.split bool.split)

lemma AsyncLogDetail_simps [simp]:
  "al_detail (AsyncLogDetail ready x l) = snd (lane_send ready x (al_detail l))"
  "al_req (AsyncLogDetail ready x l) = al_req l" "al_db (AsyncLogDetail ready x l) = al_db l"
  by (simp_all add: AsyncLogDetail_def split: prod.split bool.split)

lemma state_simps [simp]:
  "as_queue (on_logger f s) = as_queue s" "as_tasks (on_logger f s) = as_tasks s" "as_metrics (on_logger f s) = as_metrics s"
  "as_logger (on_logger f s) = f (as_logger s)"
  "as_queue (on_metrics g s) = as_queue s" "as_tasks (on_metrics g s) = as_tasks s" "as_logger (on_metrics g s) = as_logger s"
  "as_metrics (on_metrics g s) = g (as_metrics s)"
  "as_queue (log_lines ls s) = as_queue s" "as_tasks (log_lines ls s) = as_tasks s" "as_metrics (log_lines ls s) = as_metrics s"
  "al_req (as_logger (log_lines ls s)) = al_req (as_logger s)" "al_detail (as_logger (log_lines ls s)) = al_detail (as_logger s)"
  "db_of (log_lines ls s) = db_of s"
  by (simp_all add: on_logger_def on_metrics_def log_lines_def db_of_def)

text \<open>The result is written to the two logs and the tokens are charged to the key.\<close>

lemma forward_result_effects:
  assumes "result_tokens result = (p, c, t)"
    and "s' = forward_result oe pc key pending m isStream body result s"
  shows "as_queue s' = as_queue s"
    and "as_tasks s' = as_tasks s @ (if t > 0 then [(k_ID key, m, t)] else [])"
    and "al_req (as_logger s') = snd (lane_send (oe_ready oe) (request_log oe pc key m isStream result (p, c, t)) (al_req (as_logger s)))"
    and "al_detail (as_logger s') = snd (lane_send (oe_readyDetail oe) (detail_log pc body result) (al_detail (as_logger s)))"
  unfolding assms(2) forward_result_def Let_def assms(1) prod.case by simp_all

text \<open>The metrics count the request once, with its outcome.\<close>

lemma AddTokens_requests [simp]: "requestsTotal (AddTokens m t n r) = requestsTotal r"
  by (simp add: AddTokens_def Let_def)

lemma forward_result_metrics:
  "requestsTotal (as_metrics (forward_result oe pc key pending m isStream body result s)) =
     requestsTotal (IncRequests m (if x_Error result \<noteq> [] then ''error'' else ''success'') (as_metrics s))"
  by (cases "result_tokens result") (simp add: forward_result_def Let_def)

section \<open>Samples\<close>

definition sample_key :: APIKey where
  "sample_key = \<lparr>k_ID = ''dev'', k_Key = ''pk-1'', k_Name = ''dev'', k_Enabled = True, k_TPM = 0, k_RPM = 0,
     k_AllowModels = [''gpt''], k_CreatedAt = 0, k_ExpiresAt = None\<rparr>"

definition sample_context :: ProxyContext where
  "sample_context = \<lparr>pc_RequestID = ''r1'', pc_SessionID = [], pc_APIKey = Some sample_key, pc_TargetNode = None,
     pc_ModelAlias = [], pc_Stream = False, pc_StartTime = 0\<rparr>"

definition sample_api_request :: "bytes \<Rightarrow> api_request" where
  "sample_api_request body = \<lparr>ar_Method = ''POST'', ar_Path = ''/v1/chat/completions'', ar_RawQuery = [], ar_Header = [],
     ar_Body = Inr body, ar_RemoteAddr = ''127.0.0.1:5000'', ar_requestID = Some ''r1'', ar_sessionID = Some [],
     ar_proxy = Some sample_context\<rparr>"

definition sample_config :: AppConfig where
  "sample_config = \<lparr>ac_Server = \<lparr>sv_Addr = '':8080'', sv_CORSOrigins = [], sv_AdminToken = [], sv_MaxMemoryMB = 0\<rparr>,
     ac_RateLimit = \<lparr>rl_TPM = 0, rl_RPM = 0, rl_MaxRetries = 2\<rparr>,
     ac_Logging = \<lparr>lg_BasicMaxRows = 0, lg_BasicMaxDays = 0, lg_BasicMaxSizeMB = 0, lg_DetailMaxRows = 0,
       lg_DetailMaxDays = 0, lg_DetailMaxSizeMB = 0, lg_BufferSize = 8, lg_FlushIntervalMs = 500\<rparr>,
     ac_Cache = \<lparr>cc_Type = ''memory'', cc_Redis = \<lparr>rc_Addr = [], rc_Password = [], rc_DB = 0\<rparr>\<rparr>,
     ac_MQ = \<lparr>mq_Type = ''memory'', mq_Redis = \<lparr>rc_Addr = [], rc_Password = [], rc_DB = 0\<rparr>, mq_RabbitMQ = \<lparr>rmq_URL = []\<rparr>\<rparr>,
     ac_Queue = \<lparr>qc_DefaultPriority = 0, qc_MaxQueueSize = 0\<rparr>,
     ac_Worker = \<lparr>dw_PoolSize = 1, dw_MaxRetryAttempts = 1, dw_RetryDelayMs = 0, dw_MaxWaitTimeSec = 0\<rparr>,
     ac_Providers = [], ac_APIKeys = []\<rparr>"

definition sample_handler :: OpenAIHandler where
  "sample_handler = \<lparr>oh_router = AddOrUpdate [''a''] router_New (sample_node ''a'' [''gpt'']), oh_config = sample_config\<rparr>"

definition sample_openai_env :: openai_env where
  "sample_openai_env = \<lparr>oe_order = [''a''], oe_timestamp = 0, oe_resumed = 0, oe_logged = 0, oe_finished = 0, oe_ready = False,
     oe_readyDetail = False\<rparr>"

definition sample_api_state :: "'c \<Rightarrow> 'd \<Rightarrow> ('c, 'd) api_state" where
  "sample_api_state c d = \<lparr>as_queue = NewRequestQueue 0, as_metrics = metrics_Default, as_logger = NewAsyncLogger 8 d,
     as_cache = (c, 0), as_tasks = [], as_next = 0\<rparr>"

definition no_wait :: "('c, 'd) waiting" where
  "no_wait w p s = (ContextCanceled, w, s)"

lemma fresh_sample [simp]: "fresh_response (Response fresh_writer)"
  by (simp add: fresh_response_def fresh_writer_def)


theorem forward_refuses_witness:
  "\<exists>w' s' msg. forward sample_handler sample_openai_env no_wait EndpointChat (Response fresh_writer)
       (sample_api_request ''[]'') (sample_api_state () ()) = Some (w', s') \<and>
     answered 400 (error_body 400 msg @ newline) w' \<and> untouched (sample_api_state () ()) s'"
proof -
  have "body_model (sample_api_request ''[]'') = None"
    by (simp add: body_model_def sample_api_request_def json_eval)
  then show ?thesis
    using forward_refuses [of "sample_api_request ''[]''" sample_context sample_key "Response fresh_writer" 400 "sample_api_state () ()"
        sample_handler sample_openai_env no_wait EndpointChat]
    by (simp add: proxyCtxFrom_def sample_api_request_def sample_context_def)
qed

end
