(* ===== verification/Storage_Interface.thy ===== *)
theory Storage_Interface
  imports Go_Json
begin

text \<open>
  The interfaces \<^verbatim>\<open>Storage\<close> and \<^verbatim>\<open>Logger\<close> of \<^verbatim>\<open>internal/storage/interfaces.go\<close>, as records of
  operations on a state \<open>'d\<close> of the database.  A method that returns a list with an error returns
  both here too, since a caller may use the list and ignore the error.
\<close>

record 'd storage_ops =
  so_UpsertNode :: "ModelNode \<Rightarrow> 'd \<Rightarrow> goerror option \<times> 'd"
  so_GetNode :: "string \<Rightarrow> 'd \<Rightarrow> (goerror + ModelNode option) \<times> 'd"
  so_ListNodes :: "'d \<Rightarrow> (ModelNode list \<times> goerror option) \<times> 'd"
  so_DeleteNode :: "string \<Rightarrow> 'd \<Rightarrow> goerror option \<times> 'd"
  so_UpsertAPIKey :: "APIKey \<Rightarrow> 'd \<Rightarrow> goerror option \<times> 'd"
  so_GetAPIKey :: "string \<Rightarrow> 'd \<Rightarrow> (goerror + APIKey option) \<times> 'd"
  so_GetAPIKeyByValue :: "string \<Rightarrow> 'd \<Rightarrow> (goerror + APIKey option) \<times> 'd"
  so_ListAPIKeys :: "'d \<Rightarrow> (APIKey list \<times> goerror option) \<times> 'd"
  so_DeleteAPIKey :: "string \<Rightarrow> 'd \<Rightarrow> goerror option \<times> 'd"

record 'd logger_ops =
  lo_QueryLogs :: "LogFilter \<Rightarrow> 'd \<Rightarrow> (RequestLog list \<times> int \<times> goerror option) \<times> 'd"
  lo_ExportLogs :: "LogFilter \<Rightarrow> 'd \<Rightarrow> (RequestLog list \<times> goerror option) \<times> 'd"
  lo_GetDetail :: "string \<Rightarrow> 'd \<Rightarrow> (goerror + DetailLog option) \<times> 'd"
  lo_Stats :: "LogFilter \<Rightarrow> 'd \<Rightarrow> (LogStats \<times> goerror option) \<times> 'd"
  lo_StatsTimeSeries :: "LogFilter \<Rightarrow> string \<Rightarrow> 'd \<Rightarrow> (TimeSeriesPoint list \<times> goerror option) \<times> 'd"
  lo_StatsTop :: "LogFilter \<Rightarrow> string \<Rightarrow> int \<Rightarrow> 'd \<Rightarrow> (TopEntity list \<times> goerror option) \<times> 'd"

text \<open>An empty slice or map of the model stands for a nil one too.  Which of the two texts Go writes
  for it, \<^verbatim>\<open>null\<close> or the empty list or object, is an argument of the encoders.\<close>

record json_empties =
  je_list :: bytes
  je_map :: bytes

definition json_strings :: "json_empties \<Rightarrow> string list \<Rightarrow> bytes" where
  "json_strings je ss = (if ss = [] then je_list je else json_array (map json_string ss))"

end
