(* ===== verification/Admin_Api.thy ===== *)
theory Admin_Api
  imports Middleware Storage_Interface Go_Time
begin

text \<open>
  \<^verbatim>\<open>internal/api/admin.go\<close>: the read-only administration endpoints, with the JSON texts of the
  structs they send and the log filter they read from the query.

  Struct fields keep their order, members of maps are sorted.  Times come from the database in
  UTC.
\<close>

section \<open>Encoding\<close>

definition json_bool :: "bool \<Rightarrow> bytes" where
  "json_bool b = (if b then ''true'' else ''false'')"

definition json_time :: "gotime \<Rightarrow> bytes" where
  "json_time t = CHR 0x22 # Format_RFC3339Nano t @ [CHR 0x22]"

text \<open>A slice built by \<^verbatim>\<open>append\<close> from nil.\<close>

definition json_list :: "bytes list \<Rightarrow> bytes" where
  "json_list vs = (if vs = [] then ''null'' else json_array vs)"

definition node_json :: "json_empties \<Rightarrow> ModelNode \<Rightarrow> bytes" where
  "node_json je n = json_members
     [(''id'', json_string (n_ID n)), (''name'', json_string (n_Name n)), (''aliases'', json_strings je (n_Aliases n)),
      (''base_url'', json_string (n_BaseURL n)), (''api_key'', json_string (n_APIKey n)),
      (''model_name'', json_string (n_ModelName n)), (''endpoint_type'', json_string (n_EndpointType n)),
      (''tpm'', FormatInt (n_TPM n)), (''rpm'', FormatInt (n_RPM n)),
      (''override'', if n_Override n = [] then je_map je else Marshal (JObj (n_Override n))),
      (''timeout_sec'', FormatInt (n_TimeoutSec n)), (''enabled'', json_bool (n_Enabled n)),
      (''created_at'', json_time (n_CreatedAt n)), (''updated_at'', json_time (n_UpdatedAt n))]"

definition key_json :: "json_empties \<Rightarrow> APIKey \<Rightarrow> bytes" where
  "key_json je k = json_members
     ([(''id'', json_string (k_ID k)), (''key'', json_string (k_Key k)), (''name'', json_string (k_Name k)),
       (''enabled'', json_bool (k_Enabled k)), (''tpm'', FormatInt (k_TPM k)), (''rpm'', FormatInt (k_RPM k)),
       (''allow_models'', json_strings je (k_AllowModels k)), (''created_at'', json_time (k_CreatedAt k))] @
      (case k_ExpiresAt k of None \<Rightarrow> [] | Some t \<Rightarrow> [(''expires_at'', json_time t)]))"

definition log_json :: "RequestLog \<Rightarrow> bytes" where
  "log_json l = json_members
     ([(''id'', json_string (l_ID l)), (''session_id'', json_string (l_SessionID l)), (''timestamp'', json_time (l_Timestamp l)),
       (''api_key_id'', json_string (l_APIKeyID l)), (''model_alias'', json_string (l_ModelAlias l)),
       (''node_id'', json_string (l_NodeID l)), (''actual_model'', json_string (l_ActualModel l)),
       (''prompt_tokens'', FormatInt (l_PromptTokens l)), (''completion_tokens'', FormatInt (l_CompletionTokens l)),
       (''total_tokens'', FormatInt (l_TotalTokens l)), (''duration_ms'', FormatInt (l_DurationMs l)),
       (''status_code'', FormatInt (l_StatusCode l)), (''stream'', json_bool (l_Stream l))] @
      (if l_ErrorMsg l = [] then [] else [(''error_msg'', json_string (l_ErrorMsg l))]) @
      [(''has_detail'', json_bool (l_HasDetail l))])"

definition detail_json :: "DetailLog \<Rightarrow> bytes" where
  "detail_json d = json_members
     [(''trace_id'', json_string (d_TraceID d)), (''session_id'', json_string (d_SessionID d)),
      (''timestamp'', json_time (d_Timestamp d)), (''request_body'', json_string (d_RequestBody d)),
      (''response_body'', json_string (d_ResponseBody d))]"

definition point_json :: "TimeSeriesPoint \<Rightarrow> bytes" where
  "point_json p = json_members
     [(''timestamp'', json_time (ts_Timestamp p)), (''requests'', FormatInt (ts_Requests p)),
      (''prompt_tokens'', FormatInt (ts_PromptTokens p)), (''completion_tokens'', FormatInt (ts_CompletionTokens p)),
      (''total_tokens'', FormatInt (ts_TotalTokens p))]"

definition top_json :: "TopEntity \<Rightarrow> bytes" where
  "top_json t = json_members
     [(''name'', json_string (te_Name t)), (''requests'', FormatInt (te_Requests t)), (''total_tokens'', FormatInt (te_TotalTokens t)),
      (''prompt_tokens'', FormatInt (te_PromptTokens t)), (''completion_tokens'', FormatInt (te_CompletionTokens t)),
      (''avg_duration_ms'', FormatInt (te_AvgDurationMs t)), (''avg_tokens'', FormatInt (te_AvgTokens t))]"

section \<open>The handlers\<close>

record 'd AdminHandler =
  ah_store :: "'d storage_ops"
  ah_logger :: "'d logger_ops"

definition get_only :: "('c, 'd) api_state handler \<Rightarrow> ('c, 'd) api_state handler" where
  "get_only next w r s =
     (if ar_Method r \<noteq> ''GET'' then Some (writeError w 405 ''method not allowed'', s) else next w r s)"

definition nodes :: "'d AdminHandler \<Rightarrow> json_empties \<Rightarrow> ('c, 'd) api_state handler" where
  "nodes h je = get_only (\<lambda>w r s.
     (case so_ListNodes (ah_store h) (db_of s) of
        ((ns, Some e), db) \<Rightarrow> Some (writeError w 500 (err_text e), set_db db s)
      | ((ns, None), db) \<Rightarrow> Some (writeJSON w 200 (json_list (map (node_json je) ns)), set_db db s)))"

definition nodeByID :: "'d AdminHandler \<Rightarrow> json_empties \<Rightarrow> ('c, 'd) api_state handler" where
  "nodeByID h je = get_only (\<lambda>w r s.
     (let i = TrimPrefix (ar_Path r) ''/admin/nodes/''
      in if i = [] then Some (writeError w 400 ''missing node id'', s)
         else (case so_GetNode (ah_store h) i (db_of s) of
                 (Inl e, db) \<Rightarrow> Some (writeError w 500 (err_text e), set_db db s)
               | (Inr None, db) \<Rightarrow> Some (writeError w 404 ''node not found'', set_db db s)
               | (Inr (Some n), db) \<Rightarrow> Some (writeJSON w 200 (node_json je n), set_db db s))))"

definition mask_key :: "APIKey \<Rightarrow> APIKey" where
  "mask_key key =
     (let k = k_Key key
      in if length k > 7 then key\<lparr>k_Key := take 3 k @ ''***'' @ drop (length k - 4) k\<rparr>
         else key\<lparr>k_Key := ''****''\<rparr>)"

definition keys :: "'d AdminHandler \<Rightarrow> json_empties \<Rightarrow> ('c, 'd) api_state handler" where
  "keys h je = get_only (\<lambda>w r s.
     (case so_ListAPIKeys (ah_store h) (db_of s) of
        ((ks, Some e), db) \<Rightarrow> Some (writeError w 500 (err_text e), set_db db s)
      | ((ks, None), db) \<Rightarrow> Some (writeJSON w 200 (json_list (map (key_json je) (map mask_key ks))), set_db db s)))"

definition intQuery :: "string \<Rightarrow> int \<Rightarrow> int" where
  "intQuery s def =
     (if s = [] then def
      else (case Atoi s of None \<Rightarrow> def | Some v \<Rightarrow> if v < 1 then def else v))"

definition timeQuery :: "string \<Rightarrow> gotime option" where
  "timeQuery v = (if v \<noteq> [] then Parse_RFC3339 v else None)"

definition parseLogFilter :: "api_request \<Rightarrow> LogFilter" where
  "parseLogFilter r =
     (let q = url_Query (ar_RawQuery r)
      in \<lparr>lf_APIKeyID = values_Get q ''api_key_id'', lf_ModelAlias = values_Get q ''model'',
          lf_NodeID = values_Get q ''node_id'', lf_SessionID = values_Get q ''session_id'',
          lf_StatusCode = intQuery (values_Get q ''status_code'') 0,
          lf_ErrorOnly = (values_Get q ''error_only'' = ''true'' \<or> values_Get q ''error_only'' = ''1''),
          lf_Keyword = values_Get q ''keyword'',
          lf_StartTime = timeQuery (values_Get q ''start''), lf_EndTime = timeQuery (values_Get q ''end''),
          lf_Page = intQuery (values_Get q ''page'') 1, lf_PageSize = intQuery (values_Get q ''page_size'') 20\<rparr>)"

definition logs :: "'d AdminHandler \<Rightarrow> ('c, 'd) api_state handler" where
  "logs h = get_only (\<lambda>w r s.
     (let f = parseLogFilter r
      in case lo_QueryLogs (ah_logger h) f (db_of s) of
           ((ls, n, Some e), db) \<Rightarrow> Some (writeError w 500 (err_text e), set_db db s)
         | ((ls, n, None), db) \<Rightarrow>
             Some (writeJSON w 200 (json_members [(''data'', json_list (map log_json ls)), (''page'', FormatInt (lf_Page f)),
                                                  (''total'', FormatInt n)]), set_db db s)))"

text \<open>The export: one line per entry, until a write fails.\<close>

fun export_lines :: "rwriter \<Rightarrow> RequestLog list \<Rightarrow> rwriter" where
  "export_lines w [] = w"
| "export_lines w (l # ls) =
     (case w_Encode w (log_json l) of (Some e, w') \<Rightarrow> w' | (None, w') \<Rightarrow> export_lines w' ls)"

definition logExport :: "'d AdminHandler \<Rightarrow> ('c, 'd) api_state handler" where
  "logExport h = get_only (\<lambda>w r s.
     (case lo_ExportLogs (ah_logger h) (parseLogFilter r) (db_of s) of
        ((ls, Some e), db) \<Rightarrow> Some (writeError w 500 (err_text e), set_db db s)
      | ((ls, None), db) \<Rightarrow>
          Some (export_lines
                  (set_headers [(''Content-Type'', ''application/x-jsonlines''),
                                (''Content-Disposition'', ''attachment; filename=logs_export.jsonl'')] w) ls, set_db db s)))"

definition logDetail :: "'d AdminHandler \<Rightarrow> ('c, 'd) api_state handler" where
  "logDetail h = get_only (\<lambda>w r s.
     (let traceID = TrimPrefix (ar_Path r) ''/admin/logs/''
      in if traceID = [] then Some (writeError w 400 ''missing trace id'', s)
         else (case lo_GetDetail (ah_logger h) traceID (db_of s) of
                 (Inl e, db) \<Rightarrow> Some (writeError w 500 (err_text e), set_db db s)
               | (Inr None, db) \<Rightarrow> Some (writeError w 404 ''detail not found'', set_db db s)
               | (Inr (Some d), db) \<Rightarrow> Some (writeJSON w 200 (detail_json d), set_db db s))))"

text \<open>The start of the day of a time, in UTC.\<close>

definition start_of_day :: "gotime \<Rightarrow> gotime" where
  "start_of_day t = t div (86400 * Second) * (86400 * Second)"

definition stats_body :: "LogStats \<Rightarrow> ModelNode list \<Rightarrow> APIKey list \<Rightarrow> bytes" where
  "stats_body st ns ks = json_members
     [(''active_keys'', FormatInt (int (length (filter k_Enabled ks)))), (''active_nodes'', FormatInt (int (length (filter n_Enabled ns)))),
      (''completion_tokens'', FormatInt (st_CompletionTokens st)), (''prompt_tokens'', FormatInt (st_PromptTokens st)),
      (''requests_today'', FormatInt (st_TotalRequests st)), (''tokens_today'', FormatInt (st_TotalTokens st)),
      (''total_keys'', FormatInt (int (length ks))), (''total_nodes'', FormatInt (int (length ns)))]"

definition stats :: "'d AdminHandler \<Rightarrow> gotime \<Rightarrow> ('c, 'd) api_state handler" where
  "stats h now = get_only (\<lambda>w r s.
     (let f = parseLogFilter r;
          f1 = (if lf_StartTime f = None then f\<lparr>lf_StartTime := Some (start_of_day now)\<rparr> else f)
      in case lo_Stats (ah_logger h) f1 (db_of s) of
           ((st, Some e), db) \<Rightarrow> Some (writeError w 500 (err_text e), set_db db s)
         | ((st, None), db) \<Rightarrow>
             (case so_ListNodes (ah_store h) db of
                ((ns, e1), db1) \<Rightarrow>
                  (case so_ListAPIKeys (ah_store h) db1 of
                     ((ks, e2), db2) \<Rightarrow> Some (writeJSON w 200 (stats_body st ns ks), set_db db2 s)))))"

definition statsTimeSeries :: "'d AdminHandler \<Rightarrow> ('c, 'd) api_state handler" where
  "statsTimeSeries h = get_only (\<lambda>w r s.
     (let g = values_Get (url_Query (ar_RawQuery r)) ''granularity'';
          granularity = (if g = [] then ''day'' else g)
      in case lo_StatsTimeSeries (ah_logger h) (parseLogFilter r) granularity (db_of s) of
           ((ps, Some e), db) \<Rightarrow> Some (writeError w 500 (err_text e), set_db db s)
         | ((ps, None), db) \<Rightarrow> Some (writeJSON w 200 (json_list (map point_json ps)), set_db db s)))"

definition statsTop :: "'d AdminHandler \<Rightarrow> ('c, 'd) api_state handler" where
  "statsTop h = get_only (\<lambda>w r s.
     (let q = url_Query (ar_RawQuery r);
          g = values_Get q ''group_by'';
          groupBy = (if g = [] then ''model_alias'' else g);
          limit = intQuery (values_Get q ''limit'') 10
      in case lo_StatsTop (ah_logger h) (parseLogFilter r) groupBy limit (db_of s) of
           ((ts, Some e), db) \<Rightarrow> Some (writeError w 500 (err_text e), set_db db s)
         | ((ts, None), db) \<Rightarrow> Some (writeJSON w 200 (json_list (map top_json ts)), set_db db s)))"

definition admin_routes ::
  "'d AdminHandler \<Rightarrow> json_empties \<Rightarrow> gotime \<Rightarrow> (('c, 'd) api_state handler \<Rightarrow> ('c, 'd) api_state handler) \<Rightarrow>
   (string \<times> ('c, 'd) api_state handler) list" where
  "admin_routes h je now mw =
     [(''/admin/stats'', mw (stats h now)),
      (''/admin/stats/timeseries'', mw (statsTimeSeries h)),
      (''/admin/stats/top'', mw (statsTop h)),
      (''/admin/nodes'', mw (nodes h je)),
      (''/admin/nodes/'', mw (nodeByID h je)),
      (''/admin/keys'', mw (keys h je)),
      (''/admin/logs'', mw (logs h)),
      (''/admin/logs/export'', mw (logExport h)),
      (''/admin/logs/'', mw (logDetail h))]"

end
