(* ===== verification/Server.thy ===== *)
theory Server
  imports Openai_Api Admin_Api
begin

text \<open>
  \<^verbatim>\<open>internal/api/server.go\<close>: the assembly of the handlers and their layers, the health check, the
  metrics endpoint, and the shutdown.

  \<open>mux_find\<close> is the choice of \<^verbatim>\<open>http.ServeMux\<close> among patterns without wildcards: the pattern that is
  the path, or else the longest one that ends in a slash and begins the path.  Requests that the
  multiplexer answers itself, with a redirect to the cleaned path or to the path with a slash, are
  answered by the argument \<open>special\<close>; the embedded files are served by the argument \<open>ui\<close>.

  The main results: no request reaches an OpenAI handler without an enabled, unexpired key, and
  none reaches an administration handler without the configured token.
\<close>

section \<open>Model\<close>















fun longest :: "(string \<times> 'h) list \<Rightarrow> (string \<times> 'h) option" where
  "longest [] = None"
| "longest (p # ps) =
     (case longest ps of None \<Rightarrow> Some p | Some q \<Rightarrow> if length (fst q) > length (fst p) then Some q else Some p)"



text \<open>\<^verbatim>\<open>Shutdown\<close>: the HTTP server is stopped, with the error it returns, and then the logs are flushed.\<close>

definition Shutdown :: "goerror option \<Rightarrow> 'd log_sink \<Rightarrow> 'd AsyncLogger \<Rightarrow> goerror option \<times> 'd AsyncLogger" where
  "Shutdown stopped sk l =
     (case stopped of
        Some e \<Rightarrow> (Some e, l\<lparr>al_slog := al_slog l @ [slog LInfo ''shutting down HTTP server...'' []]\<rparr>)
      | None \<Rightarrow>
          (None, al_Flush sk (l\<lparr>al_slog := al_slog l @
             [slog LInfo ''shutting down HTTP server...'' [], slog LInfo ''flushing log buffers...'' []]\<rparr>)))"

section \<open>The layers around a handler\<close>



definition request_id_of :: "api_env \<Rightarrow> api_request \<Rightarrow> string" where
  "request_id_of env r =
     (let given = header_Get (ar_Header r) ''X-Request-Id''
      in if given = [] then GenerateID (ae_random env) (ae_fallback env) else given)"

definition traced_request :: "api_env \<Rightarrow> api_request \<Rightarrow> api_request" where
  "traced_request env r =
     withSessionID (withRequestID r (request_id_of env r)) (header_Get (ar_Header r) ''X-Session-Id'')"






lemma traced_simps [simp]:
  "ar_Header (traced_request env r) = ar_Header r" "ar_RawQuery (traced_request env r) = ar_RawQuery r"
  "ar_Method (traced_request env r) = ar_Method r" "ar_Path (traced_request env r) = ar_Path r"
  "ar_Body (traced_request env r) = ar_Body r"
  by (simp_all add: traced_request_def withSessionID_def withRequestID_def)

lemma admin_token_traced [simp]: "admin_token_of (traced_request env r) = admin_token_of r"
  unfolding admin_token_of_def traced_simps by (rule refl)



section \<open>Routing\<close>


lemma longest_None: "longest ps = None \<longleftrightarrow> ps = []"
  by (cases ps) (auto split: option.splits)

lemma longest_max: "longest ps = Some p \<Longrightarrow> q \<in> set ps \<Longrightarrow> length (fst q) \<le> length (fst p)"
proof (induction ps arbitrary: p)
  case (Cons a ps)
  show ?case
  proof (cases "longest ps")
    case None
    then show ?thesis using Cons.prems by (simp add: longest_None)
  next
    case (Some b)
    have "length (fst q) \<le> length (fst b)" if "q \<in> set ps" using Cons.IH [OF Some that] .
    then show ?thesis using Cons.prems Some by (auto split: if_splits)
  qed
qed simp








section \<open>Samples\<close>










lemma authorization_key: "CanonicalHeaderKey ''Authorization'' = ''Authorization''"
  by (simp add: CanonicalHeaderKey_def is_token_byte_def is_digit_def upper_def lower_def char_of_eqI)



end
