(* ===== verification/Sql.thy ===== *)
theory Sql
  imports Go_Number Domain "HOL-Library.List_Lexorder" "HOL-Library.Char_ord" "HOL-Library.Product_Lexorder"
begin

text \<open>
  The SQL statements the program sends to SQLite, as syntax trees, and what they mean according to
  the documentation of SQLite.  The database engine itself is not part of the program: it is the
  record \<open>sql_engine\<close> of operations on a state \<open>'d\<close>, and the locale \<open>sqlite\<close> states what is assumed
  of it: every call either fails and leaves the tables as they are, or has the meaning defined
  here.  Where SQL leaves an order open (rows with equal keys, rows without \<^verbatim>\<open>ORDER BY\<close>) the engine
  may choose any: the meaning takes a rearrangement of the rows of the table as an argument.

  The fragment: no operand is compared with one of another type, so no type affinity applies;
  text is compared byte by byte (\<^verbatim>\<open>BINARY\<close> collation).  \<^verbatim>\<open>strftime\<close> is an argument of the evaluation.
\<close>

section \<open>Values\<close>

datatype sqlval = VNull | VInt int | VReal rat | VText string

text \<open>The order of \<^verbatim>\<open>ORDER BY\<close>: null, then numbers by value, then text by bytes.\<close>

fun sql_key :: "sqlval \<Rightarrow> nat \<times> rat \<times> nat \<times> string" where
  "sql_key VNull = (0, 0, 0, [])"
| "sql_key (VInt i) = (1, of_int i, 0, [])"
| "sql_key (VReal x) = (1, x, 1, [])"
| "sql_key (VText s) = (2, 0, 0, s)"

lemma sql_key_inj: "sql_key v = sql_key w \<Longrightarrow> v = w"
  by (cases v; cases w) auto

instantiation sqlval :: linorder
begin

definition less_eq_sqlval :: "sqlval \<Rightarrow> sqlval \<Rightarrow> bool" where
  "less_eq_sqlval v w \<longleftrightarrow> sql_key v \<le> sql_key w"

definition less_sqlval :: "sqlval \<Rightarrow> sqlval \<Rightarrow> bool" where
  "less_sqlval v w \<longleftrightarrow> sql_key v < sql_key w"

instance
proof
  fix x y z :: sqlval
  show "(x < y) = (x \<le> y \<and> \<not> y \<le> x)" by (simp add: less_eq_sqlval_def less_sqlval_def less_le_not_le)
  show "x \<le> x" by (simp add: less_eq_sqlval_def)
  show "x \<le> y \<Longrightarrow> y \<le> z \<Longrightarrow> x \<le> z" by (simp add: less_eq_sqlval_def)
  show "x \<le> y \<Longrightarrow> y \<le> x \<Longrightarrow> x = y" by (auto simp: less_eq_sqlval_def intro: sql_key_inj)
  show "x \<le> y \<or> y \<le> x" by (auto simp: less_eq_sqlval_def)
qed

end

lemma VText_le [simp]: "VText s \<le> VText t \<longleftrightarrow> s \<le> t" "VText s < VText t \<longleftrightarrow> s < t"
  by (simp_all add: less_eq_sqlval_def less_sqlval_def)

lemma VInt_le [simp]: "VInt i \<le> VInt j \<longleftrightarrow> i \<le> j" "VInt i < VInt j \<longleftrightarrow> i < j"
  by (auto simp: less_eq_sqlval_def less_sqlval_def)

section \<open>Syntax\<close>

datatype binop = OpEq | OpNe | OpLt | OpLe | OpGt | OpGe | OpAnd | OpOr | OpAdd | OpDiv | OpLike

text \<open>\<open>EParam\<close> is a placeholder \<^verbatim>\<open>?\<close>; placeholders are numbered in the order of the text.
  \<open>EInNewest e c t ob d n m\<close> is \<^verbatim>\<open>e IN (SELECT c FROM t ORDER BY ob [DESC] LIMIT n OFFSET m)\<close>.\<close>

datatype sexpr =
    ECol string
  | EParam
  | EVal sqlval
  | EBin binop sexpr sexpr
  | ELength sexpr
  | EStrftime string sexpr
  | ECoalesce sexpr sexpr
  | ECase sexpr sexpr sexpr
  | ECountAll
  | ESum sexpr
  | EAvg sexpr
  | EInNewest sexpr string string string bool int sexpr

record sql_select =
  q_cols :: "sexpr list"
  q_from :: string
  q_where :: "sexpr option"
  q_group :: "sexpr option"
  q_order :: "(sexpr \<times> bool) option"
  q_limit :: int
  q_offset :: int

record coldef =
  cd_name :: string
  cd_notnull :: bool
  cd_unique :: bool
  cd_default :: "sqlval option"

datatype stmt =
    SInsert bool string "string list" "(string \<times> string list) option"
  | SDelete string sexpr
  | SCreateTable string "coldef list"
  | SCreateIndex string string string
  | SAddColumn string coldef
  | SPragma string

section \<open>Tables\<close>

type_synonym row = "(string \<times> sqlval) list"

record table =
  tb_cols :: "coldef list"
  tb_rows :: "row list"

type_synonym database = "string \<rightharpoonup> table"

definition col :: "row \<Rightarrow> string \<Rightarrow> sqlval" where
  "col r c = (case map_of r c of None \<Rightarrow> VNull | Some v \<Rightarrow> v)"

definition table_rows :: "database \<Rightarrow> string \<Rightarrow> row list" where
  "table_rows db t = (case db t of None \<Rightarrow> [] | Some tb \<Rightarrow> tb_rows tb)"

section \<open>Expressions\<close>

definition sql_bool :: "bool \<Rightarrow> sqlval" where
  "sql_bool b = VInt (if b then 1 else 0)"

definition truthy :: "sqlval \<Rightarrow> bool" where
  "truthy v = (case v of VInt i \<Rightarrow> i \<noteq> 0 | VReal x \<Rightarrow> x \<noteq> 0 | _ \<Rightarrow> False)"

definition sql_compare :: "(bool \<Rightarrow> bool \<Rightarrow> bool) \<Rightarrow> sqlval \<Rightarrow> sqlval \<Rightarrow> sqlval" where
  "sql_compare f a b = (if a = VNull \<or> b = VNull then VNull else sql_bool (f (a < b) (a = b)))"

text \<open>Three-valued connectives.\<close>

definition sql_and :: "sqlval \<Rightarrow> sqlval \<Rightarrow> sqlval" where
  "sql_and a b =
     (if a \<noteq> VNull \<and> \<not> truthy a \<or> b \<noteq> VNull \<and> \<not> truthy b then VInt 0
      else if a = VNull \<or> b = VNull then VNull else VInt 1)"

definition sql_or :: "sqlval \<Rightarrow> sqlval \<Rightarrow> sqlval" where
  "sql_or a b =
     (if truthy a \<or> truthy b then VInt 1 else if a = VNull \<or> b = VNull then VNull else VInt 0)"

definition sql_add :: "sqlval \<Rightarrow> sqlval \<Rightarrow> sqlval" where
  "sql_add a b = (case (a, b) of (VInt i, VInt j) \<Rightarrow> VInt (i + j) | _ \<Rightarrow> VNull)"

definition sql_div :: "sqlval \<Rightarrow> sqlval \<Rightarrow> sqlval" where
  "sql_div a b = (case (a, b) of (VInt i, VInt j) \<Rightarrow> if j = 0 then VNull else VInt (go_div i j) | _ \<Rightarrow> VNull)"

text \<open>Text functions see a text up to its first zero byte.\<close>

definition c_text :: "string \<Rightarrow> string" where
  "c_text s = takeWhile (\<lambda>c. c \<noteq> CHR 0x00) s"

definition ascii_lower :: "char \<Rightarrow> char" where
  "ascii_lower c = (if in_range 65 90 c then char_of (of_char c + 32 :: nat) else c)"

text \<open>\<^verbatim>\<open>LIKE\<close>: letters of ASCII match in both cases, an underscore matches a character, a percent sign
  any number of them.\<close>

function sql_like :: "string \<Rightarrow> string \<Rightarrow> bool" where
  "sql_like [] s = (s = [])"
| "sql_like (p # ps) s =
     (if p = CHR 0x25 then sql_like ps s \<or> (if s = [] then False else sql_like (p # ps) (drop (rune_len s) s))
      else if s = [] then False
      else if p = CHR 0x5F then sql_like ps (drop (rune_len s) s)
      else ascii_lower p = ascii_lower (hd s) \<and> sql_like ps (tl s))"
  by pat_completeness auto
termination
  by (relation "measure (\<lambda>(p, s). length p + length s)") (auto simp: rune_len_pos)

definition sql_length :: "sqlval \<Rightarrow> sqlval" where
  "sql_length v =
     (case v of
        VNull \<Rightarrow> VNull
      | VText s \<Rightarrow> VInt (int (rune_count (c_text s)))
      | VInt i \<Rightarrow> VInt (int (length (FormatInt i)))
      | VReal x \<Rightarrow> VNull)"

definition sql_binop :: "binop \<Rightarrow> sqlval \<Rightarrow> sqlval \<Rightarrow> sqlval" where
  "sql_binop f a b =
     (case f of
        OpEq \<Rightarrow> sql_compare (\<lambda>l e. e) a b
      | OpNe \<Rightarrow> sql_compare (\<lambda>l e. \<not> e) a b
      | OpLt \<Rightarrow> sql_compare (\<lambda>l e. l) a b
      | OpLe \<Rightarrow> sql_compare (\<lambda>l e. l \<or> e) a b
      | OpGt \<Rightarrow> sql_compare (\<lambda>l e. \<not> l \<and> \<not> e) a b
      | OpGe \<Rightarrow> sql_compare (\<lambda>l e. \<not> l) a b
      | OpAnd \<Rightarrow> sql_and a b
      | OpOr \<Rightarrow> sql_or a b
      | OpAdd \<Rightarrow> sql_add a b
      | OpDiv \<Rightarrow> sql_div a b
      | OpLike \<Rightarrow> (case (a, b) of (VText s, VText p) \<Rightarrow> sql_bool (sql_like (c_text p) (c_text s)) | _ \<Rightarrow> VNull))"

text \<open>\<^verbatim>\<open>LIMIT n OFFSET m\<close>; a negative limit is none.\<close>

definition limit_offset :: "int \<Rightarrow> int \<Rightarrow> 'a list \<Rightarrow> 'a list" where
  "limit_offset n m xs = (let ys = drop (nat m) xs in if n < 0 then ys else take (nat n) ys)"

definition order_rows :: "('a \<Rightarrow> sqlval) \<Rightarrow> bool \<Rightarrow> 'a list \<Rightarrow> 'a list" where
  "order_rows key desc xs = (if desc then rev (sort_key key xs) else sort_key key xs)"

text \<open>The sum of the values that are not null, an integer.\<close>

definition int_of :: "sqlval \<Rightarrow> int" where
  "int_of v = (case v of VInt i \<Rightarrow> i | _ \<Rightarrow> 0)"

definition sql_sum :: "sqlval list \<Rightarrow> sqlval" where
  "sql_sum vs =
     (let xs = filter (\<lambda>v. v \<noteq> VNull) vs in if xs = [] then VNull else VInt (sum_list (map int_of xs)))"

definition sql_avg :: "sqlval list \<Rightarrow> sqlval" where
  "sql_avg vs =
     (let xs = filter (\<lambda>v. v \<noteq> VNull) vs
      in if xs = [] then VNull
         else (case to_double (of_int (sum_list (map int_of xs)) / of_nat (length xs)) of Some x \<Rightarrow> VReal x | None \<Rightarrow> VNull))"

text \<open>What the meaning of a statement takes from the engine.\<close>

record sql_oracle =
  or_arrange :: "row list \<Rightarrow> row list"
  or_strftime :: "string \<Rightarrow> string \<Rightarrow> string option"

text \<open>The value of an expression at a row of a group; the placeholders have been replaced.\<close>

fun eval :: "sql_oracle \<Rightarrow> database \<Rightarrow> row list \<Rightarrow> row \<Rightarrow> sexpr \<Rightarrow> sqlval" where
  "eval orc db g r (ECol c) = col r c"
| "eval orc db g r EParam = VNull"
| "eval orc db g r (EVal v) = v"
| "eval orc db g r (EBin f a b) = sql_binop f (eval orc db g r a) (eval orc db g r b)"
| "eval orc db g r (ELength a) = sql_length (eval orc db g r a)"
| "eval orc db g r (EStrftime fmt a) =
     (case eval orc db g r a of VText s \<Rightarrow> (case or_strftime orc fmt s of None \<Rightarrow> VNull | Some t \<Rightarrow> VText t) | _ \<Rightarrow> VNull)"
| "eval orc db g r (ECoalesce a b) = (if eval orc db g r a = VNull then eval orc db g r b else eval orc db g r a)"
| "eval orc db g r (ECase c a b) = (if truthy (eval orc db g r c) then eval orc db g r a else eval orc db g r b)"
| "eval orc db g r ECountAll = VInt (int (length g))"
| "eval orc db g r (ESum a) = sql_sum (map (\<lambda>x. eval orc db [] x a) g)"
| "eval orc db g r (EAvg a) = sql_avg (map (\<lambda>x. eval orc db [] x a) g)"
| "eval orc db g r (EInNewest a c t ob desc n m) =
     sql_bool (eval orc db g r a \<in>
       set (map (\<lambda>x. col x c)
         (limit_offset n (int_of (eval orc db g r m)) (order_rows (\<lambda>x. col x ob) desc (or_arrange orc (table_rows db t))))))"

text \<open>Binding: each placeholder takes the next argument.\<close>

fun bind_expr :: "sexpr \<Rightarrow> sqlval list \<Rightarrow> sexpr \<times> sqlval list" where
  "bind_expr EParam vs = (case vs of [] \<Rightarrow> (EParam, []) | v # vs' \<Rightarrow> (EVal v, vs'))"
| "bind_expr (EBin f a b) vs =
     (case bind_expr a vs of (a', vs1) \<Rightarrow> (case bind_expr b vs1 of (b', vs2) \<Rightarrow> (EBin f a' b', vs2)))"
| "bind_expr (EInNewest a c t ob d n m) vs =
     (case bind_expr a vs of (a', vs1) \<Rightarrow> (case bind_expr m vs1 of (m', vs2) \<Rightarrow> (EInNewest a' c t ob d n m', vs2)))"
| "bind_expr e vs = (e, vs)"

definition bound :: "sexpr \<Rightarrow> sqlval list \<Rightarrow> sexpr" where
  "bound e vs = fst (bind_expr e vs)"

section \<open>Queries\<close>

fun has_aggregate :: "sexpr \<Rightarrow> bool" where
  "has_aggregate ECountAll = True"
| "has_aggregate (ESum a) = True"
| "has_aggregate (EAvg a) = True"
| "has_aggregate (EBin f a b) = (has_aggregate a \<or> has_aggregate b)"
| "has_aggregate (ECoalesce a b) = (has_aggregate a \<or> has_aggregate b)"
| "has_aggregate (ECase c a b) = (has_aggregate c \<or> has_aggregate a \<or> has_aggregate b)"
| "has_aggregate _ = False"

definition where_rows :: "sql_oracle \<Rightarrow> database \<Rightarrow> sql_select \<Rightarrow> sqlval list \<Rightarrow> row list" where
  "where_rows orc db q vs =
     filter (\<lambda>r. case q_where q of None \<Rightarrow> True | Some e \<Rightarrow> truthy (eval orc db [r] r (bound e vs)))
       (or_arrange orc (table_rows db (q_from q)))"

text \<open>The groups of a query: one per value of the grouping expression, in the order of first
  occurrence; all rows for an aggregate without \<^verbatim>\<open>GROUP BY\<close>; each row alone otherwise.\<close>

definition sql_groups :: "sql_oracle \<Rightarrow> database \<Rightarrow> sql_select \<Rightarrow> row list \<Rightarrow> row list list" where
  "sql_groups orc db q rs =
     (case q_group q of
        Some e \<Rightarrow> map (\<lambda>v. filter (\<lambda>r. eval orc db [] r e = v) rs) (remdups (map (\<lambda>r. eval orc db [] r e) rs))
      | None \<Rightarrow> if list_ex has_aggregate (q_cols q) then [rs] else map (\<lambda>r. [r]) rs)"

definition group_value :: "sql_oracle \<Rightarrow> database \<Rightarrow> row list \<Rightarrow> sexpr \<Rightarrow> sqlval" where
  "group_value orc db g e = eval orc db g (case g of [] \<Rightarrow> [] | r # _ \<Rightarrow> r) e"

definition sql_query :: "sql_oracle \<Rightarrow> database \<Rightarrow> sql_select \<Rightarrow> sqlval list \<Rightarrow> sqlval list list" where
  "sql_query orc db q vs =
     (let gs = sql_groups orc db q (where_rows orc db q vs);
          sorted = (case q_order q of None \<Rightarrow> gs | Some (e, desc) \<Rightarrow> order_rows (\<lambda>g. group_value orc db g e) desc gs)
      in map (\<lambda>g. map (group_value orc db g) (q_cols q)) (limit_offset (q_limit q) (q_offset q) sorted))"

section \<open>Statements\<close>

definition new_row :: "coldef list \<Rightarrow> string list \<Rightarrow> sqlval list \<Rightarrow> row" where
  "new_row cds cs vs =
     map (\<lambda>cd. (cd_name cd, case map_of (zip cs vs) (cd_name cd) of
                              Some v \<Rightarrow> v
                            | None \<Rightarrow> (case cd_default cd of None \<Rightarrow> VNull | Some v \<Rightarrow> v))) cds"

definition null_ok :: "coldef list \<Rightarrow> row \<Rightarrow> bool" where
  "null_ok cds r \<longleftrightarrow> list_all (\<lambda>cd. cd_notnull cd \<longrightarrow> col r (cd_name cd) \<noteq> VNull) cds"

definition clashes :: "coldef list \<Rightarrow> row \<Rightarrow> row \<Rightarrow> bool" where
  "clashes cds r r' \<longleftrightarrow>
     list_ex (\<lambda>cd. cd_unique cd \<and> col r (cd_name cd) = col r' (cd_name cd) \<and> col r (cd_name cd) \<noteq> VNull) cds"

text \<open>The row of the table that an upsert updates, with its position.\<close>

fun find_conflict :: "string \<Rightarrow> row \<Rightarrow> row list \<Rightarrow> nat option" where
  "find_conflict c r [] = None"
| "find_conflict c r (x # xs) = (if col x c = col r c then Some 0 else map_option Suc (find_conflict c r xs))"

definition update_row :: "row \<Rightarrow> row \<Rightarrow> string list \<Rightarrow> row" where
  "update_row r excluded cs = map (\<lambda>(c, v). (c, if c \<in> set cs then col excluded c else v)) r"

text \<open>\<^verbatim>\<open>INSERT\<close>, \<open>None\<close> for a violated constraint.\<close>

definition insert_row ::
  "coldef list \<Rightarrow> bool \<Rightarrow> (string \<times> string list) option \<Rightarrow> row \<Rightarrow> row list \<Rightarrow> row list option" where
  "insert_row cds or_ignore upsert r rs =
     (if \<not> null_ok cds r then (if or_ignore then Some rs else None)
      else (case (case upsert of None \<Rightarrow> None | Some (c, us) \<Rightarrow> find_conflict c r rs) of
              Some i \<Rightarrow>
                (let r' = update_row (rs ! i) r (case upsert of None \<Rightarrow> [] | Some (c, us) \<Rightarrow> us)
                 in if list_ex (clashes cds r') (take i rs @ drop (Suc i) rs) then None else Some (rs[i := r']))
            | None \<Rightarrow>
                if list_ex (clashes cds r) rs then (if or_ignore then Some rs else None) else Some (rs @ [r])))"

definition has_col :: "table \<Rightarrow> string \<Rightarrow> bool" where
  "has_col tb c \<longleftrightarrow> c \<in> cd_name ` set (tb_cols tb)"

text \<open>A column can be added to a table if it is not unique and, when it may not be null, has a default.\<close>

definition addable :: "coldef \<Rightarrow> bool" where
  "addable cd \<longleftrightarrow> \<not> cd_unique cd \<and> (cd_notnull cd \<longrightarrow> cd_default cd \<noteq> None \<and> cd_default cd \<noteq> Some VNull)"

fun sql_exec :: "sql_oracle \<Rightarrow> database \<Rightarrow> stmt \<Rightarrow> sqlval list \<Rightarrow> database option" where
  "sql_exec orc db (SInsert or_ignore t cs upsert) vs =
     (case db t of
        None \<Rightarrow> None
      | Some tb \<Rightarrow>
          if length vs = length cs \<and> list_all (has_col tb) cs
          then map_option (\<lambda>rs. db(t \<mapsto> tb\<lparr>tb_rows := rs\<rparr>))
                 (insert_row (tb_cols tb) or_ignore upsert (new_row (tb_cols tb) cs vs) (tb_rows tb))
          else None)"
| "sql_exec orc db (SDelete t e) vs =
     (case db t of
        None \<Rightarrow> None
      | Some tb \<Rightarrow> Some (db(t \<mapsto> tb\<lparr>tb_rows := filter (\<lambda>r. \<not> truthy (eval orc db [r] r (bound e vs))) (tb_rows tb)\<rparr>)))"
| "sql_exec orc db (SCreateTable t cds) vs =
     (case db t of
        Some tb \<Rightarrow> Some db
      | None \<Rightarrow> if distinct (map cd_name cds) then Some (db(t \<mapsto> \<lparr>tb_cols = cds, tb_rows = []\<rparr>)) else None)"
| "sql_exec orc db (SCreateIndex i t c) vs =
     (case db t of None \<Rightarrow> None | Some tb \<Rightarrow> if has_col tb c then Some db else None)"
| "sql_exec orc db (SAddColumn t cd) vs =
     (case db t of
        None \<Rightarrow> None
      | Some tb \<Rightarrow>
          if has_col tb (cd_name cd) \<or> \<not> addable cd then None
          else Some (db(t \<mapsto> \<lparr>tb_cols = tb_cols tb @ [cd],
                              tb_rows = map (\<lambda>r. r @ [(cd_name cd, case cd_default cd of None \<Rightarrow> VNull | Some v \<Rightarrow> v)]) (tb_rows tb)\<rparr>)))"
| "sql_exec orc db (SPragma p) vs = Some db"

section \<open>The engine\<close>

text \<open>The calls of \<^verbatim>\<open>database/sql\<close> the program makes.  A query yields its rows and the error of
  \<^verbatim>\<open>rows.Err()\<close> after them.  A transaction works on a state of its own until it is committed.\<close>

record 'd sql_engine =
  db_Exec :: "stmt \<Rightarrow> sqlval list \<Rightarrow> 'd \<Rightarrow> goerror option \<times> 'd"
  db_Query :: "sql_select \<Rightarrow> sqlval list \<Rightarrow> 'd \<Rightarrow> (goerror + sqlval list list \<times> goerror option) \<times> 'd"
  db_Begin :: "'d \<Rightarrow> goerror option \<times> 'd"
  db_Prepare :: "stmt \<Rightarrow> 'd \<Rightarrow> goerror option \<times> 'd"
  db_Commit :: "'d \<Rightarrow> goerror option \<times> 'd"
  db_Rollback :: "'d \<Rightarrow> 'd"

definition arranges :: "sql_oracle \<Rightarrow> bool" where
  "arranges orc \<longleftrightarrow> (\<forall>rs. mset (or_arrange orc rs) = mset rs)"

text \<open>\<open>tables\<close> are the tables as the program sees them, \<open>saved\<close> those outside the open transaction.\<close>

locale sqlite =
  fixes E :: "'d sql_engine" and tables :: "'d \<Rightarrow> database" and saved :: "'d \<Rightarrow> database" and strftime :: "string \<Rightarrow> string \<Rightarrow> string option"
  assumes exec_ok: "db_Exec E st vs d = (None, d') \<Longrightarrow>
      \<exists>orc db. arranges orc \<and> or_strftime orc = strftime \<and> sql_exec orc (tables d) st vs = Some db \<and> tables d' = db"
    and exec_failed: "db_Exec E st vs d = (Some e, d') \<Longrightarrow> tables d' = tables d"
    and exec_saved: "db_Exec E st vs d = (r, d') \<Longrightarrow> saved d' = saved d"
    and query_ok: "db_Query E q vs d = (Inr (rows, None), d') \<Longrightarrow>
      \<exists>orc. arranges orc \<and> or_strftime orc = strftime \<and> rows = sql_query orc (tables d) q vs"
    and query_partial: "db_Query E q vs d = (Inr (rows, Some e), d') \<Longrightarrow>
      \<exists>orc n. arranges orc \<and> or_strftime orc = strftime \<and> rows = take n (sql_query orc (tables d) q vs)"
    and query_tables: "db_Query E q vs d = (x, d') \<Longrightarrow> tables d' = tables d \<and> saved d' = saved d"
    and begin_ok: "db_Begin E d = (None, d') \<Longrightarrow> tables d' = tables d \<and> saved d' = tables d"
    and begin_failed: "db_Begin E d = (Some e, d') \<Longrightarrow> tables d' = tables d"
    and prepare_same: "db_Prepare E st d = (pe, d') \<Longrightarrow> tables d' = tables d \<and> saved d' = saved d"
    and commit_ok: "db_Commit E d = (None, d') \<Longrightarrow> tables d' = tables d"
    and commit_failed: "db_Commit E d = (Some e, d') \<Longrightarrow> tables d' = saved d"
    and rollback_saved: "tables (db_Rollback E d) = saved d"

section \<open>A reference engine\<close>

text \<open>An engine that computes the meanings above, with a schedule of faults: the \<open>n\<close>-th call fails if
  the schedule says so.\<close>

record ref_db =
  rd_tables :: database
  rd_saved :: database
  rd_calls :: nat
  rd_faults :: "nat \<Rightarrow> goerror option"

definition ref_strftime :: "string \<Rightarrow> string \<Rightarrow> string option" where
  "ref_strftime fmt s =
     Some (if fmt = ''%Y-%m-%dT00:00:00Z'' then take 10 s @ ''T00:00:00Z'' else take 13 s @ '':00:00Z'')"

definition ref_oracle :: sql_oracle where
  "ref_oracle = \<lparr>or_arrange = (\<lambda>rs. rs), or_strftime = ref_strftime\<rparr>"

definition constraint_error :: goerror where
  "constraint_error = \<lparr>err_text = ''constraint failed'', err_deadline = False, err_canceled = False\<rparr>"

definition ref_call :: "(ref_db \<Rightarrow> 'a \<times> ref_db) \<Rightarrow> (goerror \<Rightarrow> ref_db \<Rightarrow> 'a \<times> ref_db) \<Rightarrow> ref_db \<Rightarrow> 'a \<times> ref_db" where
  "ref_call run fail d =
     (let d' = d\<lparr>rd_calls := Suc (rd_calls d)\<rparr>
      in case rd_faults d (rd_calls d) of None \<Rightarrow> run d' | Some e \<Rightarrow> fail e d')"

definition ref_engine :: "ref_db sql_engine" where
  "ref_engine =
     \<lparr>db_Exec = (\<lambda>st vs. ref_call (\<lambda>d. case sql_exec ref_oracle (rd_tables d) st vs of
                   None \<Rightarrow> (Some constraint_error, d) | Some db \<Rightarrow> (None, d\<lparr>rd_tables := db\<rparr>)) (\<lambda>e d. (Some e, d))),
      db_Query = (\<lambda>q vs. ref_call (\<lambda>d. (Inr (sql_query ref_oracle (rd_tables d) q vs, None), d)) (\<lambda>e d. (Inl e, d))),
      db_Begin = ref_call (\<lambda>d. (None, d\<lparr>rd_saved := rd_tables d\<rparr>)) (\<lambda>e d. (Some e, d)),
      db_Prepare = (\<lambda>st. ref_call (\<lambda>d. (None, d)) (\<lambda>e d. (Some e, d))),
      db_Commit = ref_call (\<lambda>d. (None, d)) (\<lambda>e d. (Some e, d\<lparr>rd_tables := rd_saved d\<rparr>)),
      db_Rollback = (\<lambda>d. d\<lparr>rd_tables := rd_saved d\<rparr>)\<rparr>"

lemma ref_oracle_arranges: "arranges ref_oracle"
  by (simp add: arranges_def ref_oracle_def)

interpretation refdb: sqlite ref_engine rd_tables rd_saved ref_strftime
proof
  fix st vs d d'
  assume "db_Exec ref_engine st vs d = (None, d')"
  then have "sql_exec ref_oracle (rd_tables d) st vs = Some (rd_tables d')"
    by (auto simp: ref_engine_def ref_call_def Let_def split: option.splits)
  then show "\<exists>orc db. arranges orc \<and> or_strftime orc = ref_strftime \<and> sql_exec orc (rd_tables d) st vs = Some db \<and> rd_tables d' = db"
    using ref_oracle_arranges by (intro exI [of _ ref_oracle]) (simp add: ref_oracle_def)
next
  fix q vs d rows d'
  assume "db_Query ref_engine q vs d = (Inr (rows, None), d')"
  then have "rows = sql_query ref_oracle (rd_tables d) q vs"
    by (auto simp: ref_engine_def ref_call_def Let_def split: option.splits)
  then show "\<exists>orc. arranges orc \<and> or_strftime orc = ref_strftime \<and> rows = sql_query orc (rd_tables d) q vs"
    using ref_oracle_arranges by (intro exI [of _ ref_oracle]) (simp add: ref_oracle_def)
qed (auto simp: ref_engine_def ref_call_def Let_def split: option.splits)

end
