(* ===== verification/Sql_Tables.thy ===== *)
theory Sql_Tables
  imports Sql "HOL-Library.Multiset"
begin

text \<open>
  What the statements do to well-formed tables, independently of the program: every statement keeps
  a database well-formed; a table with a unique column is a map from its values to rows, an upsert
  an update of that map, a deletion by the column its removal, and a query by the column its lookup.
\<close>

section \<open>Well-formed tables\<close>

definition table_ok :: "table \<Rightarrow> bool" where
  "table_ok tb \<longleftrightarrow>
     distinct (map cd_name (tb_cols tb)) \<and>
     (\<forall>r\<in>set (tb_rows tb). map fst r = map cd_name (tb_cols tb) \<and> null_ok (tb_cols tb) r) \<and>
     sorted_wrt (\<lambda>r r'. \<not> clashes (tb_cols tb) r r') (tb_rows tb)"

definition db_ok :: "database \<Rightarrow> bool" where
  "db_ok db \<longleftrightarrow> (\<forall>t tb. db t = Some tb \<longrightarrow> table_ok tb)"

lemma clashes_sym: "clashes cds r r' \<longleftrightarrow> clashes cds r' r"
  by (auto simp: clashes_def list_ex_iff)

lemma table_okD:
  assumes "table_ok tb"
  shows "distinct (map cd_name (tb_cols tb))"
    and "r \<in> set (tb_rows tb) \<Longrightarrow> map fst r = map cd_name (tb_cols tb)"
    and "r \<in> set (tb_rows tb) \<Longrightarrow> null_ok (tb_cols tb) r"
    and "sorted_wrt (\<lambda>r r'. \<not> clashes (tb_cols tb) r r') (tb_rows tb)"
  using assms by (auto simp: table_ok_def)

text \<open>The columns of a new row, and of an updated one.\<close>

lemma map_fst_new_row [simp]: "map fst (new_row cds cs vs) = map cd_name cds"
  by (simp add: new_row_def)

lemma map_fst_update_row [simp]: "map fst (update_row r ex cs) = map fst r"
  by (auto simp: update_row_def)

lemma map_of_new_row:
  "distinct (map cd_name cds) \<Longrightarrow> cd \<in> set cds \<Longrightarrow> map_of (map (\<lambda>cd. (cd_name cd, f cd)) cds) (cd_name cd) = Some (f cd)"
  by (induction cds) (auto, metis image_eqI)

lemma col_new_row:
  assumes "distinct (map cd_name cds)" "cd \<in> set cds"
  shows "col (new_row cds cs vs) (cd_name cd) =
    (case map_of (zip cs vs) (cd_name cd) of Some v \<Rightarrow> v | None \<Rightarrow> (case cd_default cd of None \<Rightarrow> VNull | Some v \<Rightarrow> v))"
  unfolding col_def new_row_def map_of_new_row [OF assms] by simp

lemma col_given:
  assumes "distinct (map cd_name cds)" "c \<in> cd_name ` set cds" "map_of (zip cs vs) c = Some v"
  shows "col (new_row cds cs vs) c = v"
  using assms col_new_row [OF assms(1)] by auto

lemma new_row_cols:
  assumes "distinct (map cd_name cds)" "set cs \<subseteq> cd_name ` set cds" "distinct cs" "length cs = length vs"
  shows "map (col (new_row cds cs vs)) cs = vs"
proof (rule nth_equalityI)
  fix j assume "j < length (map (col (new_row cds cs vs)) cs)"
  then have j: "j < length cs" by simp
  then have "map_of (zip cs vs) (cs ! j) = Some (vs ! j)" using assms(3,4) by (simp add: map_of_zip_nth)
  then show "map (col (new_row cds cs vs)) cs ! j = vs ! j"
    using j assms(2) col_given [OF assms(1)] by (metis nth_map nth_mem subsetD)
qed (simp add: assms(4))

lemma col_update_row:
  assumes "c \<in> set (map fst r)"
  shows "col (update_row r ex cs) c = (if c \<in> set cs then col ex c else col r c)"
proof -
  have "map_of (update_row r ex cs) c = map_option (\<lambda>v. if c \<in> set cs then col ex c else v) (map_of r c)"
    by (induction r) (auto simp: update_row_def)
  moreover obtain v where "map_of r c = Some v" using assms by (metis map_of_eq_None_iff list.set_map not_Some_eq)
  ultimately show ?thesis by (simp add: col_def)
qed

lemma col_add: "c \<in> set (map fst r) \<Longrightarrow> col (r @ [(c', v)]) c = col r c"
  by (induction r) (auto simp: col_def)

lemma col_added: "c \<notin> set (map fst r) \<Longrightarrow> col (r @ [(c, v)]) c = v"
  by (induction r) (auto simp: col_def)

section \<open>Statements keep tables well-formed\<close>

lemma null_ok_update:
  assumes "null_ok cds r" "null_ok cds ex" "map fst r = map cd_name cds"
  shows "null_ok cds (update_row r ex cs)"
  using assms col_update_row [of _ r ex cs] by (auto simp: null_ok_def list_all_iff)

lemma sorted_wrt_append_one: "sorted_wrt P (xs @ [y]) \<longleftrightarrow> sorted_wrt P xs \<and> (\<forall>x\<in>set xs. P x y)"
  by (simp add: sorted_wrt_append)

lemma sorted_wrt_update:
  assumes "sorted_wrt P xs" "\<And>x y. P x y = P y x" "\<forall>x\<in>set (take i xs @ drop (Suc i) xs). P y x" "i < length xs"
  shows "sorted_wrt P (xs[i := y])"
proof -
  have "sorted_wrt P (take i xs @ xs ! i # drop (Suc i) xs)"
    using assms(1) id_take_nth_drop [OF assms(4)] by metis
  then show ?thesis
    using assms(2,3) by (simp add: upd_conv_take_nth_drop [OF assms(4)] sorted_wrt_append)
qed

lemma find_conflict_Some:
  "find_conflict c r rs = Some i \<Longrightarrow> i < length rs \<and> col (rs ! i) c = col r c \<and> (\<forall>j<i. col (rs ! j) c \<noteq> col r c)"
proof (induction rs arbitrary: i)
  case (Cons x xs)
  then show ?case by (auto split: if_splits simp: nth_Cons split: nat.splits)
qed simp

lemma find_conflict_None: "find_conflict c r rs = None \<longleftrightarrow> (\<forall>x\<in>set rs. col x c \<noteq> col r c)"
  by (induction rs) auto

lemma insert_row_ok:
  assumes tb: "table_ok tb" and r: "map fst r = map cd_name (tb_cols tb)"
    and ins: "insert_row (tb_cols tb) or_ignore upsert r (tb_rows tb) = Some rs"
  shows "table_ok (tb\<lparr>tb_rows := rs\<rparr>)"
proof -
  note ok = table_okD [OF tb]
  let ?i = "case upsert of None \<Rightarrow> None | Some (c, us) \<Rightarrow> find_conflict c r (tb_rows tb)"
  consider (same) "rs = tb_rows tb"
    | (new) "null_ok (tb_cols tb) r" "rs = tb_rows tb @ [r]" "\<not> list_ex (clashes (tb_cols tb) r) (tb_rows tb)"
    | (upd) i us where "?i = Some i" "null_ok (tb_cols tb) r" "rs = (tb_rows tb)[i := update_row (tb_rows tb ! i) r us]"
        "\<not> list_ex (clashes (tb_cols tb) (update_row (tb_rows tb ! i) r us)) (take i (tb_rows tb) @ drop (Suc i) (tb_rows tb))"
    using ins by (auto simp: insert_row_def Let_def split: if_splits option.splits)
  then show ?thesis
  proof cases
    case same
    then show ?thesis using tb by simp
  next
    case new
    then show ?thesis
      using tb r clashes_sym by (auto simp: table_ok_def sorted_wrt_append_one list_ex_iff)
  next
    case upd
    from upd(1) have i: "i < length (tb_rows tb)" by (auto dest: find_conflict_Some split: option.splits)
    let ?u = "update_row (tb_rows tb ! i) r us"
    have old: "tb_rows tb ! i \<in> set (tb_rows tb)" using i by simp
    have u: "map fst ?u = map cd_name (tb_cols tb)" "null_ok (tb_cols tb) ?u"
      using ok(2,3) [OF old] null_ok_update [OF _ upd(2)] by simp_all
    have "sorted_wrt (\<lambda>x y. \<not> clashes (tb_cols tb) x y) ((tb_rows tb)[i := ?u])"
      using ok(4) upd(4) i by (intro sorted_wrt_update) (auto simp: clashes_sym list_ex_iff)
    moreover have "map fst x = map cd_name (tb_cols tb) \<and> null_ok (tb_cols tb) x" if "x \<in> set ((tb_rows tb)[i := ?u])" for x
    proof -
      have "x = ?u \<or> x \<in> set (tb_rows tb)" using that set_update_subset_insert by fast
      then show ?thesis using u ok(2,3) by auto
    qed
    ultimately show ?thesis using ok(1) upd(3) by (simp add: table_ok_def)
  qed
qed

lemma add_column_ok:
  assumes tb: "table_ok tb" and new: "\<not> has_col tb (cd_name cd)" "addable cd"
  shows "table_ok \<lparr>tb_cols = tb_cols tb @ [cd],
    tb_rows = map (\<lambda>r. r @ [(cd_name cd, case cd_default cd of None \<Rightarrow> VNull | Some v \<Rightarrow> v)]) (tb_rows tb)\<rparr>"
proof -
  note ok = table_okD [OF tb]
  let ?v = "case cd_default cd of None \<Rightarrow> VNull | Some v \<Rightarrow> v"
  have names: "cd_name cd \<notin> set (map cd_name (tb_cols tb))" using new(1) by (simp add: has_col_def)
  have old: "col (r @ [(cd_name cd, ?v)]) (cd_name x) = col r (cd_name x)" if "r \<in> set (tb_rows tb)" "x \<in> set (tb_cols tb)" for r x
    using ok(2) [OF that(1)] that(2) by (intro col_add) auto
  have added: "col (r @ [(cd_name cd, ?v)]) (cd_name cd) = ?v" if "r \<in> set (tb_rows tb)" for r
    using ok(2) [OF that] names by (intro col_added) simp
  have n: "null_ok (tb_cols tb @ [cd]) (r @ [(cd_name cd, ?v)])" if "r \<in> set (tb_rows tb)" for r
    using ok(3) [OF that] old [OF that] added [OF that] new(2)
    by (auto simp: null_ok_def list_all_iff addable_def split: option.splits)
  have c: "clashes (tb_cols tb @ [cd]) (r @ [(cd_name cd, ?v)]) (r' @ [(cd_name cd, ?v)]) = clashes (tb_cols tb) r r'"
    if "r \<in> set (tb_rows tb)" "r' \<in> set (tb_rows tb)" for r r'
    using old [OF that(1)] old [OF that(2)] new(2) by (auto simp: clashes_def list_ex_iff addable_def)
  have "sorted_wrt (\<lambda>r r'. \<not> clashes (tb_cols tb @ [cd]) (r @ [(cd_name cd, ?v)]) (r' @ [(cd_name cd, ?v)])) (tb_rows tb)"
    by (rule sorted_wrt_mono_rel [OF _ ok(4)]) (simp add: c)
  then show ?thesis
    using ok(1,2) names n by (auto simp: table_ok_def sorted_wrt_map)
qed

lemma sorted_wrt_filtered: "sorted_wrt P xs \<Longrightarrow> sorted_wrt P (filter Q xs)"
  by (induction xs) auto

lemma table_ok_filter: "table_ok tb \<Longrightarrow> table_ok (tb\<lparr>tb_rows := filter P (tb_rows tb)\<rparr>)"
  by (simp add: table_ok_def sorted_wrt_filtered)

lemma db_ok_upd: "db_ok db \<Longrightarrow> table_ok tb \<Longrightarrow> db_ok (db(t \<mapsto> tb))"
  by (auto simp: db_ok_def)

text \<open>Every statement keeps every table well-formed: rows have exactly the columns of the table, the
  columns declared not null hold no null, and no two rows agree on a unique column.\<close>

lemma sql_exec_ok:
  assumes "db_ok db" "sql_exec orc db st vs = Some db'"
  shows "db_ok db'"
proof (cases st)
  case (SInsert or_ignore t cs upsert)
  with assms(2) obtain tb rs where t: "db t = Some tb" "db' = db(t \<mapsto> tb\<lparr>tb_rows := rs\<rparr>)"
      and i: "insert_row (tb_cols tb) or_ignore upsert (new_row (tb_cols tb) cs vs) (tb_rows tb) = Some rs"
    by (auto split: option.splits if_splits)
  have "table_ok tb" using assms(1) t(1) by (auto simp: db_ok_def)
  then show ?thesis using db_ok_upd [OF assms(1)] insert_row_ok [OF _ _ i] t(2) by simp
next
  case (SDelete t e)
  with assms(2) obtain tb where t: "db t = Some tb"
      "db' = db(t \<mapsto> tb\<lparr>tb_rows := filter (\<lambda>r. \<not> truthy (eval orc db [r] r (bound e vs))) (tb_rows tb)\<rparr>)"
    by (auto split: option.splits)
  have "table_ok tb" using assms(1) t(1) by (auto simp: db_ok_def)
  then show ?thesis using db_ok_upd [OF assms(1)] table_ok_filter t(2) by simp
next
  case (SCreateTable t cds)
  have "table_ok \<lparr>tb_cols = cds, tb_rows = []\<rparr>" if "distinct (map cd_name cds)" using that by (simp add: table_ok_def)
  with assms SCreateTable show ?thesis using db_ok_upd [OF assms(1)] by (auto split: option.splits if_splits)
next
  case (SCreateIndex i t c)
  with assms show ?thesis by (auto split: option.splits if_splits)
next
  case (SAddColumn t cd)
  with assms(2) obtain tb where t: "db t = Some tb" "\<not> has_col tb (cd_name cd)" "addable cd"
      and db': "db' = db(t \<mapsto> \<lparr>tb_cols = tb_cols tb @ [cd],
        tb_rows = map (\<lambda>r. r @ [(cd_name cd, case cd_default cd of None \<Rightarrow> VNull | Some v \<Rightarrow> v)]) (tb_rows tb)\<rparr>)"
    by (auto split: option.splits if_splits)
  have "table_ok tb" using assms(1) t(1) by (auto simp: db_ok_def)
  from db_ok_upd [OF assms(1) add_column_ok [OF this t(2,3)]] show ?thesis using db' by simp
next
  case (SPragma p)
  with assms show ?thesis by simp
qed

section \<open>A table as a map\<close>

definition unique_col :: "table \<Rightarrow> string \<Rightarrow> bool" where
  "unique_col tb c \<longleftrightarrow> (\<exists>cd\<in>set (tb_cols tb). cd_name cd = c \<and> cd_unique cd)"

definition row_at :: "database \<Rightarrow> string \<Rightarrow> string \<Rightarrow> sqlval \<Rightarrow> row option" where
  "row_at db t c v = find (\<lambda>r. col r c = v) (table_rows db t)"

lemma table_rows_Some [simp]: "db t = Some tb \<Longrightarrow> table_rows db t = tb_rows tb"
  by (simp add: table_rows_def)

lemma row_at_Some: "row_at db t c v = Some r \<Longrightarrow> r \<in> set (table_rows db t) \<and> col r c = v"
  by (auto simp: row_at_def find_Some_iff)

lemma row_at_None: "row_at db t c v = None \<longleftrightarrow> (\<forall>r\<in>set (table_rows db t). col r c \<noteq> v)"
  by (auto simp: row_at_def find_None_iff)

lemma unique_clash: "unique_col tb c \<Longrightarrow> col r c = col r' c \<Longrightarrow> col r c \<noteq> VNull \<Longrightarrow> clashes (tb_cols tb) r r'"
  by (auto simp: unique_col_def clashes_def list_ex_iff)

lemma unique_filter:
  assumes "table_ok tb" "unique_col tb c" "v \<noteq> VNull"
  shows "filter (\<lambda>r. col r c = v) (tb_rows tb) = (case find (\<lambda>r. col r c = v) (tb_rows tb) of None \<Rightarrow> [] | Some r \<Rightarrow> [r])"
proof -
  have "filter (\<lambda>r. col r c = v) rs = (case find (\<lambda>r. col r c = v) rs of None \<Rightarrow> [] | Some r \<Rightarrow> [r])"
    if "sorted_wrt (\<lambda>r r'. \<not> clashes (tb_cols tb) r r') rs" for rs
    using that
  proof (induction rs)
    case (Cons r rs)
    have "\<forall>x\<in>set rs. col x c \<noteq> v" if "col r c = v"
      using Cons.prems unique_clash [OF assms(2), of r] that assms(3) by auto
    then show ?case using Cons by (auto simp: filter_empty_conv split: option.splits)
  qed simp
  then show ?thesis using table_okD(4) [OF assms(1)] by blast
qed

lemma unique_distinct:
  assumes "table_ok tb" "unique_col tb c" "\<And>r. r \<in> set (tb_rows tb) \<Longrightarrow> col r c \<noteq> VNull"
  shows "distinct (map (\<lambda>r. col r c) (tb_rows tb))"
proof -
  have "distinct (map (\<lambda>r. col r c) rs)"
    if "sorted_wrt (\<lambda>r r'. \<not> clashes (tb_cols tb) r r') rs" "\<And>r. r \<in> set rs \<Longrightarrow> col r c \<noteq> VNull" for rs
    using that
  proof (induction rs)
    case (Cons r rs)
    then show ?case using unique_clash [OF assms(2), of r] by fastforce
  qed simp
  then show ?thesis using table_okD(4) [OF assms(1)] assms(3) by blast
qed

lemma unique_row:
  assumes "table_ok tb" "unique_col tb c" "db t = Some tb" "r \<in> set (tb_rows tb)" "col r c = v" "v \<noteq> VNull"
  shows "row_at db t c v = Some r"
proof -
  have "r \<in> set (filter (\<lambda>r. col r c = v) (tb_rows tb))" using assms(4,5) by simp
  then show ?thesis using unique_filter [OF assms(1,2,6)] assms(3) by (auto simp: row_at_def split: option.splits)
qed

text \<open>An upsert by a unique column.\<close>

lemma find_update:
  assumes "i < length rs" "col (rs ! i) c = v" "\<forall>j<i. col (rs ! j) c \<noteq> v" "col y c = v"
  shows "find (\<lambda>r. col r c = u) (rs[i := y]) = (if u = v then Some y else find (\<lambda>r. col r c = u) rs)"
  using assms
proof (induction rs arbitrary: i)
  case (Cons r rs)
  show ?case
  proof (cases i)
    case 0
    then show ?thesis using Cons.prems by auto
  next
    case (Suc k)
    have "\<forall>j<k. col (rs ! j) c \<noteq> v" using Cons.prems(3) Suc by (metis Suc_mono nth_Cons_Suc)
    moreover have "col r c \<noteq> v" using Cons.prems(3) Suc by (metis nth_Cons_0 zero_less_Suc)
    ultimately show ?thesis using Cons Suc by auto
  qed
qed simp

lemma find_nth: "i < length rs \<Longrightarrow> P (rs ! i) \<Longrightarrow> \<forall>j<i. \<not> P (rs ! j) \<Longrightarrow> find P rs = Some (rs ! i)"
  by (auto simp: find_Some_iff)

lemma find_snoc: "find P (xs @ [y]) = (case find P xs of None \<Rightarrow> if P y then Some y else None | Some x \<Rightarrow> Some x)"
  by (induction xs) auto

lemma upsert_exec:
  assumes tb: "db t = Some tb" "table_ok tb"
    and ex: "sql_exec orc db (SInsert False t cs (Some (c, us))) vs = Some db'"
    and c: "c \<in> cd_name ` set (tb_cols tb)" "c \<notin> set us" "new = new_row (tb_cols tb) cs vs"
  shows "row_at db' t c v = (if v = col new c then Some (case row_at db t c v of None \<Rightarrow> new | Some old \<Rightarrow> update_row old new us)
      else row_at db t c v) \<and> null_ok (tb_cols tb) new \<and>
    (\<exists>rs. db' = db(t \<mapsto> tb\<lparr>tb_rows := rs\<rparr>) \<and> table_ok (tb\<lparr>tb_rows := rs\<rparr>) \<and>
       set rs \<subseteq> insert (case row_at db t c (col new c) of None \<Rightarrow> new | Some old \<Rightarrow> update_row old new us) (set (tb_rows tb)))"
proof -
  obtain rs where i: "insert_row (tb_cols tb) False (Some (c, us)) new (tb_rows tb) = Some rs" and db': "db' = db(t \<mapsto> tb\<lparr>tb_rows := rs\<rparr>)"
    using ex tb(1) c(3) by (auto split: if_splits)
  have ok: "table_ok (tb\<lparr>tb_rows := rs\<rparr>)" by (rule insert_row_ok [OF tb(2) _ i]) (simp add: c(3))
  from i have n: "null_ok (tb_cols tb) new" by (simp add: insert_row_def split: if_splits)
  have at: "row_at db t c u = find (\<lambda>r. col r c = u) (tb_rows tb)" for u using tb(1) by (simp add: row_at_def)
  have at': "row_at db' t c v = find (\<lambda>r. col r c = v) rs"
    using tb(1) db' by (simp add: row_at_def)
  show ?thesis
  proof (cases "find_conflict c new (tb_rows tb)")
    case None
    with i n have rs: "rs = tb_rows tb @ [new]" by (simp add: insert_row_def split: if_splits)
    have "find (\<lambda>r. col r c = col new c) (tb_rows tb) = None"
      using None by (auto simp: find_conflict_None find_None_iff)
    moreover have "find (\<lambda>r. col r c = v) (tb_rows tb @ [new]) =
        (case find (\<lambda>r. col r c = v) (tb_rows tb) of None \<Rightarrow> if col new c = v then Some new else None | Some r \<Rightarrow> Some r)"
      by (rule find_snoc)
    ultimately show ?thesis using at at' rs n db' ok by (auto split: option.splits)
  next
    case (Some k)
    note k = find_conflict_Some [OF Some]
    let ?y = "update_row (tb_rows tb ! k) new us"
    from i n Some have rs: "rs = (tb_rows tb)[k := ?y]" by (simp add: insert_row_def Let_def split: if_splits)
    have "c \<in> set (map fst (tb_rows tb ! k))" using table_okD(2) [OF tb(2)] k c(1) by (metis list.set_map nth_mem)
    then have "col ?y c = col new c" using c(2) k by (simp add: col_update_row)
    with k have "find (\<lambda>r. col r c = v) rs = (if v = col new c then Some ?y else find (\<lambda>r. col r c = v) (tb_rows tb))"
      unfolding rs by (intro find_update) auto
    moreover have "find (\<lambda>r. col r c = col new c) (tb_rows tb) = Some (tb_rows tb ! k)" using k by (intro find_nth) auto
    moreover have "set rs \<subseteq> insert ?y (set (tb_rows tb))" unfolding rs by (rule set_update_subset_insert)
    ultimately show ?thesis using at at' n db' ok by auto
  qed
qed

lemma filter_find:
  "find (\<lambda>r. col r c = u) (filter (\<lambda>r. col r c \<noteq> v) rs) = (if u = v then None else find (\<lambda>r. col r c = u) rs)"
  by (induction rs) auto

lemma truthy_eq: "truthy (sql_binop OpEq a b) \<longleftrightarrow> a = b \<and> a \<noteq> VNull"
  by (auto simp: sql_binop_def sql_compare_def sql_bool_def truthy_def)

lemma bound_eq_param [simp]: "bound (EBin OpEq (ECol c) EParam) [v] = EBin OpEq (ECol c) (EVal v)"
  by (simp add: bound_def)

lemma delete_exec:
  assumes "db t = Some tb" "sql_exec orc db (SDelete t (EBin OpEq (ECol c) EParam)) [v] = Some db'" "v \<noteq> VNull"
  shows "db' = db(t \<mapsto> tb\<lparr>tb_rows := filter (\<lambda>r. col r c \<noteq> v) (tb_rows tb)\<rparr>)"
    and "row_at db' t c u = (if u = v then None else row_at db t c u)"
proof -
  have "(\<not> truthy (sql_binop OpEq (col r c) v)) = (col r c \<noteq> v)" for r using assms(3) by (auto simp: truthy_eq)
  then show d: "db' = db(t \<mapsto> tb\<lparr>tb_rows := filter (\<lambda>r. col r c \<noteq> v) (tb_rows tb)\<rparr>)" using assms(1,2) by simp
  show "row_at db' t c u = (if u = v then None else row_at db t c u)"
    using assms(1) by (simp add: d row_at_def filter_find)
qed

section \<open>Queries\<close>

definition plain_cols :: "sql_select \<Rightarrow> string list \<Rightarrow> bool" where
  "plain_cols q cs \<longleftrightarrow> q_cols q = map ECol cs \<and> q_group q = None"

lemma no_aggregate: "\<not> list_ex has_aggregate (map ECol cs)"
  by (induction cs) auto

lemma order_singletons:
  assumes "\<And>x. h [x] = f x"
  shows "order_rows h desc (map (\<lambda>r. [r]) xs) = map (\<lambda>r. [r]) (order_rows f desc xs)"
proof -
  have "insort_key h [x] (map (\<lambda>r. [r]) ys) = map (\<lambda>r. [r]) (insort_key f x ys)" for x ys
    using assms by (induction ys) auto
  then have "sort_key h (map (\<lambda>r. [r]) xs) = map (\<lambda>r. [r]) (sort_key f xs)" by (induction xs) auto
  then show ?thesis by (simp add: order_rows_def rev_map)
qed

lemma limit_offset_map: "limit_offset n m (map f xs) = map f (limit_offset n m xs)"
  by (simp add: limit_offset_def Let_def drop_map take_map)

lemma limit_offset_all [simp]: "limit_offset (-1) 0 xs = xs"
  by (simp add: limit_offset_def)

lemma sql_query_plain:
  assumes "plain_cols q cs"
  shows "q_order q = None \<Longrightarrow>
      sql_query orc db q vs = map (\<lambda>r. map (col r) cs) (limit_offset (q_limit q) (q_offset q) (where_rows orc db q vs))"
    and "q_order q = Some (ECol k, desc) \<Longrightarrow>
      sql_query orc db q vs =
        map (\<lambda>r. map (col r) cs) (limit_offset (q_limit q) (q_offset q) (order_rows (\<lambda>r. col r k) desc (where_rows orc db q vs)))"
proof -
  have g: "sql_groups orc db q (where_rows orc db q vs) = map (\<lambda>r. [r]) (where_rows orc db q vs)"
    using assms no_aggregate by (simp add: sql_groups_def plain_cols_def)
  have v: "map (group_value orc db [r]) (q_cols q) = map (col r) cs" for r
    using assms by (simp add: plain_cols_def group_value_def)
  have o: "order_rows (\<lambda>g. group_value orc db g (ECol k)) desc (map (\<lambda>r. [r]) xs) = map (\<lambda>r. [r]) (order_rows (\<lambda>r. col r k) desc xs)" for xs
    by (rule order_singletons) (simp add: group_value_def)
  show "q_order q = None \<Longrightarrow>
      sql_query orc db q vs = map (\<lambda>r. map (col r) cs) (limit_offset (q_limit q) (q_offset q) (where_rows orc db q vs))"
    by (simp add: sql_query_def g limit_offset_map v comp_def)
  show "q_order q = Some (ECol k, desc) \<Longrightarrow>
      sql_query orc db q vs =
        map (\<lambda>r. map (col r) cs) (limit_offset (q_limit q) (q_offset q) (order_rows (\<lambda>r. col r k) desc (where_rows orc db q vs)))"
    by (simp add: sql_query_def g o limit_offset_map v comp_def)
qed

lemma where_key:
  assumes "arranges orc" "db (q_from q) = Some tb" "table_ok tb" "unique_col tb c" "v \<noteq> VNull"
    and "q_where q = Some (EBin OpEq (ECol c) EParam)"
  shows "where_rows orc db q [v] = (case row_at db (q_from q) c v of None \<Rightarrow> [] | Some r \<Rightarrow> [r])"
proof -
  let ?ys = "or_arrange orc (tb_rows tb)"
  have "truthy (sql_binop OpEq (col r c) v) \<longleftrightarrow> col r c = v" for r using assms(5) by (auto simp: truthy_eq)
  then have w: "where_rows orc db q [v] = filter (\<lambda>r. col r c = v) ?ys"
    using assms(2,6) by (simp add: where_rows_def)
  have "mset (filter (\<lambda>r. col r c = v) ?ys) = mset (filter (\<lambda>r. col r c = v) (tb_rows tb))"
    using assms(1) by (simp add: arranges_def)
  then have m: "mset (where_rows orc db q [v]) = mset (case row_at db (q_from q) c v of None \<Rightarrow> [] | Some r \<Rightarrow> [r])"
    unfolding w using unique_filter [OF assms(3-5)] assms(2) by (simp only: row_at_def table_rows_Some)
  then show ?thesis
    by (cases "row_at db (q_from q) c v") (simp_all del: mset_filter)
qed

lemma query_by_key:
  assumes "arranges orc" "db (q_from q) = Some tb" "table_ok tb" "unique_col tb c" "v \<noteq> VNull"
    and "q_where q = Some (EBin OpEq (ECol c) EParam)" "plain_cols q cs" "q_order q = None" "q_limit q = -1" "q_offset q = 0"
  shows "sql_query orc db q [v] = (case row_at db (q_from q) c v of None \<Rightarrow> [] | Some r \<Rightarrow> [map (col r) cs])"
  using sql_query_plain(1) [OF assms(7,8)] where_key [of orc db q tb c v, OF assms(1-6)] assms(9,10) by (simp split: option.splits)

lemma mset_order_rows [simp]: "mset (order_rows f desc xs) = mset xs"
  by (simp add: order_rows_def)

lemma set_order_rows [simp]: "set (order_rows f desc xs) = set xs"
  by (simp add: order_rows_def)

lemma order_rows_sorted:
  "sorted_wrt (\<lambda>a b. if desc then f b \<le> f a else f a \<le> f b) (order_rows f desc xs)"
proof (cases desc)
  case True
  have "sorted (map f (sort_key f xs))" by simp
  then show ?thesis using True by (simp add: order_rows_def sorted_wrt_rev sorted_wrt_map)
next
  case False
  have "sorted (map f (sort_key f xs))" by simp
  then show ?thesis using False by (simp add: order_rows_def sorted_wrt_map)
qed

section \<open>Consequences for an engine\<close>

context sqlite
begin

lemma exec_db_ok: "db_Exec E st vs d = (r, d') \<Longrightarrow> db_ok (tables d) \<Longrightarrow> db_ok (tables d')"
  using exec_ok exec_failed sql_exec_ok by (cases r) fastforce+

lemma query_all:
  assumes "db_Query E q vs d = (Inr (rows, None), d')" "plain_cols q cs" "q_where q = None" "q_order q = Some (ECol k, desc)"
    and "q_limit q = -1" "q_offset q = 0"
  obtains rs where "mset rs = mset (table_rows (tables d) (q_from q))"
    "sorted_wrt (\<lambda>a b. if desc then col b k \<le> col a k else col a k \<le> col b k) rs" "rows = map (\<lambda>r. map (col r) cs) rs"
proof -
  obtain orc where orc: "arranges orc" and r: "rows = sql_query orc (tables d) q vs" using query_ok [OF assms(1)] by blast
  have w: "where_rows orc (tables d) q vs = or_arrange orc (table_rows (tables d) (q_from q))"
    using assms(3) by (simp add: where_rows_def)
  let ?rs = "order_rows (\<lambda>r. col r k) desc (or_arrange orc (table_rows (tables d) (q_from q)))"
  show ?thesis
  proof (rule that [of ?rs])
    show "mset ?rs = mset (table_rows (tables d) (q_from q))" using orc by (simp add: arranges_def)
    show "rows = map (\<lambda>r. map (col r) cs) ?rs" by (simp add: r sql_query_plain(2) [OF assms(2,4)] w assms(5,6))
  qed (rule order_rows_sorted)
qed

end

end
