(* ===== verification/Sqlite_Storage.thy ===== *)
theory Sqlite_Storage
  imports Sql_Tables Storage_Interface Go_Time
begin

text \<open>
  \<^verbatim>\<open>internal/storage/sqlite/storage.go\<close>: the schema, its migration, and the operations of
  \<^verbatim>\<open>SQLiteStorage\<close> over an engine of \<open>Sql\<close>.  Times are formatted and read in UTC.  The errors of
  \<^verbatim>\<open>json.Unmarshal\<close> and of \<^verbatim>\<open>time.Parse\<close> are ignored by the code: what it then uses is what these
  functions leave behind (\<open>lax_strings\<close>, \<open>lax_object\<close>, \<open>lax_time\<close>).
\<close>

section \<open>Scanning rows\<close>

text \<open>\<^verbatim>\<open>FormatFloat(x, 'g', -1, 64)\<close>, by which \<^verbatim>\<open>database/sql\<close> turns a float into text.\<close>

definition format_g :: "rat \<Rightarrow> string" where
  "format_g x =
     (if x = 0 then ''0''
      else (case shortest \<bar>x\<bar> of (d, e) \<Rightarrow>
              let ds = format_nat d; ex = int (length ds) + e - 1
              in (if x < 0 then ''-'' else []) @
                 (if ex < -4 \<or> ex \<ge> 6
                  then take 1 ds @ (if length ds > 1 then ''.'' @ drop 1 ds else []) @ ''e'' @
                       (if ex < 0 then ''-'' else ''+'') @ pad 2 (nat \<bar>ex\<bar>)
                  else format_f d e)))"

datatype scan_kind = KStr | KInt | KNullStr
datatype goval = GStr string | GInt int | GNullStr "string option"

fun convertAssign :: "scan_kind \<Rightarrow> sqlval \<Rightarrow> goval option" where
  "convertAssign KStr (VText s) = Some (GStr s)"
| "convertAssign KStr (VInt i) = Some (GStr (FormatInt i))"
| "convertAssign KStr (VReal x) = Some (GStr (format_g x))"
| "convertAssign KStr VNull = None"
| "convertAssign KInt (VInt i) = Some (GInt i)"
| "convertAssign KInt (VText s) = (case ParseInt s of (i, None) \<Rightarrow> Some (GInt i) | _ \<Rightarrow> None)"
| "convertAssign KInt (VReal x) = (case ParseInt (format_g x) of (i, None) \<Rightarrow> Some (GInt i) | _ \<Rightarrow> None)"
| "convertAssign KInt VNull = None"
| "convertAssign KNullStr VNull = Some (GNullStr None)"
| "convertAssign KNullStr (VText s) = Some (GNullStr (Some s))"
| "convertAssign KNullStr (VInt i) = Some (GNullStr (Some (FormatInt i)))"
| "convertAssign KNullStr (VReal x) = Some (GNullStr (Some (format_g x)))"

text \<open>\<^verbatim>\<open>Scan\<close>: the columns in order, the first that does not convert is the error.\<close>

fun scan :: "scan_kind list \<Rightarrow> sqlval list \<Rightarrow> goval list option" where
  "scan [] [] = Some []"
| "scan (k # ks) (v # vs) =
     (case convertAssign k v of None \<Rightarrow> None | Some g \<Rightarrow> map_option ((#) g) (scan ks vs))"
| "scan _ _ = None"

definition scan_error :: goerror where
  "scan_error = \<lparr>err_text = ''sql: Scan error'', err_deadline = False, err_canceled = False\<rparr>"

section \<open>Decoding with ignored errors\<close>

definition lax_strings :: "bytes \<Rightarrow> string list" where
  "lax_strings s =
     (case parse_text s of
        Some (RArr vs) \<Rightarrow> map (\<lambda>v. case v of RStr x \<Rightarrow> x | _ \<Rightarrow> []) vs
      | _ \<Rightarrow> [])"

fun lax_any :: "jraw \<Rightarrow> json" where
  "lax_any RNull = JNull"
| "lax_any (RBool b) = JBool b"
| "lax_any (RNum l) = (case to_double (lit_value l) of None \<Rightarrow> JNull | Some x \<Rightarrow> JNum x)"
| "lax_any (RStr s) = JStr s"
| "lax_any (RArr vs) = JArr (map lax_any vs)"
| "lax_any (RObj ms) = JObj (put_members (map (\<lambda>(k, v). (k, lax_any v)) ms) [])"

definition lax_object :: "bytes \<Rightarrow> jobject" where
  "lax_object s =
     (case parse_text s of
        Some (RObj ms) \<Rightarrow> put_members (map (\<lambda>(k, v). (k, lax_any v)) ms) []
      | _ \<Rightarrow> [])"

definition lax_time :: "string \<Rightarrow> gotime" where
  "lax_time s = (case Parse_RFC3339 s of None \<Rightarrow> 0 | Some t \<Rightarrow> t)"

definition boolToInt :: "bool \<Rightarrow> int" where
  "boolToInt b = (if b then 1 else 0)"

section \<open>Schema\<close>

definition key_col :: "string \<Rightarrow> coldef" where
  "key_col c = \<lparr>cd_name = c, cd_notnull = False, cd_unique = True, cd_default = None\<rparr>"

definition needed_col :: "string \<Rightarrow> coldef" where
  "needed_col c = \<lparr>cd_name = c, cd_notnull = True, cd_unique = False, cd_default = None\<rparr>"

definition null_col :: "string \<Rightarrow> coldef" where
  "null_col c = \<lparr>cd_name = c, cd_notnull = False, cd_unique = False, cd_default = None\<rparr>"

definition text_col :: "string \<Rightarrow> string \<Rightarrow> coldef" where
  "text_col c v = \<lparr>cd_name = c, cd_notnull = True, cd_unique = False, cd_default = Some (VText v)\<rparr>"

definition int_col :: "string \<Rightarrow> int \<Rightarrow> coldef" where
  "int_col c v = \<lparr>cd_name = c, cd_notnull = True, cd_unique = False, cd_default = Some (VInt v)\<rparr>"

definition model_nodes_cols :: "coldef list" where
  "model_nodes_cols =
     [key_col ''id'', text_col ''name'' [], text_col ''aliases'' ''[]'', needed_col ''base_url'', text_col ''api_key'' [],
      text_col ''model_name'' [], text_col ''endpoint_type'' ''all'', int_col ''tpm'' 0, int_col ''rpm'' 0,
      text_col ''override'' ''{}'', int_col ''timeout_sec'' 120, int_col ''enabled'' 1, needed_col ''created_at'',
      needed_col ''updated_at'']"

definition api_keys_cols :: "coldef list" where
  "api_keys_cols =
     [key_col ''id'', (key_col ''key_value'')\<lparr>cd_notnull := True\<rparr>, text_col ''name'' [], int_col ''enabled'' 1,
      null_col ''rate_limit'', text_col ''allow_models'' ''[]'', needed_col ''created_at'', null_col ''expires_at'']"

definition request_logs_cols :: "coldef list" where
  "request_logs_cols =
     [key_col ''id'', text_col ''session_id'' [], needed_col ''timestamp'', text_col ''api_key_id'' [], text_col ''model_alias'' [],
      text_col ''node_id'' [], text_col ''actual_model'' [], int_col ''prompt_tokens'' 0, int_col ''completion_tokens'' 0,
      int_col ''total_tokens'' 0, int_col ''duration_ms'' 0, int_col ''status_code'' 0, int_col ''stream'' 0,
      text_col ''error_msg'' [], int_col ''has_detail'' 0]"

definition detail_logs_cols :: "coldef list" where
  "detail_logs_cols =
     [key_col ''trace_id'', text_col ''session_id'' [], needed_col ''timestamp'', text_col ''request_body'' [],
      text_col ''response_body'' []]"

definition migrate_stmts :: "stmt list" where
  "migrate_stmts =
     [SCreateTable ''model_nodes'' model_nodes_cols,
      SCreateTable ''api_keys'' api_keys_cols,
      SCreateTable ''request_logs'' request_logs_cols,
      SCreateIndex ''idx_rl_timestamp'' ''request_logs'' ''timestamp'',
      SCreateIndex ''idx_rl_api_key_id'' ''request_logs'' ''api_key_id'',
      SCreateIndex ''idx_rl_model_alias'' ''request_logs'' ''model_alias'',
      SCreateIndex ''idx_rl_session_id'' ''request_logs'' ''session_id'',
      SCreateIndex ''idx_rl_node_id'' ''request_logs'' ''node_id'',
      SCreateTable ''detail_logs'' detail_logs_cols,
      SCreateIndex ''idx_dl_session_id'' ''detail_logs'' ''session_id'',
      SCreateIndex ''idx_dl_timestamp'' ''detail_logs'' ''timestamp'']"

definition upgrade_stmts :: "stmt list" where
  "upgrade_stmts =
     [SAddColumn ''model_nodes'' (null_col ''rate_limit''), SAddColumn ''model_nodes'' (int_col ''tpm'' 0),
      SAddColumn ''model_nodes'' (int_col ''rpm'' 0), SAddColumn ''api_keys'' (int_col ''tpm'' 0),
      SAddColumn ''api_keys'' (int_col ''rpm'' 0)]"

fun exec_all :: "'d sql_engine \<Rightarrow> stmt list \<Rightarrow> 'd \<Rightarrow> goerror option \<times> 'd" where
  "exec_all E [] d = (None, d)"
| "exec_all E (st # sts) d =
     (case db_Exec E st [] d of (Some e, d') \<Rightarrow> (Some e, d') | (None, d') \<Rightarrow> exec_all E sts d')"

fun try_all :: "'d sql_engine \<Rightarrow> stmt list \<Rightarrow> 'd \<Rightarrow> 'd" where
  "try_all E [] d = d"
| "try_all E (st # sts) d = try_all E sts (snd (db_Exec E st [] d))"

definition migrate :: "'d sql_engine \<Rightarrow> 'd \<Rightarrow> goerror option \<times> 'd" where
  "migrate E d =
     (case exec_all E migrate_stmts d of
        (Some e, d') \<Rightarrow> (Some (wrap_error ''migrate: '' e), d')
      | (None, d') \<Rightarrow> (None, try_all E upgrade_stmts d'))"

text \<open>\<^verbatim>\<open>Open\<close>; the argument is the result of \<^verbatim>\<open>sql.Open\<close> for the path.\<close>

definition sqlite_Open :: "'d sql_engine \<Rightarrow> (string \<Rightarrow> goerror + 'd) \<Rightarrow> string \<Rightarrow> goerror + 'd" where
  "sqlite_Open E sql_Open path =
     (case sql_Open (''file:'' @ path @ ''?_journal_mode=WAL&_busy_timeout=5000&_foreign_keys=on'') of
        Inl e \<Rightarrow> Inl e
      | Inr d \<Rightarrow> (case migrate E d of (Some e, d') \<Rightarrow> Inl e | (None, d') \<Rightarrow> Inr d'))"

section \<open>Nodes\<close>

definition node_columns :: "string list" where
  "node_columns = [''id'', ''name'', ''aliases'', ''base_url'', ''api_key'', ''model_name'', ''endpoint_type'', ''tpm'', ''rpm'',
     ''override'', ''timeout_sec'', ''enabled'', ''created_at'', ''updated_at'']"

definition stamp_node :: "gotime \<Rightarrow> ModelNode \<Rightarrow> ModelNode" where
  "stamp_node now n = (if n_CreatedAt n = 0 then n\<lparr>n_CreatedAt := now\<rparr> else n)\<lparr>n_UpdatedAt := now\<rparr>"

definition json_map :: "json_empties \<Rightarrow> jobject \<Rightarrow> bytes" where
  "json_map je m = (if m = [] then je_map je else Marshal (JObj m))"

definition upsert_node_stmt :: stmt where
  "upsert_node_stmt =
     SInsert False ''model_nodes''
       [''id'', ''name'', ''aliases'', ''base_url'', ''api_key'', ''model_name'', ''endpoint_type'', ''override'', ''timeout_sec'',
        ''enabled'', ''created_at'', ''updated_at'', ''tpm'', ''rpm'']
       (Some (''id'', [''name'', ''aliases'', ''base_url'', ''api_key'', ''model_name'', ''endpoint_type'', ''override'',
                       ''timeout_sec'', ''enabled'', ''updated_at'', ''tpm'', ''rpm'']))"

definition node_args :: "json_empties \<Rightarrow> ModelNode \<Rightarrow> sqlval list" where
  "node_args je n =
     [VText (n_ID n), VText (n_Name n), VText (json_strings je (n_Aliases n)), VText (n_BaseURL n), VText (n_APIKey n),
      VText (n_ModelName n), VText (n_EndpointType n), VText (json_map je (n_Override n)), VInt (n_TimeoutSec n),
      VInt (boolToInt (n_Enabled n)), VText (Format_RFC3339Nano (n_CreatedAt n)), VText (Format_RFC3339Nano (n_UpdatedAt n)),
      VInt (n_TPM n), VInt (n_RPM n)]"

definition UpsertNode :: "'d sql_engine \<Rightarrow> json_empties \<Rightarrow> gotime \<Rightarrow> ModelNode \<Rightarrow> 'd \<Rightarrow> goerror option \<times> 'd" where
  "UpsertNode E je now n d = db_Exec E upsert_node_stmt (node_args je (stamp_node now n)) d"

definition select_nodes :: "sexpr option \<Rightarrow> (sexpr \<times> bool) option \<Rightarrow> sql_select" where
  "select_nodes wh ob =
     \<lparr>q_cols = map ECol node_columns, q_from = ''model_nodes'', q_where = wh, q_group = None, q_order = ob,
      q_limit = -1, q_offset = 0\<rparr>"

definition node_kinds :: "scan_kind list" where
  "node_kinds = [KStr, KStr, KStr, KStr, KStr, KStr, KStr, KInt, KInt, KStr, KInt, KInt, KStr, KStr]"

definition scanNode :: "sqlval list \<Rightarrow> goerror + ModelNode" where
  "scanNode vs =
     (case scan node_kinds vs of
        Some [GStr i, GStr nm, GStr as, GStr url, GStr key, GStr mn, GStr et, GInt tpm, GInt rpm, GStr ov, GInt to, GInt en,
              GStr ca, GStr ua] \<Rightarrow>
          Inr \<lparr>n_ID = i, n_Name = nm, n_Aliases = lax_strings as, n_BaseURL = url, n_APIKey = key, n_ModelName = mn,
               n_EndpointType = et, n_TPM = tpm, n_RPM = rpm, n_Override = lax_object ov, n_TimeoutSec = to,
               n_Enabled = (en \<noteq> 0), n_CreatedAt = lax_time ca, n_UpdatedAt = lax_time ua\<rparr>
      | _ \<Rightarrow> Inl scan_error)"

text \<open>\<^verbatim>\<open>QueryRow(...).Scan\<close> with the absence of rows as a nil result.\<close>

definition query_row ::
  "'d sql_engine \<Rightarrow> (sqlval list \<Rightarrow> goerror + 'a) \<Rightarrow> sql_select \<Rightarrow> sqlval list \<Rightarrow> 'd \<Rightarrow> (goerror + 'a option) \<times> 'd" where
  "query_row E sc q vs d =
     (case db_Query E q vs d of
        (Inl e, d') \<Rightarrow> (Inl e, d')
      | (Inr ([], None), d') \<Rightarrow> (Inr None, d')
      | (Inr ([], Some e), d') \<Rightarrow> (Inl e, d')
      | (Inr (r # rs, err), d') \<Rightarrow> ((case sc r of Inl e \<Rightarrow> Inl e | Inr x \<Rightarrow> Inr (Some x)), d'))"

text \<open>The loop over \<^verbatim>\<open>rows.Next()\<close>.\<close>

fun scan_rows :: "(sqlval list \<Rightarrow> goerror + 'a) \<Rightarrow> sqlval list list \<Rightarrow> goerror option \<Rightarrow> 'a list \<Rightarrow> 'a list \<times> goerror option" where
  "scan_rows sc [] err out = (out, err)"
| "scan_rows sc (r # rs) err out = (case sc r of Inl e \<Rightarrow> ([], Some e) | Inr x \<Rightarrow> scan_rows sc rs err (out @ [x]))"

definition query_list ::
  "'d sql_engine \<Rightarrow> (sqlval list \<Rightarrow> goerror + 'a) \<Rightarrow> sql_select \<Rightarrow> sqlval list \<Rightarrow> 'd \<Rightarrow> ('a list \<times> goerror option) \<times> 'd" where
  "query_list E sc q vs d =
     (case db_Query E q vs d of
        (Inl e, d') \<Rightarrow> (([], Some e), d')
      | (Inr (rows, err), d') \<Rightarrow> (scan_rows sc rows err [], d'))"

definition GetNode :: "'d sql_engine \<Rightarrow> string \<Rightarrow> 'd \<Rightarrow> (goerror + ModelNode option) \<times> 'd" where
  "GetNode E i d = query_row E scanNode (select_nodes (Some (EBin OpEq (ECol ''id'') EParam)) None) [VText i] d"

definition ListNodes :: "'d sql_engine \<Rightarrow> 'd \<Rightarrow> (ModelNode list \<times> goerror option) \<times> 'd" where
  "ListNodes E d = query_list E scanNode (select_nodes None (Some (ECol ''name'', False))) [] d"

definition DeleteNode :: "'d sql_engine \<Rightarrow> string \<Rightarrow> 'd \<Rightarrow> goerror option \<times> 'd" where
  "DeleteNode E i d = db_Exec E (SDelete ''model_nodes'' (EBin OpEq (ECol ''id'') EParam)) [VText i] d"

section \<open>API keys\<close>

definition key_columns :: "string list" where
  "key_columns = [''id'', ''key_value'', ''name'', ''enabled'', ''tpm'', ''rpm'', ''allow_models'', ''created_at'', ''expires_at'']"

definition stamp_key :: "gotime \<Rightarrow> APIKey \<Rightarrow> APIKey" where
  "stamp_key now k = (if k_CreatedAt k = 0 then k\<lparr>k_CreatedAt := now\<rparr> else k)"

definition upsert_key_stmt :: stmt where
  "upsert_key_stmt =
     SInsert False ''api_keys''
       [''id'', ''key_value'', ''name'', ''enabled'', ''tpm'', ''rpm'', ''allow_models'', ''created_at'', ''expires_at'']
       (Some (''id'', [''key_value'', ''name'', ''enabled'', ''tpm'', ''rpm'', ''allow_models'', ''expires_at'']))"

definition key_args :: "json_empties \<Rightarrow> APIKey \<Rightarrow> sqlval list" where
  "key_args je k =
     [VText (k_ID k), VText (k_Key k), VText (k_Name k), VInt (boolToInt (k_Enabled k)), VInt (k_TPM k), VInt (k_RPM k),
      VText (json_strings je (k_AllowModels k)), VText (Format_RFC3339Nano (k_CreatedAt k)),
      (case k_ExpiresAt k of None \<Rightarrow> VNull | Some t \<Rightarrow> VText (Format_RFC3339Nano t))]"

definition UpsertAPIKey :: "'d sql_engine \<Rightarrow> json_empties \<Rightarrow> gotime \<Rightarrow> APIKey \<Rightarrow> 'd \<Rightarrow> goerror option \<times> 'd" where
  "UpsertAPIKey E je now k d = db_Exec E upsert_key_stmt (key_args je (stamp_key now k)) d"

definition select_keys :: "sexpr option \<Rightarrow> (sexpr \<times> bool) option \<Rightarrow> sql_select" where
  "select_keys wh ob =
     \<lparr>q_cols = map ECol key_columns, q_from = ''api_keys'', q_where = wh, q_group = None, q_order = ob,
      q_limit = -1, q_offset = 0\<rparr>"

definition scanAPIKey :: "sqlval list \<Rightarrow> goerror + APIKey" where
  "scanAPIKey vs =
     (case scan [KStr, KStr, KStr, KInt, KInt, KInt, KStr, KStr, KNullStr] vs of
        Some [GStr i, GStr key, GStr nm, GInt en, GInt tpm, GInt rpm, GStr am, GStr ca, GNullStr ex] \<Rightarrow>
          Inr \<lparr>k_ID = i, k_Key = key, k_Name = nm, k_Enabled = (en \<noteq> 0), k_TPM = tpm, k_RPM = rpm,
               k_AllowModels = lax_strings am, k_CreatedAt = lax_time ca,
               k_ExpiresAt = (case ex of None \<Rightarrow> None | Some s \<Rightarrow> if s = [] then None else Some (lax_time s))\<rparr>
      | _ \<Rightarrow> Inl scan_error)"

definition GetAPIKey :: "'d sql_engine \<Rightarrow> string \<Rightarrow> 'd \<Rightarrow> (goerror + APIKey option) \<times> 'd" where
  "GetAPIKey E i d = query_row E scanAPIKey (select_keys (Some (EBin OpEq (ECol ''id'') EParam)) None) [VText i] d"

definition GetAPIKeyByValue :: "'d sql_engine \<Rightarrow> string \<Rightarrow> 'd \<Rightarrow> (goerror + APIKey option) \<times> 'd" where
  "GetAPIKeyByValue E v d = query_row E scanAPIKey (select_keys (Some (EBin OpEq (ECol ''key_value'') EParam)) None) [VText v] d"

definition ListAPIKeys :: "'d sql_engine \<Rightarrow> 'd \<Rightarrow> (APIKey list \<times> goerror option) \<times> 'd" where
  "ListAPIKeys E d = query_list E scanAPIKey (select_keys None (Some (ECol ''created_at'', True))) [] d"

definition DeleteAPIKey :: "'d sql_engine \<Rightarrow> string \<Rightarrow> 'd \<Rightarrow> goerror option \<times> 'd" where
  "DeleteAPIKey E i d = db_Exec E (SDelete ''api_keys'' (EBin OpEq (ECol ''id'') EParam)) [VText i] d"

definition sqlite_storage :: "'d sql_engine \<Rightarrow> json_empties \<Rightarrow> gotime \<Rightarrow> 'd storage_ops" where
  "sqlite_storage E je now =
     \<lparr>so_UpsertNode = UpsertNode E je now, so_GetNode = GetNode E, so_ListNodes = ListNodes E, so_DeleteNode = DeleteNode E,
      so_UpsertAPIKey = UpsertAPIKey E je now, so_GetAPIKey = GetAPIKey E, so_GetAPIKeyByValue = GetAPIKeyByValue E,
      so_ListAPIKeys = ListAPIKeys E, so_DeleteAPIKey = DeleteAPIKey E\<rparr>"

section \<open>What comes back\<close>

lemma all_some_Some: "all_some xs = Some ys \<longleftrightarrow> xs = map Some ys"
proof (induction xs arbitrary: ys rule: all_some.induct)
  case (3 x xs)
  then show ?case by (cases ys) auto
qed auto

lemma to_any_JArr: "to_any t = Some (JArr xs) \<Longrightarrow> \<exists>vs. t = RArr vs \<and> map to_any vs = map Some xs"
  by (cases t) (auto simp: all_some_Some)

lemma to_any_JStr: "to_any t = Some (JStr s) \<Longrightarrow> t = RStr s"
  by (cases t) auto

lemma lax_any_to_any: "to_any t = Some j \<Longrightarrow> lax_any t = j"
proof (induction t arbitrary: j rule: lax_any.induct)
  case (5 vs)
  then obtain ys where ys: "j = JArr ys" "map to_any vs = map Some ys" by (auto simp: all_some_Some)
  have "map lax_any vs = ys"
  proof (rule nth_equalityI)
    show l: "length (map lax_any vs) = length ys" using ys(2) by (metis length_map)
    fix i assume "i < length (map lax_any vs)"
    then have i: "i < length vs" "i < length ys" using l by simp_all
    have "to_any (vs ! i) = Some (ys ! i)" using ys(2) i by (metis nth_map)
    then show "map lax_any vs ! i = ys ! i" using "5.IH" [of "vs ! i"] i by simp
  qed
  then show ?case using ys by simp
next
  case (6 ms)
  then obtain kvs where k: "j = JObj (put_members kvs [])" "map (\<lambda>(k, v). map_option (Pair k) (to_any v)) ms = map Some kvs"
    by (auto simp: all_some_Some)
  have "map (\<lambda>(k, v). (k, lax_any v)) ms = kvs"
  proof (rule nth_equalityI)
    show l: "length (map (\<lambda>(k, v). (k, lax_any v)) ms) = length kvs" using k(2) by (metis length_map)
    fix i assume "i < length (map (\<lambda>(k, v). (k, lax_any v)) ms)"
    then have i: "i < length ms" "i < length kvs" using l by simp_all
    obtain a b where ab: "ms ! i = (a, b)" by fastforce
    have "(\<lambda>(k, v). map_option (Pair k) (to_any v)) (ms ! i) = Some (kvs ! i)" using k(2) i by (metis nth_map)
    then obtain v where v: "to_any b = Some v" "kvs ! i = (a, v)" using ab by auto
    have "lax_any b = v" using "6.IH" [of "(a, b)" a b v] ab i v(1) by (metis nth_mem)
    then show "map (\<lambda>(k, v). (k, lax_any v)) ms ! i = kvs ! i" using i ab v by simp
  qed
  then show ?case using k by simp
qed (auto split: option.splits)

text \<open>The two texts Go writes for an empty slice or map.\<close>

definition go_empties :: "json_empties \<Rightarrow> bool" where
  "go_empties je \<longleftrightarrow> je_list je \<in> {''[]'', ''null''} \<and> je_map je \<in> {''{}'', ''null''}"

lemma parse_empties:
  "parse_text ''[]'' = Some (RArr [])" "parse_text ''{}'' = Some (RObj [])" "parse_text ''null'' = Some RNull"
  by (simp_all add: json_eval numeral_eq_Suc)

lemma lax_strings_json:
  assumes "go_empties je"
  shows "lax_strings (json_strings je ss) = map clean_utf8 ss"
proof (cases "ss = []")
  case True
  then show ?thesis using assms by (auto simp: lax_strings_def json_strings_def go_empties_def parse_empties)
next
  case False
  have d: "foldr max (map jdepth (map JStr ss)) 0 = 0" by (induction ss) simp_all
  have "Marshal (JArr (map JStr ss)) = json_strings je ss" using False by (simp add: json_strings_def comp_def)
  moreover have "Unmarshal_any (Marshal (JArr (map JStr ss))) = Some (canon (JArr (map JStr ss)))"
  proof (rule Unmarshal_Marshal)
    show "writable (JArr (map JStr ss))" by (simp add: list_all_iff)
    show "jdepth (JArr (map JStr ss)) \<le> max_depth" unfolding jdepth.simps d by (simp add: max_depth_def)
  qed
  ultimately obtain t where t: "parse_text (json_strings je ss) = Some t" "to_any t = Some (JArr (map (\<lambda>s. JStr (clean_utf8 s)) ss))"
    by (auto simp: Unmarshal_any_def comp_def split: option.splits)
  then obtain vs where vs: "t = RArr vs" "map to_any vs = map Some (map (\<lambda>s. JStr (clean_utf8 s)) ss)" using to_any_JArr by blast
  have "map (\<lambda>v. case v of RStr x \<Rightarrow> x | _ \<Rightarrow> []) vs = map clean_utf8 ss"
  proof (rule nth_equalityI)
    show l: "length (map (\<lambda>v. case v of RStr x \<Rightarrow> x | _ \<Rightarrow> []) vs) = length (map clean_utf8 ss)" using vs(2) by (metis length_map)
    fix i assume "i < length (map (\<lambda>v. case v of RStr x \<Rightarrow> x | _ \<Rightarrow> []) vs)"
    then have i: "i < length vs" "i < length ss" using l by simp_all
    then have "to_any (vs ! i) = Some (JStr (clean_utf8 (ss ! i)))" using vs(2) by (metis length_map nth_map)
    then show "map (\<lambda>v. case v of RStr x \<Rightarrow> x | _ \<Rightarrow> []) vs ! i = map clean_utf8 ss ! i" using i to_any_JStr by fastforce
  qed
  then show ?thesis by (simp add: lax_strings_def t(1) vs(1))
qed

text \<open>The members of an object after it has been written and read back.\<close>

definition canon_object :: "jobject \<Rightarrow> jobject" where
  "canon_object m = (case canon (JObj m) of JObj m' \<Rightarrow> m' | _ \<Rightarrow> [])"

lemma lax_object_json:
  assumes "go_empties je" "writable (JObj m)" "jdepth (JObj m) \<le> max_depth"
  shows "lax_object (json_map je m) = canon_object m"
proof (cases "m = []")
  case True
  then show ?thesis using assms(1) by (auto simp: lax_object_def json_map_def go_empties_def parse_empties canon_object_def)
next
  case False
  then have "Unmarshal_any (json_map je m) = Some (canon (JObj m))" using Unmarshal_Marshal [OF assms(2,3)] by (simp add: json_map_def)
  then obtain t where t: "parse_text (json_map je m) = Some t" "to_any t = Some (canon (JObj m))"
    by (auto simp: Unmarshal_any_def split: option.splits)
  from t(2) obtain ms where "t = RObj ms" by (cases t) auto
  then show ?thesis using t lax_any_to_any [OF t(2)] by (simp add: lax_object_def canon_object_def)
qed

lemma lax_time_Format: "time_ok t \<Longrightarrow> lax_time (Format_RFC3339Nano t) = t"
  by (simp add: lax_time_def Parse_Format)

section \<open>Tables of records\<close>

text \<open>
  A table whose rows are records with a text as their key: \<open>t\<close> is the table, \<open>key\<close> its key column, \<open>cs\<close> the columns
  read, \<open>sc\<close> the function that scans them, and \<open>rok\<close> the rows it holds.  The table is then a map from
  keys to records.
\<close>

definition entity_table :: "string \<Rightarrow> string \<Rightarrow> string list \<Rightarrow> (row \<Rightarrow> bool) \<Rightarrow> database \<Rightarrow> bool" where
  "entity_table t key cs rok db \<longleftrightarrow>
     (\<exists>tb. db t = Some tb \<and> table_ok tb \<and> set cs \<subseteq> cd_name ` set (tb_cols tb) \<and> unique_col tb key \<and> (\<forall>r\<in>set (tb_rows tb). rok r))"

definition entity_of :: "string list \<Rightarrow> (sqlval list \<Rightarrow> goerror + 'a) \<Rightarrow> row \<Rightarrow> 'a option" where
  "entity_of cs sc r = (case sc (map (col r) cs) of Inl _ \<Rightarrow> None | Inr x \<Rightarrow> Some x)"

definition entity_at :: "string \<Rightarrow> string \<Rightarrow> string list \<Rightarrow> (sqlval list \<Rightarrow> goerror + 'a) \<Rightarrow> database \<Rightarrow> string \<rightharpoonup> 'a" where
  "entity_at t key cs sc db i = Option.bind (row_at db t key (VText i)) (entity_of cs sc)"

lemma scan_rows_ok:
  "(\<And>r. r \<in> set rows \<Longrightarrow> sc r = Inr (f r)) \<Longrightarrow> scan_rows sc rows err out = (out @ map f rows, err)"
  by (induction rows arbitrary: out) simp_all

lemma scan_rows_err: "scan_rows sc rows err out = (ks, None) \<Longrightarrow> err = None"
  by (induction rows arbitrary: out) (auto split: sum.splits)

lemma entity_tableD:
  assumes "entity_table t key cs rok db"
  obtains tb where "db t = Some tb" "table_ok tb" "set cs \<subseteq> cd_name ` set (tb_cols tb)" "unique_col tb key"
    "\<And>r. r \<in> set (tb_rows tb) \<Longrightarrow> rok r"
  using assms by (auto simp: entity_table_def)

text \<open>A query by a unique column.\<close>

context sqlite
begin

lemma query_row_key:
  assumes run: "query_row E sc q [v] d = (Inr res, d')"
    and tb: "tables d (q_from q) = Some tb" "table_ok tb" "unique_col tb c" "v \<noteq> VNull"
    and q: "q_where q = Some (EBin OpEq (ECol c) EParam)" "plain_cols q cs" "q_order q = None" "q_limit q = -1" "q_offset q = 0"
  shows "(row_at (tables d) (q_from q) c v = None \<and> res = None \<or>
     (\<exists>r y. row_at (tables d) (q_from q) c v = Some r \<and> sc (map (col r) cs) = Inr y \<and> res = Some y)) \<and> tables d' = tables d"
proof -
  let ?rows = "case row_at (tables d) (q_from q) c v of None \<Rightarrow> [] | Some r \<Rightarrow> [map (col r) cs]"
  have key: "sql_query orc (tables d) q [v] = ?rows" if "arranges orc" for orc
    by (rule query_by_key [where db = "tables d", OF that tb q])
  obtain rows err where e: "db_Query E q [v] d = (Inr (rows, err), d')"
    using run by (auto simp: query_row_def split: prod.splits sum.splits list.splits option.splits)
  have d': "tables d' = tables d" using query_tables e by blast
  have full: "rows = ?rows" if "err = None" using query_ok [of q "[v]" d rows d'] e that key by auto
  have part: "\<exists>n. rows = take n ?rows"
  proof (cases err)
    case None
    then show ?thesis using full by (intro exI [of _ 1]) (simp split: option.splits)
  next
    case (Some e')
    then show ?thesis using query_partial [of q "[v]" d rows e' d'] e key by auto
  qed
  show ?thesis
  proof (cases rows)
    case Nil
    then have n: "err = None" "res = None" using run e by (auto simp: query_row_def split: option.splits)
    then show ?thesis using full Nil d' by (auto split: option.splits)
  next
    case (Cons r1 rs)
    obtain n where n: "rows = take n ?rows" using part by blast
    then obtain r where r: "row_at (tables d) (q_from q) c v = Some r" "r1 = map (col r) cs"
      using Cons by (cases "row_at (tables d) (q_from q) c v"; cases n) auto
    then show ?thesis using run e Cons d' by (auto simp: query_row_def split: sum.splits)
  qed
qed

end

locale entity = sqlite E tables saved strftime
  for E :: "'d sql_engine" and tables :: "'d \<Rightarrow> database" and saved :: "'d \<Rightarrow> database" and strftime :: "string \<Rightarrow> string \<Rightarrow> string option" +
  fixes t :: string and key :: string and cs :: "string list" and sc :: "sqlval list \<Rightarrow> goerror + 'a"
    and rok :: "row \<Rightarrow> bool" and ident :: "'a \<Rightarrow> string"
  assumes scans: "rok r \<Longrightarrow> \<exists>x. sc (map (col r) cs) = Inr x \<and> col r key = VText (ident x)"
begin

lemma entity_row:
  assumes "rok r"
  shows "entity_of cs sc r = Some (the (entity_of cs sc r))" "sc (map (col r) cs) = Inr (the (entity_of cs sc r))"
    "col r key = VText (ident (the (entity_of cs sc r)))"
  using scans [OF assms] by (auto simp: entity_of_def)

lemma get_entity:
  assumes "entity_table t key cs rok (tables d)" "query_row E sc q [VText i] d = (Inr res, d')"
    and "q_from q = t" "q_where q = Some (EBin OpEq (ECol key) EParam)" "plain_cols q cs" "q_order q = None" "q_limit q = -1" "q_offset q = 0"
  shows "res = entity_at t key cs sc (tables d) i \<and> tables d' = tables d"
proof -
  obtain tb where tb: "tables d (q_from q) = Some tb" "table_ok tb" "unique_col tb key"
    using entity_tableD [OF assms(1)] assms(3) by metis
  show ?thesis
    using query_row_key [OF assms(2) tb _ assms(4-8)] assms(3) by (auto simp: entity_at_def entity_of_def)
qed

lemma delete_entity:
  assumes "entity_table t key cs rok (tables d)" "db_Exec E (SDelete t (EBin OpEq (ECol key) EParam)) [VText i] d = (None, d')"
  shows "entity_at t key cs sc (tables d') = (entity_at t key cs sc (tables d))(i := None) \<and> entity_table t key cs rok (tables d') \<and>
    (\<exists>tb rs. tables d t = Some tb \<and> tables d' = (tables d)(t \<mapsto> tb\<lparr>tb_rows := rs\<rparr>) \<and> set rs \<subseteq> set (tb_rows tb))"
proof -
  obtain tb where tb: "tables d t = Some tb" "table_ok tb" "set cs \<subseteq> cd_name ` set (tb_cols tb)" "unique_col tb key"
      and rows: "\<And>r. r \<in> set (tb_rows tb) \<Longrightarrow> rok r"
    using entity_tableD [OF assms(1)] by metis
  from exec_ok [OF assms(2)] obtain orc where
      ex: "sql_exec orc (tables d) (SDelete t (EBin OpEq (ECol key) EParam)) [VText i] = Some (tables d')" by auto
  note dl = delete_exec [OF tb(1) ex]
  have db': "tables d' = (tables d)(t \<mapsto> tb\<lparr>tb_rows := filter (\<lambda>r. col r key \<noteq> VText i) (tb_rows tb)\<rparr>)" using dl(1) by simp
  have "entity_at t key cs sc (tables d') = (entity_at t key cs sc (tables d))(i := None)"
    using dl(2) by (simp add: fun_eq_iff entity_at_def)
  moreover have "entity_table t key cs rok (tables d')"
    using tb(3,4) rows table_ok_filter [OF tb(2)] by (auto simp: db' entity_table_def unique_col_def)
  moreover have "\<exists>tb rs. tables d t = Some tb \<and> tables d' = (tables d)(t \<mapsto> tb\<lparr>tb_rows := rs\<rparr>) \<and> set rs \<subseteq> set (tb_rows tb)"
    using tb(1) by (intro exI [of _ tb] exI [of _ "filter (\<lambda>r. col r key \<noteq> VText i) (tb_rows tb)"] conjI db') auto
  ultimately show ?thesis by blast
qed

lemma list_entities:
  assumes "entity_table t key cs rok (tables d)" "query_list E sc q [] d = ((xs, None), d')"
    and "q_from q = t" "q_where q = None" "plain_cols q cs" "q_order q = Some (ECol k, desc)" "q_limit q = -1" "q_offset q = 0"
  shows "set xs = ran (entity_at t key cs sc (tables d)) \<and> distinct (map ident xs) \<and> tables d' = tables d"
proof -
  obtain tb where tb: "tables d t = Some tb" "table_ok tb" "unique_col tb key" and rows: "\<And>r. r \<in> set (tb_rows tb) \<Longrightarrow> rok r"
    using entity_tableD [OF assms(1)] by metis
  obtain vss err where e: "db_Query E q [] d = (Inr (vss, err), d')" and s: "scan_rows sc vss err [] = (xs, None)"
    using assms(2) by (auto simp: query_list_def split: prod.splits sum.splits)
  have err: "err = None" by (rule scan_rows_err [OF s])
  obtain rs where rs: "mset rs = mset (tb_rows tb)" "vss = map (\<lambda>r. map (col r) cs) rs"
    using query_all [OF e [unfolded err] assms(5,4,6-8)] tb(1) assms(3) by auto
  have set: "set rs = set (tb_rows tb)" using rs(1) by (metis set_mset_mset)
  let ?f = "\<lambda>r. the (entity_of cs sc r)"
  note er = entity_row [OF rows]
  have "scan_rows sc vss err [] = ([] @ map (\<lambda>v. projr (sc v)) vss, err)"
    by (rule scan_rows_ok) (use er(2) set rs(2) in \<open>auto dest!: er(2)\<close>)
  moreover have "map (\<lambda>v. projr (sc v)) vss = map ?f rs" using er(2) set by (simp add: rs(2))
  ultimately have xs: "xs = map ?f rs" using s by simp
  have "distinct (map (\<lambda>r. col r key) (tb_rows tb))" by (rule unique_distinct [OF tb(2,3)]) (use er(3) in auto)
  moreover have "mset (map (\<lambda>r. col r key) rs) = mset (map (\<lambda>r. col r key) (tb_rows tb))" using rs(1) by simp
  ultimately have "distinct (map (\<lambda>r. col r key) rs)" using mset_eq_imp_distinct_iff by blast
  moreover have "map (\<lambda>r. col r key) rs = map VText (map ident xs)" using er(3) set by (simp add: xs)
  ultimately have "distinct (map ident xs)" by (metis distinct_map)
  moreover have "set xs \<subseteq> ran (entity_at t key cs sc (tables d))"
  proof
    fix x assume "x \<in> set xs"
    then obtain r where r: "r \<in> set (tb_rows tb)" "x = ?f r" using set by (auto simp: xs)
    have "row_at (tables d) t key (VText (ident x)) = Some r"
      by (rule unique_row [where db = "tables d", OF tb(2,3,1) r(1)]) (use er(3) [OF r(1)] r(2) in simp_all)
    then have "entity_at t key cs sc (tables d) (ident x) = Some x" using er(1) [OF r(1)] r(2) by (simp add: entity_at_def)
    then show "x \<in> ran (entity_at t key cs sc (tables d))" by (rule ranI)
  qed
  moreover have "ran (entity_at t key cs sc (tables d)) \<subseteq> set xs"
  proof
    fix y assume "y \<in> ran (entity_at t key cs sc (tables d))"
    then obtain i r where r: "row_at (tables d) t key (VText i) = Some r" "entity_of cs sc r = Some y"
      by (auto simp: ran_def entity_at_def bind_eq_Some_conv)
    then show "y \<in> set xs" using row_at_Some [OF r(1)] tb(1) set by (force simp: xs)
  qed
  moreover have "tables d' = tables d" using query_tables e by blast
  ultimately show ?thesis by blast
qed

end

context entity
begin

text \<open>An upsert, with the record it stores for a new key and for one that is there.\<close>

lemma upsert_entity:
  assumes tab: "entity_table t key cs rok (tables d)"
    and ex: "db_Exec E (SInsert False t ics (Some (key, us))) args d = (None, d')"
    and ics: "set ics = set cs" "distinct ics" "length ics = length args" "key \<in> set cs" "key \<notin> set us"
    and fresh: "\<And>new. map (col new) ics = args \<Longrightarrow> rok new \<and> entity_of cs sc new = Some x0 \<and> ident x0 = i"
    and again: "\<And>new old. map (col new) ics = args \<Longrightarrow> rok old \<Longrightarrow> col old key = VText i \<Longrightarrow> set cs \<subseteq> set (map fst old) \<Longrightarrow>
      rok (update_row old new us) \<and> entity_of cs sc (update_row old new us) = Some (x1 (the (entity_of cs sc old)))"
  shows "entity_at t key cs sc (tables d') =
      (entity_at t key cs sc (tables d))(i \<mapsto> (case entity_at t key cs sc (tables d) i of None \<Rightarrow> x0 | Some old \<Rightarrow> x1 old)) \<and>
    entity_table t key cs rok (tables d') \<and>
    (\<exists>tb rs. tables d t = Some tb \<and> tables d' = (tables d)(t \<mapsto> tb\<lparr>tb_rows := rs\<rparr>) \<and> table_ok (tb\<lparr>tb_rows := rs\<rparr>))"
proof -
  obtain tb where tb: "tables d t = Some tb" "table_ok tb" "set cs \<subseteq> cd_name ` set (tb_cols tb)" "unique_col tb key"
      and rows: "\<And>r. r \<in> set (tb_rows tb) \<Longrightarrow> rok r"
    using entity_tableD [OF tab] by metis
  define new where "new = new_row (tb_cols tb) ics args"
  from exec_ok [OF ex] obtain orc where
      ex': "sql_exec orc (tables d) (SInsert False t ics (Some (key, us))) args = Some (tables d')" by auto
  have nv: "map (col new) ics = args"
    unfolding new_def using table_okD(1) [OF tb(2)] tb(3) ics by (intro new_row_cols) auto
  have f: "rok new" "entity_of cs sc new = Some x0" "ident x0 = i" using fresh [OF nv] by auto
  then have nid: "col new key = VText i" using entity_row(3) [OF f(1)] by simp
  have "key \<in> cd_name ` set (tb_cols tb)" using tb(3) ics(4) by blast
  note u = upsert_exec [OF tb(1,2) ex' this ics(5) new_def, unfolded nid]
  define y where "y = (case row_at (tables d) t key (VText i) of None \<Rightarrow> new | Some old \<Rightarrow> update_row old new us)"
  have y: "rok y \<and> entity_of cs sc y = Some (case entity_at t key cs sc (tables d) i of None \<Rightarrow> x0 | Some old \<Rightarrow> x1 old)"
  proof (cases "row_at (tables d) t key (VText i)")
    case None
    then show ?thesis using f by (simp add: y_def entity_at_def)
  next
    case (Some old)
    have o: "old \<in> set (tb_rows tb)" "col old key = VText i" using row_at_Some [OF Some] tb(1) by simp_all
    have "set cs \<subseteq> set (map fst old)" using table_okD(2) [OF tb(2) o(1)] tb(3) by simp
    note ag = again [OF nv rows [OF o(1)] o(2) this]
    obtain eo where "entity_of cs sc old = Some eo" using entity_row(1) [OF rows [OF o(1)]] by blast
    then show ?thesis using Some ag by (simp add: y_def entity_at_def)
  qed
  from u obtain rs where db': "tables d' = (tables d)(t \<mapsto> tb\<lparr>tb_rows := rs\<rparr>)" and rs: "set rs \<subseteq> insert y (set (tb_rows tb))"
      and ok: "table_ok (tb\<lparr>tb_rows := rs\<rparr>)"
    unfolding y_def by blast
  have "row_at (tables d') t key (VText j) = (if j = i then Some y else row_at (tables d) t key (VText j))" for j
    using upsert_exec [OF tb(1,2) ex' \<open>key \<in> cd_name ` set (tb_cols tb)\<close> ics(5) new_def, unfolded nid, of "VText j"]
    by (simp add: y_def)
  then have "entity_at t key cs sc (tables d') = (entity_at t key cs sc (tables d))(i := entity_of cs sc y)"
    by (simp add: fun_eq_iff entity_at_def)
  moreover have "entity_table t key cs rok (tables d')"
  proof -
    have "rok r" if "r \<in> set rs" for r using that rs y rows by auto
    then show ?thesis using tb(3,4) db' ok by (simp add: entity_table_def unique_col_def)
  qed
  ultimately show ?thesis using y db' ok tb(1) by auto
qed

end

section \<open>The table of keys\<close>

definition key_row :: "row \<Rightarrow> bool" where
  "key_row r \<longleftrightarrow>
     (\<exists>i v nm en tpm rpm am ca ex.
        map (col r) key_columns = [VText i, VText v, VText nm, VInt en, VInt tpm, VInt rpm, VText am, VText ca, ex] \<and>
        (ex = VNull \<or> (\<exists>s. ex = VText s)))"

definition key_table :: "database \<Rightarrow> bool" where
  "key_table db \<longleftrightarrow> entity_table ''api_keys'' ''id'' key_columns key_row db \<and> (\<exists>tb. db ''api_keys'' = Some tb \<and> unique_col tb ''key_value'')"

definition stored_key :: "database \<Rightarrow> string \<rightharpoonup> APIKey" where
  "stored_key = entity_at ''api_keys'' ''id'' key_columns scanAPIKey"

text \<open>A key as it is read back: its texts in valid UTF-8.\<close>

definition back_key :: "APIKey \<Rightarrow> APIKey" where
  "back_key k = k\<lparr>k_AllowModels := map clean_utf8 (k_AllowModels k)\<rparr>"

definition key_times_ok :: "APIKey \<Rightarrow> bool" where
  "key_times_ok k \<longleftrightarrow> time_ok (k_CreatedAt k) \<and> (\<forall>t. k_ExpiresAt k = Some t \<longrightarrow> time_ok t)"

lemma Format_nonempty: "Format_RFC3339Nano t \<noteq> []"
  by (simp add: Format_RFC3339Nano_def)

lemma key_columns_simp: "map f key_columns = [f ''id'', f ''key_value'', f ''name'', f ''enabled'', f ''tpm'', f ''rpm'',
    f ''allow_models'', f ''created_at'', f ''expires_at'']"
  by (simp add: key_columns_def)

lemma key_row_scans:
  "key_row r \<Longrightarrow> \<exists>k. scanAPIKey (map (col r) key_columns) = Inr k \<and> col r ''id'' = VText (k_ID k)"
  "key_row r \<Longrightarrow> scanAPIKey (map (col r) key_columns) = Inr k \<Longrightarrow> col r ''key_value'' = VText (k_Key k)"
  by (auto simp: key_row_def scanAPIKey_def key_columns_simp)

sublocale sqlite \<subseteq> keys: entity E tables saved strftime "''api_keys''" "''id''" key_columns scanAPIKey key_row k_ID
  by unfold_locales (rule key_row_scans)

lemma scan_key_args:
  assumes "go_empties je" "key_times_ok k"
  shows "scanAPIKey ((key_args je k)[7 := VText ca]) = Inr ((back_key k)\<lparr>k_CreatedAt := lax_time ca\<rparr>)"
  using assms lax_strings_json [OF assms(1), of "k_AllowModels k"]
  by (cases "k_ExpiresAt k")
     (auto simp: scanAPIKey_def key_args_def key_times_ok_def lax_time_Format Format_nonempty back_key_def boolToInt_def)

lemma key_row_args:
  assumes "map (col r) key_columns = (key_args je k)[7 := VText ca]"
  shows "key_row r"
  using assms by (auto simp: key_row_def key_args_def split: option.splits)

lemma key_fresh:
  assumes "go_empties je" "key_times_ok k" "map (col r) key_columns = key_args je k"
  shows "key_row r \<and> entity_of key_columns scanAPIKey r = Some (back_key k)"
proof -
  have s: "(key_args je k)[7 := VText (Format_RFC3339Nano (k_CreatedAt k))] = key_args je k" by (simp add: key_args_def)
  have c: "lax_time (Format_RFC3339Nano (k_CreatedAt k)) = k_CreatedAt k" using assms(2) by (simp add: key_times_ok_def lax_time_Format)
  have b: "(back_key k)\<lparr>k_CreatedAt := k_CreatedAt k\<rparr> = back_key k" by (simp add: back_key_def)
  show ?thesis
    using scan_key_args [OF assms(1,2), of "Format_RFC3339Nano (k_CreatedAt k)"] key_row_args [of r je k] assms(3)
    unfolding s c b by (metis entity_of_def s sum.simps(6))
qed

lemma key_again:
  assumes je: "go_empties je" "key_times_ok k" and nv: "map (col new) key_columns = key_args je k"
    and old: "key_row old" "col old ''id'' = VText (k_ID k)" "set key_columns \<subseteq> set (map fst old)"
  defines "r \<equiv> update_row old new [''key_value'', ''name'', ''enabled'', ''tpm'', ''rpm'', ''allow_models'', ''expires_at'']"
  shows "key_row r \<and> entity_of key_columns scanAPIKey r =
    Some ((back_key k)\<lparr>k_CreatedAt := k_CreatedAt (the (entity_of key_columns scanAPIKey old))\<rparr>)"
proof -
  obtain ca where ca: "col old ''created_at'' = VText ca" using old(1) by (auto simp: key_row_def key_columns_simp)
  have "k_CreatedAt (the (entity_of key_columns scanAPIKey old)) = lax_time ca"
    using old(1) ca by (auto simp: key_row_def entity_of_def scanAPIKey_def key_columns_simp)
  moreover have "col r c = (if c \<in> set [''key_value'', ''name'', ''enabled'', ''tpm'', ''rpm'', ''allow_models'', ''expires_at''] then col new c else col old c)"
    if "c \<in> set key_columns" for c
    unfolding r_def using old(3) that by (intro col_update_row) blast
  then have v: "map (col r) key_columns = (key_args je k)[7 := VText ca]"
    using nv ca old(2) by (simp add: key_columns_def key_args_def)
  ultimately show ?thesis
    using scan_key_args [OF je, of ca] key_row_args [OF v] by (simp add: entity_of_def v)
qed

lemma key_table_frame:
  assumes "entity_table ''api_keys'' ''id'' key_columns key_row db'" "key_table db"
    and "db ''api_keys'' = Some tb" "db' = db(''api_keys'' \<mapsto> tb\<lparr>tb_rows := rs\<rparr>)"
  shows "key_table db' \<and> (\<forall>t. t \<noteq> ''api_keys'' \<longrightarrow> db' t = db t)"
  using assms by (auto simp: key_table_def unique_col_def)

text \<open>What the operations on keys do to the map of the stored keys.\<close>

context sqlite
begin

lemma upsert_key:
  assumes tab: "key_table (tables d)" and je: "go_empties je" and t: "key_times_ok (stamp_key now k)"
    and up: "UpsertAPIKey E je now k d = (None, d')"
  shows "stored_key (tables d') = (stored_key (tables d))(k_ID k \<mapsto>
      (case stored_key (tables d) (k_ID k) of
         None \<Rightarrow> back_key (stamp_key now k)
       | Some old \<Rightarrow> (back_key (stamp_key now k))\<lparr>k_CreatedAt := k_CreatedAt old\<rparr>)) \<and>
    key_table (tables d') \<and> (\<forall>t. t \<noteq> ''api_keys'' \<longrightarrow> tables d' t = tables d t)"
proof -
  let ?k = "stamp_key now k" and ?us = "[''key_value'', ''name'', ''enabled'', ''tpm'', ''rpm'', ''allow_models'', ''expires_at'']"
  have kid: "k_ID ?k = k_ID k" "k_ID (back_key ?k) = k_ID k" by (simp_all add: stamp_key_def back_key_def)
  have st: "upsert_key_stmt = SInsert False ''api_keys'' key_columns (Some (''id'', ?us))" by (simp add: upsert_key_stmt_def key_columns_def)
  have e: "entity_table ''api_keys'' ''id'' key_columns key_row (tables d)" using tab by (simp add: key_table_def)
  have "entity_at ''api_keys'' ''id'' key_columns scanAPIKey (tables d') =
      (entity_at ''api_keys'' ''id'' key_columns scanAPIKey (tables d))(k_ID k \<mapsto>
        (case entity_at ''api_keys'' ''id'' key_columns scanAPIKey (tables d) (k_ID k) of
           None \<Rightarrow> back_key ?k | Some old \<Rightarrow> (back_key ?k)\<lparr>k_CreatedAt := k_CreatedAt old\<rparr>)) \<and>
    entity_table ''api_keys'' ''id'' key_columns key_row (tables d') \<and>
    (\<exists>tb rs. tables d ''api_keys'' = Some tb \<and> tables d' = (tables d)(''api_keys'' \<mapsto> tb\<lparr>tb_rows := rs\<rparr>) \<and> table_ok (tb\<lparr>tb_rows := rs\<rparr>))"
  proof (rule keys.upsert_entity [OF e up [unfolded UpsertAPIKey_def st]])
    show "length key_columns = length (key_args je ?k)" by (simp add: key_columns_def key_args_def)
    show "\<And>new. map (col new) key_columns = key_args je ?k \<Longrightarrow>
        key_row new \<and> entity_of key_columns scanAPIKey new = Some (back_key ?k) \<and> k_ID (back_key ?k) = k_ID k"
      using key_fresh [OF je t] kid by blast
    show "\<And>new old. map (col new) key_columns = key_args je ?k \<Longrightarrow> key_row old \<Longrightarrow> col old ''id'' = VText (k_ID k) \<Longrightarrow>
        set key_columns \<subseteq> set (map fst old) \<Longrightarrow> key_row (update_row old new ?us) \<and>
        entity_of key_columns scanAPIKey (update_row old new ?us) =
          Some ((back_key ?k)\<lparr>k_CreatedAt := k_CreatedAt (the (entity_of key_columns scanAPIKey old))\<rparr>)"
      using key_again [OF je t] kid by simp
  qed (simp_all add: key_columns_def)
  then show ?thesis using key_table_frame [OF _ tab] by (auto simp: stored_key_def)
qed

lemma get_key:
  assumes "key_table (tables d)" "GetAPIKey E i d = (Inr res, d')"
  shows "res = stored_key (tables d) i \<and> tables d' = tables d"
  unfolding stored_key_def
  by (rule keys.get_entity [OF _ assms(2) [unfolded GetAPIKey_def]])
     (use assms(1) in \<open>simp_all add: key_table_def select_keys_def plain_cols_def\<close>)

lemma delete_key:
  assumes "key_table (tables d)" "DeleteAPIKey E i d = (None, d')"
  shows "stored_key (tables d') = (stored_key (tables d))(i := None) \<and> key_table (tables d') \<and>
    (\<forall>t. t \<noteq> ''api_keys'' \<longrightarrow> tables d' t = tables d t)"
proof -
  have e: "entity_table ''api_keys'' ''id'' key_columns key_row (tables d)" using assms(1) by (simp add: key_table_def)
  from keys.delete_entity [OF e assms(2) [unfolded DeleteAPIKey_def]] show ?thesis
    using key_table_frame [OF _ assms(1)] by (auto simp: stored_key_def)
qed

lemma list_keys:
  assumes "key_table (tables d)" "ListAPIKeys E d = ((ks, None), d')"
  shows "set ks = ran (stored_key (tables d)) \<and> distinct (map k_ID ks) \<and> tables d' = tables d"
  unfolding stored_key_def
  by (rule keys.list_entities [OF _ assms(2) [unfolded ListAPIKeys_def]])
     (use assms(1) in \<open>simp_all add: key_table_def select_keys_def plain_cols_def\<close>)

lemma get_key_by_value:
  assumes "key_table (tables d)" "GetAPIKeyByValue E v d = (Inr res, d')"
  shows "(case res of None \<Rightarrow> \<forall>i k. stored_key (tables d) i = Some k \<longrightarrow> k_Key k \<noteq> v
     | Some k \<Rightarrow> k_Key k = v \<and> stored_key (tables d) (k_ID k) = Some k) \<and> tables d' = tables d"
proof -
  have e: "entity_table ''api_keys'' ''id'' key_columns key_row (tables d)" using assms(1) by (simp add: key_table_def)
  obtain tb where tb: "tables d ''api_keys'' = Some tb" "table_ok tb" "unique_col tb ''id''" "unique_col tb ''key_value''"
      and rows: "\<And>r. r \<in> set (tb_rows tb) \<Longrightarrow> key_row r"
    using entity_tableD [OF e] assms(1) unfolding key_table_def by (metis option.inject)
  let ?at = "row_at (tables d) ''api_keys'' ''key_value'' (VText v)"
  have q: "(?at = None \<and> res = None \<or> (\<exists>r y. ?at = Some r \<and> scanAPIKey (map (col r) key_columns) = Inr y \<and> res = Some y)) \<and>
      tables d' = tables d"
    using query_row_key [OF assms(2) [unfolded GetAPIKeyByValue_def], of tb "''key_value''" key_columns] tb
    by (simp add: select_keys_def plain_cols_def)
  show ?thesis
  proof (cases ?at)
    case None
    have "k_Key k \<noteq> v" if k: "stored_key (tables d) i = Some k" for i k
    proof -
      from k obtain r where r: "row_at (tables d) ''api_keys'' ''id'' (VText i) = Some r" "scanAPIKey (map (col r) key_columns) = Inr k"
        by (cases "row_at (tables d) ''api_keys'' ''id'' (VText i)")
           (auto simp: stored_key_def entity_at_def entity_of_def elim: sum.exhaust split: sum.split_asm)
      have m: "r \<in> set (tb_rows tb)" using row_at_Some [OF r(1)] tb(1) by simp
      then show ?thesis using key_row_scans(2) [OF rows [OF m] r(2)] None tb(1) by (auto simp: row_at_None)
    qed
    then show ?thesis using q None by auto
  next
    case (Some r)
    have m: "r \<in> set (tb_rows tb)" "col r ''key_value'' = VText v" using row_at_Some [OF Some] tb(1) by simp_all
    obtain k where k: "scanAPIKey (map (col r) key_columns) = Inr k" "col r ''id'' = VText (k_ID k)"
      using key_row_scans(1) [OF rows [OF m(1)]] by blast
    have "row_at (tables d) ''api_keys'' ''id'' (VText (k_ID k)) = Some r"
      by (rule unique_row [where db = "tables d", OF tb(2,3,1) m(1) k(2)]) simp
    then show ?thesis
      using q Some k m(2) key_row_scans(2) [OF rows [OF m(1)] k(1)] by (auto simp: stored_key_def entity_at_def entity_of_def)
  qed
qed

end


section \<open>The table of nodes\<close>

definition node_row :: "row \<Rightarrow> bool" where
  "node_row r \<longleftrightarrow>
     (\<exists>i nm al url key mn et tpm rpm ov ts en ca ua.
        map (col r) node_columns = [VText i, VText nm, VText al, VText url, VText key, VText mn, VText et, VInt tpm, VInt rpm,
          VText ov, VInt ts, VInt en, VText ca, VText ua])"

definition node_table :: "database \<Rightarrow> bool" where
  "node_table = entity_table ''model_nodes'' ''id'' node_columns node_row"

definition stored_node :: "database \<Rightarrow> string \<rightharpoonup> ModelNode" where
  "stored_node = entity_at ''model_nodes'' ''id'' node_columns scanNode"

text \<open>A node as it is read back: its texts in valid UTF-8, its override with sorted keys.\<close>

definition back_node :: "ModelNode \<Rightarrow> ModelNode" where
  "back_node n = n\<lparr>n_Aliases := map clean_utf8 (n_Aliases n), n_Override := canon_object (n_Override n)\<rparr>"

definition node_storable :: "ModelNode \<Rightarrow> bool" where
  "node_storable n \<longleftrightarrow> time_ok (n_CreatedAt n) \<and> time_ok (n_UpdatedAt n) \<and>
     writable (JObj (n_Override n)) \<and> jdepth (JObj (n_Override n)) \<le> max_depth"

lemma node_columns_simp: "map f node_columns = [f ''id'', f ''name'', f ''aliases'', f ''base_url'', f ''api_key'', f ''model_name'',
    f ''endpoint_type'', f ''tpm'', f ''rpm'', f ''override'', f ''timeout_sec'', f ''enabled'', f ''created_at'', f ''updated_at'']"
  by (simp add: node_columns_def)

lemma node_row_scans:
  "node_row r \<Longrightarrow> \<exists>n. scanNode (map (col r) node_columns) = Inr n \<and> col r ''id'' = VText (n_ID n)"
  by (auto simp: node_row_def scanNode_def node_kinds_def node_columns_simp)

sublocale sqlite \<subseteq> nodes: entity E tables saved strftime "''model_nodes''" "''id''" node_columns scanNode node_row n_ID
  by unfold_locales (rule node_row_scans)

text \<open>The values stored for a node, in the order of \<open>node_columns\<close>, with the time of its creation.\<close>

definition node_values :: "json_empties \<Rightarrow> ModelNode \<Rightarrow> string \<Rightarrow> sqlval list" where
  "node_values je n ca =
     [VText (n_ID n), VText (n_Name n), VText (json_strings je (n_Aliases n)), VText (n_BaseURL n), VText (n_APIKey n),
      VText (n_ModelName n), VText (n_EndpointType n), VInt (n_TPM n), VInt (n_RPM n), VText (json_map je (n_Override n)),
      VInt (n_TimeoutSec n), VInt (boolToInt (n_Enabled n)), VText ca, VText (Format_RFC3339Nano (n_UpdatedAt n))]"

lemma node_values_read:
  assumes "go_empties je" "node_storable n" "map (col r) node_columns = node_values je n ca"
  shows "node_row r \<and> entity_of node_columns scanNode r = Some ((back_node n)\<lparr>n_CreatedAt := lax_time ca\<rparr>)"
  using assms(2,3) lax_strings_json [OF assms(1), of "n_Aliases n"] lax_object_json [OF assms(1), of "n_Override n"]
  by (simp add: node_row_def entity_of_def scanNode_def node_kinds_def node_values_def node_storable_def lax_time_Format back_node_def
      boolToInt_def)

lemma node_args_columns:
  assumes "map (col r) [''id'', ''name'', ''aliases'', ''base_url'', ''api_key'', ''model_name'', ''endpoint_type'', ''override'',
      ''timeout_sec'', ''enabled'', ''created_at'', ''updated_at'', ''tpm'', ''rpm''] = node_args je n"
  shows "map (col r) node_columns = node_values je n (Format_RFC3339Nano (n_CreatedAt n))"
  using assms by (simp add: node_columns_simp node_args_def node_values_def)

lemma node_again:
  assumes je: "go_empties je" "node_storable n" and nv: "map (col new) node_columns = node_values je n cn"
    and old: "node_row old" "col old ''id'' = VText (n_ID n)" "set node_columns \<subseteq> set (map fst old)"
  defines "r \<equiv> update_row old new [''name'', ''aliases'', ''base_url'', ''api_key'', ''model_name'', ''endpoint_type'', ''override'',
                       ''timeout_sec'', ''enabled'', ''updated_at'', ''tpm'', ''rpm'']"
  shows "node_row r \<and> entity_of node_columns scanNode r =
    Some ((back_node n)\<lparr>n_CreatedAt := n_CreatedAt (the (entity_of node_columns scanNode old))\<rparr>)"
proof -
  obtain ca where ca: "col old ''created_at'' = VText ca" using old(1) by (auto simp: node_row_def node_columns_simp)
  have t: "n_CreatedAt (the (entity_of node_columns scanNode old)) = lax_time ca"
    using old(1) ca by (auto simp: node_row_def entity_of_def scanNode_def node_kinds_def node_columns_simp)
  have "col r c = (if c \<in> set [''name'', ''aliases'', ''base_url'', ''api_key'', ''model_name'', ''endpoint_type'', ''override'',
      ''timeout_sec'', ''enabled'', ''updated_at'', ''tpm'', ''rpm''] then col new c else col old c)"
    if "c \<in> set node_columns" for c
    unfolding r_def using old(3) that by (intro col_update_row) blast
  then have "map (col r) node_columns = node_values je n ca"
    using nv ca old(2) by (simp add: node_columns_def node_values_def)
  then show ?thesis using node_values_read [OF je] t by simp
qed

context sqlite
begin

lemma upsert_node:
  assumes tab: "node_table (tables d)" and je: "go_empties je" and t: "node_storable (stamp_node now n)"
    and up: "UpsertNode E je now n d = (None, d')"
  shows "stored_node (tables d') = (stored_node (tables d))(n_ID n \<mapsto>
      (case stored_node (tables d) (n_ID n) of
         None \<Rightarrow> back_node (stamp_node now n)
       | Some old \<Rightarrow> (back_node (stamp_node now n))\<lparr>n_CreatedAt := n_CreatedAt old\<rparr>)) \<and>
    node_table (tables d') \<and> (\<forall>t. t \<noteq> ''model_nodes'' \<longrightarrow> tables d' t = tables d t)"
proof -
  let ?n = "stamp_node now n"
  let ?ics = "[''id'', ''name'', ''aliases'', ''base_url'', ''api_key'', ''model_name'', ''endpoint_type'', ''override'',
      ''timeout_sec'', ''enabled'', ''created_at'', ''updated_at'', ''tpm'', ''rpm'']"
    and ?us = "[''name'', ''aliases'', ''base_url'', ''api_key'', ''model_name'', ''endpoint_type'', ''override'',
      ''timeout_sec'', ''enabled'', ''updated_at'', ''tpm'', ''rpm'']"
  have nid: "n_ID ?n = n_ID n" "n_ID (back_node ?n) = n_ID n" by (simp_all add: stamp_node_def back_node_def)
  have ct: "(back_node ?n)\<lparr>n_CreatedAt := lax_time (Format_RFC3339Nano (n_CreatedAt ?n))\<rparr> = back_node ?n"
    using t by (simp add: node_storable_def lax_time_Format back_node_def)
  have "entity_at ''model_nodes'' ''id'' node_columns scanNode (tables d') =
      (entity_at ''model_nodes'' ''id'' node_columns scanNode (tables d))(n_ID n \<mapsto>
        (case entity_at ''model_nodes'' ''id'' node_columns scanNode (tables d) (n_ID n) of
           None \<Rightarrow> back_node ?n | Some old \<Rightarrow> (back_node ?n)\<lparr>n_CreatedAt := n_CreatedAt old\<rparr>)) \<and>
    entity_table ''model_nodes'' ''id'' node_columns node_row (tables d') \<and>
    (\<exists>tb rs. tables d ''model_nodes'' = Some tb \<and> tables d' = (tables d)(''model_nodes'' \<mapsto> tb\<lparr>tb_rows := rs\<rparr>) \<and>
      table_ok (tb\<lparr>tb_rows := rs\<rparr>))"
  proof (rule nodes.upsert_entity [OF tab [unfolded node_table_def] up [unfolded UpsertNode_def upsert_node_stmt_def]])
    show "length ?ics = length (node_args je ?n)" by (simp add: node_args_def)
    show "\<And>new. map (col new) ?ics = node_args je ?n \<Longrightarrow>
        node_row new \<and> entity_of node_columns scanNode new = Some (back_node ?n) \<and> n_ID (back_node ?n) = n_ID n"
      using node_values_read [OF je t node_args_columns] ct nid by metis
    show "\<And>new old. map (col new) ?ics = node_args je ?n \<Longrightarrow> node_row old \<Longrightarrow> col old ''id'' = VText (n_ID n) \<Longrightarrow>
        set node_columns \<subseteq> set (map fst old) \<Longrightarrow> node_row (update_row old new ?us) \<and>
        entity_of node_columns scanNode (update_row old new ?us) =
          Some ((back_node ?n)\<lparr>n_CreatedAt := n_CreatedAt (the (entity_of node_columns scanNode old))\<rparr>)"
      by (rule node_again [OF je t node_args_columns]) (simp_all only: nid)
  qed (auto simp: node_columns_def)
  then show ?thesis by (auto simp: stored_node_def node_table_def)
qed

lemma get_node:
  assumes "node_table (tables d)" "GetNode E i d = (Inr res, d')"
  shows "res = stored_node (tables d) i \<and> tables d' = tables d"
  unfolding stored_node_def
  by (rule nodes.get_entity [OF _ assms(2) [unfolded GetNode_def]])
     (use assms(1) in \<open>simp_all add: node_table_def select_nodes_def plain_cols_def\<close>)

lemma delete_node:
  assumes "node_table (tables d)" "DeleteNode E i d = (None, d')"
  shows "stored_node (tables d') = (stored_node (tables d))(i := None) \<and> node_table (tables d') \<and>
    (\<forall>t. t \<noteq> ''model_nodes'' \<longrightarrow> tables d' t = tables d t)"
  using nodes.delete_entity [OF assms(1) [unfolded node_table_def] assms(2) [unfolded DeleteNode_def]]
  by (auto simp: stored_node_def node_table_def)

lemma list_nodes:
  assumes "node_table (tables d)" "ListNodes E d = ((ns, None), d')"
  shows "set ns = ran (stored_node (tables d)) \<and> distinct (map n_ID ns) \<and> tables d' = tables d"
  unfolding stored_node_def
  by (rule nodes.list_entities [where k = "''name''" and desc = False, OF _ assms(2) [unfolded ListNodes_def]])
     (use assms(1) in \<open>simp_all add: node_table_def select_nodes_def plain_cols_def\<close>)

end


section \<open>The schema\<close>

fun schema_stmt :: "stmt \<Rightarrow> bool" where
  "schema_stmt (SCreateTable t cds) = True"
| "schema_stmt (SCreateIndex i t c) = True"
| "schema_stmt (SAddColumn t cd) = True"
| "schema_stmt _ = False"

lemma find_map_same: "(\<And>x. x \<in> set xs \<Longrightarrow> P (f x) = P x) \<Longrightarrow> find P (map f xs) = map_option f (find P xs)"
  by (induction xs) auto

lemma map_col_add: "set cs \<subseteq> set (map fst r) \<Longrightarrow> map (col (r @ [(c', v)])) cs = map (col r) cs"
  using col_add by (simp add: subset_iff)

text \<open>Statements that change the schema keep the records of a table, provided what makes a row good depends on the columns read only.\<close>

lemma schema_keeps_entities:
  assumes tab: "entity_table t key cs rok db" "key \<in> set cs"
    and ex: "sql_exec orc db st vs = Some db'" "schema_stmt st"
    and rok: "\<And>r r'. map (col r') cs = map (col r) cs \<Longrightarrow> rok r \<Longrightarrow> rok r'"
  shows "entity_table t key cs rok db' \<and> entity_at t key cs sc db' = entity_at t key cs sc db"
proof -
  obtain tb where tb: "db t = Some tb" "table_ok tb" "set cs \<subseteq> cd_name ` set (tb_cols tb)" "unique_col tb key"
      and rows: "\<And>r. r \<in> set (tb_rows tb) \<Longrightarrow> rok r"
    using entity_tableD [OF tab(1)] by metis
  have frame: ?thesis if "db' t = db t"
    using that tab(1) by (simp add: entity_table_def entity_at_def row_at_def table_rows_def fun_eq_iff)
  show ?thesis
  proof (cases "\<exists>cd. st = SAddColumn t cd")
    case True
    then obtain cd where cd: "st = SAddColumn t cd" by blast
    define v where "v = (case cd_default cd of None \<Rightarrow> VNull | Some v \<Rightarrow> v)"
    let ?f = "\<lambda>r. r @ [(cd_name cd, v)]"
    let ?tb = "\<lparr>tb_cols = tb_cols tb @ [cd], tb_rows = map ?f (tb_rows tb)\<rparr>"
    have new: "\<not> has_col tb (cd_name cd)" "addable cd" and db': "db' = db(t \<mapsto> ?tb)"
      using ex(1) tb(1) by (auto simp: cd v_def split: if_splits)
    have same: "map (col (?f r)) cs = map (col r) cs" if "r \<in> set (tb_rows tb)" for r
      by (rule map_col_add) (use table_okD(2) [OF tb(2) that] tb(3) in simp)
    have k: "col (?f r) key = col r key" if "r \<in> set (tb_rows tb)" for r
      by (rule col_add) (use table_okD(2) [OF tb(2) that] tb(3) tab(2) in auto)
    have ok: "table_ok ?tb" using add_column_ok [OF tb(2) new] by (simp add: v_def)
    have "find (\<lambda>r. col r key = VText i) (map ?f (tb_rows tb)) = map_option ?f (find (\<lambda>r. col r key = VText i) (tb_rows tb))" for i
      using k by (intro find_map_same) simp
    moreover have "entity_of cs sc (?f r) = entity_of cs sc r" if "find (\<lambda>r. col r key = VText i) (tb_rows tb) = Some r" for i r
    proof -
      have "r \<in> set (tb_rows tb)" using that by (auto simp: find_Some_iff)
      then show ?thesis by (simp only: entity_of_def same)
    qed
    ultimately have "entity_at t key cs sc db' i = entity_at t key cs sc db i" for i
      using tb(1) db' by (cases "find (\<lambda>r. col r key = VText i) (tb_rows tb)") (simp_all add: entity_at_def row_at_def)
    moreover have "entity_table t key cs rok db'"
    proof -
      have "rok (?f r)" if "r \<in> set (tb_rows tb)" for r by (rule rok [OF same [OF that] rows [OF that]])
      then show ?thesis using db' ok tb(3,4) by (auto simp: entity_table_def unique_col_def)
    qed
    ultimately show ?thesis by (simp add: fun_eq_iff)
  next
    case False
    then have "db' t = db t" using ex tb(1) by (cases st) (auto split: option.splits if_splits)
    then show ?thesis by (rule frame)
  qed
qed

lemma schema_keeps_unique:
  assumes "sql_exec orc db st vs = Some db'" "schema_stmt st" "db t = Some tb" "unique_col tb c"
  shows "\<exists>tb'. db' t = Some tb' \<and> unique_col tb' c"
  using assms by (cases st) (auto simp: unique_col_def split: option.splits if_splits)

text \<open>The two stores behind the interface.\<close>

definition stores_ok :: "database \<Rightarrow> bool" where
  "stores_ok db \<longleftrightarrow> key_table db \<and> node_table db"

lemma schema_keeps_stores:
  assumes "stores_ok db" "sql_exec orc db st vs = Some db'" "schema_stmt st"
  shows "stores_ok db' \<and> stored_key db' = stored_key db \<and> stored_node db' = stored_node db"
proof -
  have k: "entity_table ''api_keys'' ''id'' key_columns key_row db" and n: "entity_table ''model_nodes'' ''id'' node_columns node_row db"
    using assms(1) by (simp_all add: stores_ok_def key_table_def node_table_def)
  have "entity_table ''api_keys'' ''id'' key_columns key_row db' \<and>
      entity_at ''api_keys'' ''id'' key_columns scanAPIKey db' = entity_at ''api_keys'' ''id'' key_columns scanAPIKey db"
    by (rule schema_keeps_entities [OF k _ assms(2,3)]) (simp add: key_columns_def, simp only: key_row_def)
  moreover have "entity_table ''model_nodes'' ''id'' node_columns node_row db' \<and>
      entity_at ''model_nodes'' ''id'' node_columns scanNode db' = entity_at ''model_nodes'' ''id'' node_columns scanNode db"
    by (rule schema_keeps_entities [OF n _ assms(2,3)]) (simp add: node_columns_def, simp only: node_row_def)
  moreover have "\<exists>tb. db' ''api_keys'' = Some tb \<and> unique_col tb ''key_value''"
    using assms(1) schema_keeps_unique [OF assms(2,3)] by (auto simp: stores_ok_def key_table_def)
  ultimately show ?thesis by (simp add: stores_ok_def key_table_def node_table_def stored_key_def stored_node_def)
qed

context sqlite
begin

lemma exec_schema:
  assumes "stores_ok (tables d)" "schema_stmt st" "db_Exec E st [] d = (err, d')"
  shows "stores_ok (tables d') \<and> stored_key (tables d') = stored_key (tables d) \<and> stored_node (tables d') = stored_node (tables d)"
proof (cases err)
  case None
  then obtain orc where "sql_exec orc (tables d) st [] = Some (tables d')" using exec_ok assms(3) by metis
  then show ?thesis using schema_keeps_stores assms(1,2) by blast
next
  case (Some e)
  then show ?thesis using exec_failed assms(1,3) by metis
qed

lemma exec_all_schema:
  assumes "stores_ok (tables d)" "list_all schema_stmt sts" "exec_all E sts d = (err, d')"
  shows "stores_ok (tables d') \<and> stored_key (tables d') = stored_key (tables d) \<and> stored_node (tables d') = stored_node (tables d)"
  using assms
proof (induction sts arbitrary: d)
  case (Cons st sts)
  obtain e1 d1 where e1: "db_Exec E st [] d = (e1, d1)" by (cases "db_Exec E st [] d")
  note s = exec_schema [OF Cons.prems(1) _ e1]
  show ?case using Cons.IH [of d1] Cons.prems e1 s by (cases e1) auto
qed simp

lemma try_all_schema:
  assumes "stores_ok (tables d)" "list_all schema_stmt sts"
  shows "stores_ok (tables (try_all E sts d)) \<and> stored_key (tables (try_all E sts d)) = stored_key (tables d) \<and>
    stored_node (tables (try_all E sts d)) = stored_node (tables d)"
  using assms
proof (induction sts arbitrary: d)
  case (Cons st sts)
  obtain e1 d1 where e1: "db_Exec E st [] d = (e1, d1)" by (cases "db_Exec E st [] d")
  show ?case using Cons.IH [of d1] Cons.prems e1 exec_schema [OF Cons.prems(1) _ e1] by simp
qed simp

lemma migrate_keeps:
  assumes "stores_ok (tables d)" "migrate E d = (err, d')"
  shows "stores_ok (tables d') \<and> stored_key (tables d') = stored_key (tables d) \<and> stored_node (tables d') = stored_node (tables d)"
proof -
  obtain e1 d1 where e1: "exec_all E migrate_stmts d = (e1, d1)" by (cases "exec_all E migrate_stmts d")
  have "list_all schema_stmt migrate_stmts" "list_all schema_stmt upgrade_stmts" by (simp_all add: migrate_stmts_def upgrade_stmts_def)
  then show ?thesis
    using exec_all_schema [OF assms(1) _ e1] try_all_schema [of d1] assms(2) e1 by (cases e1) (auto simp: migrate_def)
qed

end


section \<open>The contract of the storage\<close>

text \<open>The rows of two keys with the same value are the same row.\<close>

lemma stored_key_row:
  assumes "key_table db" "stored_key db i = Some k"
  obtains tb r where "db ''api_keys'' = Some tb" "table_ok tb" "unique_col tb ''key_value''" "r \<in> set (tb_rows tb)" "key_row r"
    "col r ''id'' = VText i" "col r ''key_value'' = VText (k_Key k)" "k_ID k = i"
proof -
  have e: "entity_table ''api_keys'' ''id'' key_columns key_row db" using assms(1) by (simp add: key_table_def)
  obtain tb where tb: "db ''api_keys'' = Some tb" "table_ok tb" "unique_col tb ''key_value''"
      and rows: "\<And>r. r \<in> set (tb_rows tb) \<Longrightarrow> key_row r"
    using entity_tableD [OF e] assms(1) unfolding key_table_def by (metis option.inject)
  obtain r where at: "row_at db ''api_keys'' ''id'' (VText i) = Some r" and sc: "scanAPIKey (map (col r) key_columns) = Inr k"
    using assms(2) by (cases "row_at db ''api_keys'' ''id'' (VText i)")
      (auto simp: stored_key_def entity_at_def entity_of_def elim: sum.exhaust split: sum.split_asm)
  have r: "r \<in> set (tb_rows tb)" "col r ''id'' = VText i" using row_at_Some [OF at] tb(1) by simp_all
  show thesis
    using that [OF tb r(1) rows [OF r(1)] r(2) key_row_scans(2) [OF rows [OF r(1)] sc]] key_row_scans(1) [OF rows [OF r(1)]] sc r(2)
    by auto
qed

lemma key_values_unique:
  assumes "key_table db" "stored_key db i = Some k" "stored_key db j = Some k'" "k_Key k = k_Key k'"
  shows "i = j"
proof (rule stored_key_row [OF assms(1,2)], rule stored_key_row [OF assms(1,3)])
  fix tb r tb' r'
  assume a: "db ''api_keys'' = Some tb" "table_ok tb" "unique_col tb ''key_value''" "r \<in> set (tb_rows tb)" "col r ''id'' = VText i"
      "col r ''key_value'' = VText (k_Key k)"
    and b: "db ''api_keys'' = Some tb'" "r' \<in> set (tb_rows tb')" "col r' ''id'' = VText j" "col r' ''key_value'' = VText (k_Key k')"
  have "row_at db ''api_keys'' ''key_value'' (VText (k_Key k)) = Some r"
    by (rule unique_row [where db = db, OF a(2,3,1,4,6)]) simp
  moreover have "row_at db ''api_keys'' ''key_value'' (VText (k_Key k)) = Some r'"
    by (rule unique_row [where db = db, OF a(2,3,1)]) (use a(1) b assms(4) in simp_all)
  ultimately show "i = j" using a(5) b(3) by simp
qed

text \<open>What a client of \<^verbatim>\<open>storage.Storage\<close> relies on: a map of keys and a map of nodes.  A failed
  operation changes nothing; an upsert keeps the time of creation; two keys never share a value.\<close>

record store_spec =
  sp_keys :: "string \<rightharpoonup> APIKey"
  sp_nodes :: "string \<rightharpoonup> ModelNode"

datatype store_op =
  OpUpsertKey gotime APIKey
| OpGetKey string
| OpGetKeyByValue string
| OpListKeys
| OpDeleteKey string
| OpUpsertNode gotime ModelNode
| OpGetNode string
| OpListNodes
| OpDeleteNode string
| OpReopen

datatype store_answer =
  AFailed goerror
| ADone
| AKey "APIKey option"
| AKeys "APIKey list"
| ANode "ModelNode option"
| ANodes "ModelNode list"

fun spec_next :: "store_op \<Rightarrow> store_answer \<Rightarrow> store_spec \<Rightarrow> store_spec" where
  "spec_next (OpUpsertKey now k) ADone s =
     s\<lparr>sp_keys := (sp_keys s)(k_ID k \<mapsto>
         (case sp_keys s (k_ID k) of
            None \<Rightarrow> back_key (stamp_key now k)
          | Some old \<Rightarrow> (back_key (stamp_key now k))\<lparr>k_CreatedAt := k_CreatedAt old\<rparr>))\<rparr>"
| "spec_next (OpDeleteKey i) ADone s = s\<lparr>sp_keys := (sp_keys s)(i := None)\<rparr>"
| "spec_next (OpUpsertNode now n) ADone s =
     s\<lparr>sp_nodes := (sp_nodes s)(n_ID n \<mapsto>
         (case sp_nodes s (n_ID n) of
            None \<Rightarrow> back_node (stamp_node now n)
          | Some old \<Rightarrow> (back_node (stamp_node now n))\<lparr>n_CreatedAt := n_CreatedAt old\<rparr>))\<rparr>"
| "spec_next (OpDeleteNode i) ADone s = s\<lparr>sp_nodes := (sp_nodes s)(i := None)\<rparr>"
| "spec_next _ _ s = s"

fun spec_answer :: "store_op \<Rightarrow> store_spec \<Rightarrow> store_answer \<Rightarrow> bool" where
  "spec_answer _ s (AFailed e) = True"
| "spec_answer (OpUpsertKey now k) s a =
     (a = ADone \<and> (\<forall>j k'. sp_keys s j = Some k' \<longrightarrow> k_Key k' = k_Key k \<longrightarrow> j = k_ID k))"
| "spec_answer (OpGetKey i) s a = (a = AKey (sp_keys s i))"
| "spec_answer (OpGetKeyByValue v) s a =
     (a = AKey None \<and> (\<forall>k\<in>ran (sp_keys s). k_Key k \<noteq> v) \<or>
      (\<exists>k. a = AKey (Some k) \<and> k_Key k = v \<and> sp_keys s (k_ID k) = Some k))"
| "spec_answer OpListKeys s a = (\<exists>ks. a = AKeys ks \<and> set ks = ran (sp_keys s) \<and> distinct (map k_ID ks))"
| "spec_answer (OpGetNode i) s a = (a = ANode (sp_nodes s i))"
| "spec_answer OpListNodes s a = (\<exists>ns. a = ANodes ns \<and> set ns = ran (sp_nodes s) \<and> distinct (map n_ID ns))"
| "spec_answer _ s a = (a = ADone)"

fun spec_run :: "store_spec \<Rightarrow> store_op list \<Rightarrow> store_answer list \<Rightarrow> store_spec \<Rightarrow> bool" where
  "spec_run s [] [] s' = (s' = s)"
| "spec_run s (op # ops) (a # as) s' = (spec_answer op s a \<and> spec_run (spec_next op a s) ops as s')"
| "spec_run _ _ _ _ = False"

text \<open>The same operations on the database, \<open>OpReopen\<close> being the migration that opening it runs.\<close>

definition finished :: "goerror option \<times> 'd \<Rightarrow> store_answer \<times> 'd" where
  "finished r = ((case fst r of None \<Rightarrow> ADone | Some e \<Rightarrow> AFailed e), snd r)"

fun store_run1 :: "'d sql_engine \<Rightarrow> json_empties \<Rightarrow> store_op \<Rightarrow> 'd \<Rightarrow> store_answer \<times> 'd" where
  "store_run1 E je (OpUpsertKey now k) d = finished (so_UpsertAPIKey (sqlite_storage E je now) k d)"
| "store_run1 E je (OpGetKey i) d =
     (case so_GetAPIKey (sqlite_storage E je 0) i d of (Inl e, d') \<Rightarrow> (AFailed e, d') | (Inr r, d') \<Rightarrow> (AKey r, d'))"
| "store_run1 E je (OpGetKeyByValue v) d =
     (case so_GetAPIKeyByValue (sqlite_storage E je 0) v d of (Inl e, d') \<Rightarrow> (AFailed e, d') | (Inr r, d') \<Rightarrow> (AKey r, d'))"
| "store_run1 E je OpListKeys d =
     (case so_ListAPIKeys (sqlite_storage E je 0) d of ((ks, Some e), d') \<Rightarrow> (AFailed e, d') | ((ks, None), d') \<Rightarrow> (AKeys ks, d'))"
| "store_run1 E je (OpDeleteKey i) d = finished (so_DeleteAPIKey (sqlite_storage E je 0) i d)"
| "store_run1 E je (OpUpsertNode now n) d = finished (so_UpsertNode (sqlite_storage E je now) n d)"
| "store_run1 E je (OpGetNode i) d =
     (case so_GetNode (sqlite_storage E je 0) i d of (Inl e, d') \<Rightarrow> (AFailed e, d') | (Inr r, d') \<Rightarrow> (ANode r, d'))"
| "store_run1 E je OpListNodes d =
     (case so_ListNodes (sqlite_storage E je 0) d of ((ns, Some e), d') \<Rightarrow> (AFailed e, d') | ((ns, None), d') \<Rightarrow> (ANodes ns, d'))"
| "store_run1 E je (OpDeleteNode i) d = finished (so_DeleteNode (sqlite_storage E je 0) i d)"
| "store_run1 E je OpReopen d = finished (migrate E d)"

fun store_run :: "'d sql_engine \<Rightarrow> json_empties \<Rightarrow> store_op list \<Rightarrow> 'd \<Rightarrow> store_answer list \<times> 'd" where
  "store_run E je [] d = ([], d)"
| "store_run E je (op # ops) d =
     (let (a, d1) = store_run1 E je op d; (as, d2) = store_run E je ops d1 in (a # as, d2))"

definition store_abs :: "database \<Rightarrow> store_spec" where
  "store_abs db = \<lparr>sp_keys = stored_key db, sp_nodes = stored_node db\<rparr>"

fun op_storable :: "store_op \<Rightarrow> bool" where
  "op_storable (OpUpsertKey now k) = key_times_ok (stamp_key now k)"
| "op_storable (OpUpsertNode now n) = node_storable (stamp_node now n)"
| "op_storable _ = True"

lemma stores_frame:
  "key_table db \<Longrightarrow> db' ''api_keys'' = db ''api_keys'' \<Longrightarrow> key_table db' \<and> stored_key db' = stored_key db"
  "node_table db \<Longrightarrow> db' ''model_nodes'' = db ''model_nodes'' \<Longrightarrow> node_table db' \<and> stored_node db' = stored_node db"
  by (simp_all add: key_table_def node_table_def stored_key_def stored_node_def entity_table_def entity_at_def row_at_def table_rows_def
      fun_eq_iff)


context sqlite
begin

lemma query_row_tables: "query_row E sc q vs d = (x, d') \<Longrightarrow> tables d' = tables d"
  using query_tables by (auto simp: query_row_def split: prod.splits sum.splits list.splits option.splits)

lemma query_list_tables: "query_list E sc q vs d = (x, d') \<Longrightarrow> tables d' = tables d"
  using query_tables by (auto simp: query_list_def split: prod.splits sum.splits)

lemma upsert_key_spec:
  assumes "stores_ok (tables d)" "go_empties je" "key_times_ok (stamp_key now k)" "UpsertAPIKey E je now k d = (err, d')"
  defines "a \<equiv> (case err of None \<Rightarrow> ADone | Some e \<Rightarrow> AFailed e)"
  shows "spec_answer (OpUpsertKey now k) (store_abs (tables d)) a \<and>
    store_abs (tables d') = spec_next (OpUpsertKey now k) a (store_abs (tables d)) \<and> stores_ok (tables d')"
proof (cases err)
  case (Some e)
  then have "tables d' = tables d" using exec_failed assms(4) by (metis UpsertAPIKey_def)
  then show ?thesis using Some assms(1) by (simp add: a_def)
next
  case None
  have kt: "key_table (tables d)" and nt: "node_table (tables d)" using assms(1) by (simp_all add: stores_ok_def)
  note u = upsert_key [OF kt assms(2,3) assms(4) [unfolded None]]
  have "j = k_ID k" if j: "stored_key (tables d) j = Some k'" "k_Key k' = k_Key k" for j k'
  proof (rule ccontr)
    assume "j \<noteq> k_ID k"
    then have "stored_key (tables d') j = Some k'" using u j(1) by simp
    moreover obtain k1 where "stored_key (tables d') (k_ID k) = Some k1" "k_Key k1 = k_Key k"
      using u by (cases "stored_key (tables d) (k_ID k)") (simp_all add: back_key_def stamp_key_def)
    ultimately show False using key_values_unique u j(2) \<open>j \<noteq> k_ID k\<close> by metis
  qed
  moreover have "node_table (tables d') \<and> stored_node (tables d') = stored_node (tables d)"
    using u by (intro stores_frame(2) [OF nt]) simp
  ultimately show ?thesis using u None by (auto simp: a_def store_abs_def stores_ok_def)
qed

lemma delete_key_spec:
  assumes "stores_ok (tables d)" "DeleteAPIKey E i d = (err, d')"
  defines "a \<equiv> (case err of None \<Rightarrow> ADone | Some e \<Rightarrow> AFailed e)"
  shows "spec_answer (OpDeleteKey i) (store_abs (tables d)) a \<and>
    store_abs (tables d') = spec_next (OpDeleteKey i) a (store_abs (tables d)) \<and> stores_ok (tables d')"
proof (cases err)
  case (Some e)
  then have "tables d' = tables d" using exec_failed assms(2) by (metis DeleteAPIKey_def)
  then show ?thesis using Some assms(1) by (simp add: a_def)
next
  case None
  have kt: "key_table (tables d)" and nt: "node_table (tables d)" using assms(1) by (simp_all add: stores_ok_def)
  note u = delete_key [OF kt assms(2) [unfolded None]]
  have "node_table (tables d') \<and> stored_node (tables d') = stored_node (tables d)"
    using u by (intro stores_frame(2) [OF nt]) simp
  then show ?thesis using u None by (auto simp: a_def store_abs_def stores_ok_def)
qed

lemma upsert_node_spec:
  assumes "stores_ok (tables d)" "go_empties je" "node_storable (stamp_node now n)" "UpsertNode E je now n d = (err, d')"
  defines "a \<equiv> (case err of None \<Rightarrow> ADone | Some e \<Rightarrow> AFailed e)"
  shows "spec_answer (OpUpsertNode now n) (store_abs (tables d)) a \<and>
    store_abs (tables d') = spec_next (OpUpsertNode now n) a (store_abs (tables d)) \<and> stores_ok (tables d')"
proof (cases err)
  case (Some e)
  then have "tables d' = tables d" using exec_failed assms(4) by (metis UpsertNode_def)
  then show ?thesis using Some assms(1) by (simp add: a_def)
next
  case None
  have kt: "key_table (tables d)" and nt: "node_table (tables d)" using assms(1) by (simp_all add: stores_ok_def)
  note u = upsert_node [OF nt assms(2,3) assms(4) [unfolded None]]
  have "key_table (tables d') \<and> stored_key (tables d') = stored_key (tables d)"
    using u by (intro stores_frame(1) [OF kt]) simp
  then show ?thesis using u None by (auto simp: a_def store_abs_def stores_ok_def)
qed

lemma delete_node_spec:
  assumes "stores_ok (tables d)" "DeleteNode E i d = (err, d')"
  defines "a \<equiv> (case err of None \<Rightarrow> ADone | Some e \<Rightarrow> AFailed e)"
  shows "spec_answer (OpDeleteNode i) (store_abs (tables d)) a \<and>
    store_abs (tables d') = spec_next (OpDeleteNode i) a (store_abs (tables d)) \<and> stores_ok (tables d')"
proof (cases err)
  case (Some e)
  then have "tables d' = tables d" using exec_failed assms(2) by (metis DeleteNode_def)
  then show ?thesis using Some assms(1) by (simp add: a_def)
next
  case None
  have kt: "key_table (tables d)" and nt: "node_table (tables d)" using assms(1) by (simp_all add: stores_ok_def)
  note u = delete_node [OF nt assms(2) [unfolded None]]
  have "key_table (tables d') \<and> stored_key (tables d') = stored_key (tables d)"
    using u by (intro stores_frame(1) [OF kt]) simp
  then show ?thesis using u None by (auto simp: a_def store_abs_def stores_ok_def)
qed

lemma read_keys_spec:
  assumes "stores_ok (tables d)"
  shows "GetAPIKey E i d = (res, d1) \<Longrightarrow> tables d1 = tables d \<and> (case res of Inl e \<Rightarrow> True | Inr r \<Rightarrow> r = stored_key (tables d) i)"
    and "GetAPIKeyByValue E v d = (res, d1) \<Longrightarrow> tables d1 = tables d \<and>
      (case res of Inl e \<Rightarrow> True | Inr r \<Rightarrow> spec_answer (OpGetKeyByValue v) (store_abs (tables d)) (AKey r))"
    and "ListAPIKeys E d = ((ks, err), d1) \<Longrightarrow> tables d1 = tables d \<and>
      (err = None \<longrightarrow> set ks = ran (stored_key (tables d)) \<and> distinct (map k_ID ks))"
proof -
  have kt: "key_table (tables d)" using assms by (simp add: stores_ok_def)
  show "GetAPIKey E i d = (res, d1) \<Longrightarrow> tables d1 = tables d \<and> (case res of Inl e \<Rightarrow> True | Inr r \<Rightarrow> r = stored_key (tables d) i)"
    using get_key [OF kt] query_row_tables by (cases res) (auto simp: GetAPIKey_def)
  show "tables d1 = tables d \<and> (case res of Inl e \<Rightarrow> True | Inr r \<Rightarrow> spec_answer (OpGetKeyByValue v) (store_abs (tables d)) (AKey r))"
    if g: "GetAPIKeyByValue E v d = (res, d1)"
  proof (cases res)
    case (Inr r)
    show ?thesis using get_key_by_value [OF kt g [unfolded Inr]] Inr by (cases r) (auto simp: store_abs_def ran_def)
  qed (use g query_row_tables in \<open>auto simp: GetAPIKeyByValue_def\<close>)
  show "ListAPIKeys E d = ((ks, err), d1) \<Longrightarrow> tables d1 = tables d \<and>
      (err = None \<longrightarrow> set ks = ran (stored_key (tables d)) \<and> distinct (map k_ID ks))"
    using list_keys [OF kt] query_list_tables by (auto simp: ListAPIKeys_def)
qed

lemma read_nodes_spec:
  assumes "stores_ok (tables d)"
  shows "GetNode E i d = (res, d1) \<Longrightarrow> tables d1 = tables d \<and> (case res of Inl e \<Rightarrow> True | Inr r \<Rightarrow> r = stored_node (tables d) i)"
    and "ListNodes E d = ((ns, err), d1) \<Longrightarrow> tables d1 = tables d \<and>
      (err = None \<longrightarrow> set ns = ran (stored_node (tables d)) \<and> distinct (map n_ID ns))"
proof -
  have nt: "node_table (tables d)" using assms by (simp add: stores_ok_def)
  show "GetNode E i d = (res, d1) \<Longrightarrow> tables d1 = tables d \<and> (case res of Inl e \<Rightarrow> True | Inr r \<Rightarrow> r = stored_node (tables d) i)"
    using get_node [OF nt] query_row_tables by (cases res) (auto simp: GetNode_def)
  show "ListNodes E d = ((ns, err), d1) \<Longrightarrow> tables d1 = tables d \<and>
      (err = None \<longrightarrow> set ns = ran (stored_node (tables d)) \<and> distinct (map n_ID ns))"
    using list_nodes [OF nt] query_list_tables by (auto simp: ListNodes_def)
qed

lemma store_run1_spec:
  assumes ok: "stores_ok (tables d)" and je: "go_empties je" and st: "op_storable op" and run: "store_run1 E je op d = (a, d')"
  shows "spec_answer op (store_abs (tables d)) a \<and> store_abs (tables d') = spec_next op a (store_abs (tables d)) \<and> stores_ok (tables d')"
proof (cases op)
  case (OpUpsertKey now k)
  obtain err d1 where e: "UpsertAPIKey E je now k d = (err, d1)" by (cases "UpsertAPIKey E je now k d")
  have "key_times_ok (stamp_key now k)" using st OpUpsertKey by simp
  then show ?thesis using upsert_key_spec [OF ok je _ e] run e OpUpsertKey by (simp add: finished_def sqlite_storage_def)
next
  case (OpDeleteKey i)
  obtain err d1 where e: "DeleteAPIKey E i d = (err, d1)" by (cases "DeleteAPIKey E i d")
  then show ?thesis using delete_key_spec [OF ok e] run OpDeleteKey by (simp add: finished_def sqlite_storage_def)
next
  case (OpUpsertNode now n)
  obtain err d1 where e: "UpsertNode E je now n d = (err, d1)" by (cases "UpsertNode E je now n d")
  have "node_storable (stamp_node now n)" using st OpUpsertNode by simp
  then show ?thesis using upsert_node_spec [OF ok je _ e] run e OpUpsertNode by (simp add: finished_def sqlite_storage_def)
next
  case (OpDeleteNode i)
  obtain err d1 where e: "DeleteNode E i d = (err, d1)" by (cases "DeleteNode E i d")
  then show ?thesis using delete_node_spec [OF ok e] run OpDeleteNode by (simp add: finished_def sqlite_storage_def)
next
  case OpReopen
  obtain err d1 where "migrate E d = (err, d1)" by (cases "migrate E d")
  then show ?thesis using migrate_keeps [OF ok] run OpReopen by (cases err) (auto simp: finished_def store_abs_def)
next
  case (OpGetKey i)
  then show ?thesis using run read_keys_spec(1) [OF ok, of i] ok
    by (auto simp: sqlite_storage_def store_abs_def split: prod.splits sum.splits)
next
  case (OpGetKeyByValue v)
  then show ?thesis using run read_keys_spec(2) [OF ok, of v] ok
    by (auto simp: sqlite_storage_def store_abs_def split: prod.splits sum.splits)
next
  case OpListKeys
  then show ?thesis using run read_keys_spec(3) [OF ok] ok
    by (auto simp: sqlite_storage_def store_abs_def split: prod.splits option.splits)
next
  case (OpGetNode i)
  then show ?thesis using run read_nodes_spec(1) [OF ok, of i] ok
    by (auto simp: sqlite_storage_def store_abs_def split: prod.splits sum.splits)
next
  case OpListNodes
  then show ?thesis using run read_nodes_spec(2) [OF ok] ok
    by (auto simp: sqlite_storage_def store_abs_def split: prod.splits option.splits)
qed

lemma store_run_spec:
  assumes "stores_ok (tables d)" "go_empties je" "list_all op_storable ops" "store_run E je ops d = (as, d')"
  shows "spec_run (store_abs (tables d)) ops as (store_abs (tables d')) \<and> stores_ok (tables d')"
  using assms
proof (induction ops arbitrary: d as)
  case (Cons op ops)
  obtain a d1 where a: "store_run1 E je op d = (a, d1)" by (cases "store_run1 E je op d")
  obtain as1 d2 where r: "store_run E je ops d1 = (as1, d2)" by (cases "store_run E je ops d1")
  note s = store_run1_spec [OF Cons.prems(1,2) _ a]
  show ?case using Cons.IH [of d1 as1] Cons.prems a r s by auto
qed simp

end


text \<open>A new database on the reference engine, for the witnesses.\<close>

definition fresh_db :: ref_db where
  "fresh_db = snd (migrate ref_engine \<lparr>rd_tables = Map.empty, rd_saved = Map.empty, rd_calls = 0, rd_faults = \<lambda>_. None\<rparr>)"

lemma ref_exec:
  "db_Exec ref_engine st vs \<lparr>rd_tables = db, rd_saved = sv, rd_calls = n, rd_faults = \<lambda>_. None\<rparr> =
     (case sql_exec ref_oracle db st vs of
        None \<Rightarrow> (Some constraint_error, \<lparr>rd_tables = db, rd_saved = sv, rd_calls = Suc n, rd_faults = \<lambda>_. None\<rparr>)
      | Some db' \<Rightarrow> (None, \<lparr>rd_tables = db', rd_saved = sv, rd_calls = Suc n, rd_faults = \<lambda>_. None\<rparr>))"
  by (simp add: ref_engine_def ref_call_def Let_def split: option.split)

lemmas schema_cols = model_nodes_cols_def api_keys_cols_def request_logs_cols_def detail_logs_cols_def key_col_def needed_col_def
  null_col_def text_col_def int_col_def

lemma fresh_tables:
  "rd_tables fresh_db =
     [''model_nodes'' \<mapsto> \<lparr>tb_cols = model_nodes_cols @ [null_col ''rate_limit''], tb_rows = []\<rparr>,
      ''api_keys'' \<mapsto> \<lparr>tb_cols = api_keys_cols @ [int_col ''tpm'' 0, int_col ''rpm'' 0], tb_rows = []\<rparr>,
      ''request_logs'' \<mapsto> \<lparr>tb_cols = request_logs_cols, tb_rows = []\<rparr>,
      ''detail_logs'' \<mapsto> \<lparr>tb_cols = detail_logs_cols, tb_rows = []\<rparr>]"
  by (simp add: fresh_db_def migrate_def migrate_stmts_def upgrade_stmts_def ref_exec has_col_def addable_def schema_cols fun_eq_iff)

lemma fresh_stores: "stores_ok (rd_tables fresh_db)" "store_abs (rd_tables fresh_db) = \<lparr>sp_keys = Map.empty, sp_nodes = Map.empty\<rparr>"
  by (simp_all add: fresh_tables stores_ok_def key_table_def node_table_def entity_table_def table_ok_def unique_col_def store_abs_def
      stored_key_def stored_node_def entity_at_def row_at_def table_rows_def schema_cols key_columns_def node_columns_def fun_eq_iff)

text \<open>C38. Over any SQLite engine the storage is a map of keys and a map of nodes: every sequence of operations,
  faults and reopenings of the database included, gives answers that the two maps give, failed operations change nothing,
  an upsert of a known record keeps its time of creation, and no two keys ever have the same value.\<close>

theorem storage_refines:
  assumes "sqlite E tables saved strf" "stores_ok (tables d)" "go_empties je" "list_all op_storable ops"
    and "store_run E je ops d = (as, d')"
  shows "spec_run (store_abs (tables d)) ops as (store_abs (tables d')) \<and> stores_ok (tables d')"
  by (rule sqlite.store_run_spec [OF assms])

definition witness_key :: APIKey where
  "witness_key = \<lparr>k_ID = ''k1'', k_Key = ''sk-1'', k_Name = ''first'', k_Enabled = True, k_TPM = 0, k_RPM = 5, k_AllowModels = [''gpt''],
     k_CreatedAt = 0, k_ExpiresAt = None\<rparr>"

theorem storage_refines_witness:
  "\<exists>as d'. store_run ref_engine \<lparr>je_list = ''[]'', je_map = ''{}''\<rparr>
       [OpUpsertKey 1000000000 witness_key, OpReopen, OpGetKeyByValue ''sk-1'', OpDeleteKey ''k1'', OpListKeys] fresh_db = (as, d') \<and>
     spec_run \<lparr>sp_keys = Map.empty, sp_nodes = Map.empty\<rparr>
       [OpUpsertKey 1000000000 witness_key, OpReopen, OpGetKeyByValue ''sk-1'', OpDeleteKey ''k1'', OpListKeys] as (store_abs (rd_tables d'))"
proof -
  let ?je = "\<lparr>je_list = ''[]'', je_map = ''{}''\<rparr>"
    and ?ops = "[OpUpsertKey 1000000000 witness_key, OpReopen, OpGetKeyByValue ''sk-1'', OpDeleteKey ''k1'', OpListKeys]"
  obtain as d' where r: "store_run ref_engine ?je ?ops fresh_db = (as, d')" by (cases "store_run ref_engine ?je ?ops fresh_db")
  have "go_empties ?je" by (simp add: go_empties_def)
  moreover have "date_ok 0" by code_simp
  then have "list_all op_storable ?ops" by (simp add: witness_key_def stamp_key_def key_times_ok_def time_ok_def Second_def)
  ultimately show ?thesis
    using storage_refines [OF refdb.sqlite_axioms fresh_stores(1) _ _ r] r unfolding fresh_stores(2) by blast
qed

end
