(* ===== verification/Sqlite_Logger.thy ===== *)
theory Sqlite_Logger
  imports Sqlite_Storage Async_Log
begin

text \<open>
  \<^verbatim>\<open>internal/storage/sqlite/logger.go\<close>: the two log tables.  A method that takes the place of
  \<^verbatim>\<open>(x, err)\<close> returns the error as a value of a sum; the clock of \<^verbatim>\<open>time.Now()\<close> is an argument.
\<close>

section \<open>Writing\<close>

definition log_columns :: "string list" where
  "log_columns = [''id'', ''session_id'', ''timestamp'', ''api_key_id'', ''model_alias'', ''node_id'', ''actual_model'',
     ''prompt_tokens'', ''completion_tokens'', ''total_tokens'', ''duration_ms'', ''status_code'', ''stream'', ''error_msg'', ''has_detail'']"

definition insert_log_stmt :: stmt where
  "insert_log_stmt = SInsert True ''request_logs'' log_columns None"

definition log_args :: "RequestLog \<Rightarrow> sqlval list" where
  "log_args l =
     [VText (l_ID l), VText (l_SessionID l), VText (Format_RFC3339Nano (l_Timestamp l)), VText (l_APIKeyID l),
      VText (l_ModelAlias l), VText (l_NodeID l), VText (l_ActualModel l), VInt (l_PromptTokens l),
      VInt (l_CompletionTokens l), VInt (l_TotalTokens l), VInt (l_DurationMs l), VInt (l_StatusCode l),
      VInt (boolToInt (l_Stream l)), VText (l_ErrorMsg l), VInt (boolToInt (l_HasDetail l))]"

definition InsertRequestLog :: "'d sql_engine \<Rightarrow> RequestLog \<Rightarrow> 'd \<Rightarrow> goerror option \<times> 'd" where
  "InsertRequestLog E l d = db_Exec E insert_log_stmt (log_args l) d"

definition detail_columns :: "string list" where
  "detail_columns = [''trace_id'', ''session_id'', ''timestamp'', ''request_body'', ''response_body'']"

definition insert_detail_stmt :: stmt where
  "insert_detail_stmt = SInsert True ''detail_logs'' detail_columns None"

definition detail_args :: "DetailLog \<Rightarrow> sqlval list" where
  "detail_args l =
     [VText (d_TraceID l), VText (d_SessionID l), VText (Format_RFC3339Nano (d_Timestamp l)), VText (d_RequestBody l),
      VText (d_ResponseBody l)]"

definition InsertDetailLog :: "'d sql_engine \<Rightarrow> DetailLog \<Rightarrow> 'd \<Rightarrow> goerror option \<times> 'd" where
  "InsertDetailLog E l d = db_Exec E insert_detail_stmt (detail_args l) d"

text \<open>The loop of a bulk insert over its entries, and the transaction around it.  A return before the
  commit runs the deferred \<^verbatim>\<open>Rollback\<close>; after a commit, successful or not, the transaction is done
  and \<^verbatim>\<open>Rollback\<close> has no effect.\<close>

fun insert_loop :: "'d sql_engine \<Rightarrow> stmt \<Rightarrow> ('a \<Rightarrow> sqlval list) \<Rightarrow> 'a list \<Rightarrow> 'd \<Rightarrow> goerror option \<times> 'd" where
  "insert_loop E st args [] d = (None, d)"
| "insert_loop E st args (x # xs) d =
     (case db_Exec E st (args x) d of (Some e, d') \<Rightarrow> (Some e, d') | (None, d') \<Rightarrow> insert_loop E st args xs d')"

definition in_transaction :: "'d sql_engine \<Rightarrow> stmt \<Rightarrow> ('a \<Rightarrow> sqlval list) \<Rightarrow> 'a list \<Rightarrow> 'd \<Rightarrow> goerror option \<times> 'd" where
  "in_transaction E st args xs d =
     (if length xs = 0 then (None, d)
      else (case db_Begin E d of
              (Some e, d1) \<Rightarrow> (Some e, d1)
            | (None, d1) \<Rightarrow>
                (case db_Prepare E st d1 of
                   (Some e, d2) \<Rightarrow> (Some e, db_Rollback E d2)
                 | (None, d2) \<Rightarrow>
                     (case insert_loop E st args xs d2 of
                        (Some e, d3) \<Rightarrow> (Some e, db_Rollback E d3)
                      | (None, d3) \<Rightarrow> db_Commit E d3))))"

definition sqlite_BulkInsertRequestLogs :: "'d sql_engine \<Rightarrow> RequestLog list \<Rightarrow> 'd \<Rightarrow> goerror option \<times> 'd" where
  "sqlite_BulkInsertRequestLogs E ls d = in_transaction E insert_log_stmt log_args ls d"

definition sqlite_BulkInsertDetailLogs :: "'d sql_engine \<Rightarrow> DetailLog list \<Rightarrow> 'd \<Rightarrow> goerror option \<times> 'd" where
  "sqlite_BulkInsertDetailLogs E ls d = in_transaction E insert_detail_stmt detail_args ls d"

definition sqlite_sink :: "'d sql_engine \<Rightarrow> 'd log_sink" where
  "sqlite_sink E =
     \<lparr>BulkInsertRequestLogs = sqlite_BulkInsertRequestLogs E, BulkInsertDetailLogs = sqlite_BulkInsertDetailLogs E\<rparr>"

section \<open>Filters\<close>

text \<open>The conditions of \<^verbatim>\<open>buildLogFilter\<close> with the arguments each of them binds.\<close>

definition log_conds :: "LogFilter \<Rightarrow> (sexpr \<times> sqlval list) list" where
  "log_conds f =
     (if lf_APIKeyID f \<noteq> [] then [(EBin OpEq (ECol ''api_key_id'') EParam, [VText (lf_APIKeyID f)])] else []) @
     (if lf_ModelAlias f \<noteq> [] then [(EBin OpEq (ECol ''model_alias'') EParam, [VText (lf_ModelAlias f)])] else []) @
     (if lf_NodeID f \<noteq> [] then [(EBin OpEq (ECol ''node_id'') EParam, [VText (lf_NodeID f)])] else []) @
     (if lf_SessionID f \<noteq> [] then [(EBin OpEq (ECol ''session_id'') EParam, [VText (lf_SessionID f)])] else []) @
     (if lf_StatusCode f > 0 then [(EBin OpEq (ECol ''status_code'') EParam, [VInt (lf_StatusCode f)])] else []) @
     (if lf_ErrorOnly f
      then [(EBin OpOr (EBin OpGe (ECol ''status_code'') (EVal (VInt 400))) (EBin OpNe (ECol ''error_msg'') (EVal (VText []))), [])]
      else []) @
     (if lf_Keyword f \<noteq> []
      then (let kw = ''%'' @ lf_Keyword f @ ''%''
            in [(EBin OpOr (EBin OpLike (ECol ''error_msg'') EParam) (EBin OpLike (ECol ''id'') EParam), [VText kw, VText kw])])
      else []) @
     (case lf_StartTime f of
        None \<Rightarrow> [] | Some t \<Rightarrow> [(EBin OpGe (ECol ''timestamp'') EParam, [VText (Format_RFC3339Nano t)])]) @
     (case lf_EndTime f of
        None \<Rightarrow> [] | Some t \<Rightarrow> [(EBin OpLe (ECol ''timestamp'') EParam, [VText (Format_RFC3339Nano t)])])"

text \<open>\<^verbatim>\<open>strings.Join(conds, " AND ")\<close>, which SQL reads from left to right.\<close>

fun join_and :: "sexpr list \<Rightarrow> sexpr option" where
  "join_and [] = None"
| "join_and (c # cs) = Some (foldl (EBin OpAnd) c cs)"

definition buildLogFilter :: "LogFilter \<Rightarrow> sexpr option \<times> sqlval list" where
  "buildLogFilter f = (join_and (map fst (log_conds f)), concat (map snd (log_conds f)))"

section \<open>Queries\<close>

definition log_kinds :: "scan_kind list" where
  "log_kinds = [KStr, KStr, KStr, KStr, KStr, KStr, KStr, KInt, KInt, KInt, KInt, KInt, KInt, KStr, KInt]"

definition scanRequestLog :: "sqlval list \<Rightarrow> goerror + RequestLog" where
  "scanRequestLog vs =
     (case scan log_kinds vs of
        Some [GStr i, GStr se, GStr ts, GStr key, GStr al, GStr nd, GStr am, GInt pt, GInt ct, GInt tt, GInt du, GInt sc, GInt st,
              GStr em, GInt hasDetail] \<Rightarrow>
          Inr \<lparr>l_ID = i, l_SessionID = se, l_Timestamp = lax_time ts, l_APIKeyID = key, l_ModelAlias = al, l_NodeID = nd,
               l_ActualModel = am, l_PromptTokens = pt, l_CompletionTokens = ct, l_TotalTokens = tt, l_DurationMs = du,
               l_StatusCode = sc, l_Stream = (st \<noteq> 0), l_ErrorMsg = em, l_HasDetail = (hasDetail \<noteq> 0)\<rparr>
      | _ \<Rightarrow> Inl scan_error)"

definition no_rows :: goerror where
  "no_rows = \<lparr>err_text = ''sql: no rows in result set'', err_deadline = False, err_canceled = False\<rparr>"

text \<open>\<^verbatim>\<open>QueryRow(...).Scan\<close> where the absence of rows is an error like any other.\<close>

definition scan_row ::
  "'d sql_engine \<Rightarrow> (sqlval list \<Rightarrow> goerror + 'a) \<Rightarrow> sql_select \<Rightarrow> sqlval list \<Rightarrow> 'd \<Rightarrow> (goerror + 'a) \<times> 'd" where
  "scan_row E sc q vs d =
     (case query_row E sc q vs d of
        (Inl e, d') \<Rightarrow> (Inl e, d')
      | (Inr None, d') \<Rightarrow> (Inl no_rows, d')
      | (Inr (Some x), d') \<Rightarrow> (Inr x, d'))"

definition scan_int :: "sqlval list \<Rightarrow> goerror + int" where
  "scan_int vs = (case scan [KInt] vs of Some [GInt i] \<Rightarrow> Inr i | _ \<Rightarrow> Inl scan_error)"

definition select_logs :: "sexpr list \<Rightarrow> LogFilter \<Rightarrow> sql_select" where
  "select_logs cols f =
     \<lparr>q_cols = cols, q_from = ''request_logs'', q_where = fst (buildLogFilter f), q_group = None, q_order = None,
      q_limit = -1, q_offset = 0\<rparr>"

definition newest_logs :: "LogFilter \<Rightarrow> int \<Rightarrow> int \<Rightarrow> sql_select" where
  "newest_logs f limit offset =
     (select_logs (map ECol log_columns) f)
       \<lparr>q_order := Some (ECol ''timestamp'', True), q_limit := limit, q_offset := offset\<rparr>"

definition QueryLogs :: "'d sql_engine \<Rightarrow> LogFilter \<Rightarrow> 'd \<Rightarrow> (RequestLog list \<times> int \<times> goerror option) \<times> 'd" where
  "QueryLogs E f d =
     (let vs = snd (buildLogFilter f)
      in case scan_row E scan_int (select_logs [ECountAll] f) vs d of
           (Inl e, d1) \<Rightarrow> (([], 0, Some e), d1)
         | (Inr n, d1) \<Rightarrow>
             let page = (if lf_Page f < 1 then 1 else lf_Page f);
                 pageSize = (if lf_PageSize f < 1 then 20 else lf_PageSize f);
                 offset = i64 (i64 (page - 1) * pageSize)
             in (case db_Query E (newest_logs f pageSize offset) vs d1 of
                   (Inl e, d2) \<Rightarrow> (([], 0, Some e), d2)
                 | (Inr (rows, err), d2) \<Rightarrow>
                     (case scan_rows scanRequestLog rows None [] of
                        (_, Some e) \<Rightarrow> (([], 0, Some e), d2)
                      | (out, None) \<Rightarrow> ((out, n, err), d2))))"

definition ExportLogs :: "'d sql_engine \<Rightarrow> LogFilter \<Rightarrow> 'd \<Rightarrow> (RequestLog list \<times> goerror option) \<times> 'd" where
  "ExportLogs E f d = query_list E scanRequestLog (newest_logs f 100000 0) (snd (buildLogFilter f)) d"

definition scan_detail :: "sqlval list \<Rightarrow> goerror + DetailLog" where
  "scan_detail vs =
     (case scan [KStr, KStr, KStr, KStr, KStr] vs of
        Some [GStr i, GStr se, GStr ts, GStr rq, GStr rs] \<Rightarrow>
          Inr \<lparr>d_TraceID = i, d_SessionID = se, d_Timestamp = lax_time ts, d_RequestBody = rq, d_ResponseBody = rs\<rparr>
      | _ \<Rightarrow> Inl scan_error)"

definition GetDetail :: "'d sql_engine \<Rightarrow> string \<Rightarrow> 'd \<Rightarrow> (goerror + DetailLog option) \<times> 'd" where
  "GetDetail E traceID d =
     query_row E scan_detail
       \<lparr>q_cols = map ECol detail_columns, q_from = ''detail_logs'', q_where = Some (EBin OpEq (ECol ''trace_id'') EParam),
        q_group = None, q_order = None, q_limit = -1, q_offset = 0\<rparr> [VText traceID] d"

section \<open>Retention\<close>

text \<open>\<open>before_stmt\<close> is \<^verbatim>\<open>DELETE FROM t WHERE timestamp < ?\<close>; \<open>ranked_stmt\<close> deletes the rows that a
  subquery in the order of the timestamps selects.\<close>

definition before_stmt :: "string \<Rightarrow> stmt" where
  "before_stmt t = SDelete t (EBin OpLt (ECol ''timestamp'') EParam)"

definition ranked_stmt :: "string \<Rightarrow> string \<Rightarrow> bool \<Rightarrow> int \<Rightarrow> sexpr \<Rightarrow> stmt" where
  "ranked_stmt t key desc limit offset = SDelete t (EInNewest (ECol key) key t ''timestamp'' desc limit offset)"

definition prune_days :: "'d sql_engine \<Rightarrow> gotime \<Rightarrow> string \<Rightarrow> int \<Rightarrow> 'd \<Rightarrow> goerror option \<times> 'd" where
  "prune_days E now t maxDays d =
     (if maxDays > 0
      then db_Exec E (before_stmt t) [VText (Format_RFC3339Nano (now - maxDays * 86400 * Second))] d
      else (None, d))"

definition prune_rows :: "'d sql_engine \<Rightarrow> string \<Rightarrow> string \<Rightarrow> int \<Rightarrow> 'd \<Rightarrow> goerror option \<times> 'd" where
  "prune_rows E t key maxRows d =
     (if maxRows > 0 then db_Exec E (ranked_stmt t key True (-1) EParam) [VInt maxRows] d else (None, d))"

definition PruneRequestLogs :: "'d sql_engine \<Rightarrow> gotime \<Rightarrow> int \<Rightarrow> int \<Rightarrow> 'd \<Rightarrow> goerror option \<times> 'd" where
  "PruneRequestLogs E now maxRows maxDays d =
     (case prune_days E now ''request_logs'' maxDays d of
        (Some e, d1) \<Rightarrow> (Some e, d1)
      | (None, d1) \<Rightarrow> prune_rows E ''request_logs'' ''id'' maxRows d1)"

definition PruneDetailLogs :: "'d sql_engine \<Rightarrow> gotime \<Rightarrow> int \<Rightarrow> int \<Rightarrow> 'd \<Rightarrow> goerror option \<times> 'd" where
  "PruneDetailLogs E now maxRows maxDays d =
     (case prune_days E now ''detail_logs'' maxDays d of
        (Some e, d1) \<Rightarrow> (Some e, d1)
      | (None, d1) \<Rightarrow> prune_rows E ''detail_logs'' ''trace_id'' maxRows d1)"

section \<open>Aggregates\<close>

definition total_of :: "string \<Rightarrow> sexpr" where
  "total_of c = ECoalesce (ESum (ECol c)) (EVal (VInt 0))"

definition Stats :: "'d sql_engine \<Rightarrow> LogFilter \<Rightarrow> 'd \<Rightarrow> (LogStats \<times> goerror option) \<times> 'd" where
  "Stats E f d =
     (case scan_row E
             (\<lambda>vs. case scan [KInt, KInt, KInt, KInt] vs of
                     Some [GInt a, GInt b, GInt c, GInt e] \<Rightarrow>
                       Inr \<lparr>st_TotalRequests = a, st_PromptTokens = b, st_CompletionTokens = c, st_TotalTokens = e\<rparr>
                   | _ \<Rightarrow> Inl scan_error)
             (select_logs [ECountAll, total_of ''prompt_tokens'', total_of ''completion_tokens'', total_of ''total_tokens''] f)
             (snd (buildLogFilter f)) d of
        (Inl e, d') \<Rightarrow> ((\<lparr>st_TotalRequests = 0, st_PromptTokens = 0, st_CompletionTokens = 0, st_TotalTokens = 0\<rparr>, Some e), d')
      | (Inr st, d') \<Rightarrow> ((st, None), d'))"

definition bucket_format :: "string \<Rightarrow> string" where
  "bucket_format granularity = (if granularity = ''day'' then ''%Y-%m-%dT00:00:00Z'' else ''%Y-%m-%dT%H:00:00Z'')"

definition scan_point :: "sqlval list \<Rightarrow> goerror + TimeSeriesPoint" where
  "scan_point vs =
     (case scan [KStr, KInt, KInt, KInt, KInt] vs of
        Some [GStr bucket, GInt n, GInt pt, GInt ct, GInt tt] \<Rightarrow>
          Inr \<lparr>ts_Timestamp = lax_time bucket, ts_Requests = n, ts_PromptTokens = pt, ts_CompletionTokens = ct, ts_TotalTokens = tt\<rparr>
      | _ \<Rightarrow> Inl scan_error)"

definition StatsTimeSeries :: "'d sql_engine \<Rightarrow> LogFilter \<Rightarrow> string \<Rightarrow> 'd \<Rightarrow> (TimeSeriesPoint list \<times> goerror option) \<times> 'd" where
  "StatsTimeSeries E f granularity d =
     (let bucket = EStrftime (bucket_format granularity) (ECol ''timestamp'')
      in query_list E scan_point
           ((select_logs [bucket, ECountAll, total_of ''prompt_tokens'', total_of ''completion_tokens'', total_of ''total_tokens''] f)
              \<lparr>q_group := Some bucket, q_order := Some (bucket, False)\<rparr>)
           (snd (buildLogFilter f)) d)"

definition scan_top :: "sqlval list \<Rightarrow> goerror + TopEntity" where
  "scan_top vs =
     (case scan [KStr, KInt, KInt, KInt, KInt, KInt, KInt] vs of
        Some [GStr nm, GInt n, GInt tt, GInt pt, GInt ct, GInt du, GInt av] \<Rightarrow>
          Inr \<lparr>te_Name = nm, te_Requests = n, te_TotalTokens = tt, te_PromptTokens = pt, te_CompletionTokens = ct,
               te_AvgDurationMs = du, te_AvgTokens = av\<rparr>
      | _ \<Rightarrow> Inl scan_error)"

definition top_column :: "string \<Rightarrow> string" where
  "top_column groupBy =
     (if groupBy = ''api_key_id'' then ''api_key_id'' else if groupBy = ''node_id'' then ''node_id'' else ''model_alias'')"

definition top_limit :: "int \<Rightarrow> int" where
  "top_limit limit = (if limit \<le> 0 \<or> limit > 100 then 10 else limit)"

definition StatsTop :: "'d sql_engine \<Rightarrow> LogFilter \<Rightarrow> string \<Rightarrow> int \<Rightarrow> 'd \<Rightarrow> (TopEntity list \<times> goerror option) \<times> 'd" where
  "StatsTop E f groupBy limit d =
     (let name = ECol (top_column groupBy); tokens = total_of ''total_tokens''
      in query_list E scan_top
           ((select_logs
               [name, ECountAll, tokens, total_of ''prompt_tokens'', total_of ''completion_tokens'',
                ECoalesce (EAvg (ECol ''duration_ms'')) (EVal (VInt 0)),
                ECase (EBin OpGt ECountAll (EVal (VInt 0))) (EBin OpDiv tokens ECountAll) (EVal (VInt 0))] f)
              \<lparr>q_group := Some name, q_order := Some (tokens, True), q_limit := top_limit limit\<rparr>)
           (snd (buildLogFilter f)) d)"

section \<open>Retention by size\<close>

definition sum_of :: "string \<Rightarrow> sexpr \<Rightarrow> sql_select" where
  "sum_of t e =
     \<lparr>q_cols = [ECoalesce (ESum e) (EVal (VInt 0))], q_from = t, q_where = None, q_group = None, q_order = None,
      q_limit = -1, q_offset = 0\<rparr>"

definition lengths :: "string list \<Rightarrow> sexpr" where
  "lengths cs = (case cs of [] \<Rightarrow> EVal (VInt 0) | c # cs' \<Rightarrow> foldl (\<lambda>e x. EBin OpAdd e (ELength (ECol x))) (ELength (ECol c)) cs')"

definition log_size_expr :: sexpr where
  "log_size_expr =
     EBin OpAdd (lengths [''id'', ''session_id'', ''timestamp'', ''api_key_id'', ''model_alias'', ''node_id'', ''actual_model'', ''error_msg''])
       (EVal (VInt 64))"

definition detail_size_expr :: sexpr where
  "detail_size_expr = lengths detail_columns"

definition RequestLogsSizeBytes :: "'d sql_engine \<Rightarrow> 'd \<Rightarrow> (goerror + int) \<times> 'd" where
  "RequestLogsSizeBytes E d = scan_row E scan_int (sum_of ''request_logs'' log_size_expr) [] d"

definition DetailLogsSizeBytes :: "'d sql_engine \<Rightarrow> 'd \<Rightarrow> (goerror + int) \<times> 'd" where
  "DetailLogsSizeBytes E d = scan_row E scan_int (sum_of ''detail_logs'' detail_size_expr) [] d"

text \<open>The loop of the two functions below: \<open>None\<close> is a loop without end.\<close>

partial_function (option) prune_size_loop ::
  "'d sql_engine \<Rightarrow> ('d \<Rightarrow> (goerror + int) \<times> 'd) \<Rightarrow> stmt \<Rightarrow> string \<Rightarrow> int \<Rightarrow> 'd \<Rightarrow> (goerror option \<times> 'd) option" where
  "prune_size_loop E sizeOf st msg maxBytes d =
     (case sizeOf d of
        (Inl e, d1) \<Rightarrow> Some (Some (wrap_error ''size check: '' e), d1)
      | (Inr n, d1) \<Rightarrow>
          if n \<le> maxBytes then Some (None, d1)
          else (case db_Exec E st [] d1 of
                  (Some e, d2) \<Rightarrow> Some (Some (wrap_error msg e), d2)
                | (None, d2) \<Rightarrow> prune_size_loop E sizeOf st msg maxBytes d2))"

definition PruneRequestLogsBySize :: "'d sql_engine \<Rightarrow> int \<Rightarrow> 'd \<Rightarrow> (goerror option \<times> 'd) option" where
  "PruneRequestLogsBySize E maxBytes d =
     (if maxBytes \<le> 0 then Some (None, d)
      else prune_size_loop E (RequestLogsSizeBytes E) (ranked_stmt ''request_logs'' ''id'' False 500 (EVal (VInt 0)))
             ''prune by size: '' maxBytes d)"

definition PruneDetailLogsBySize :: "'d sql_engine \<Rightarrow> int \<Rightarrow> 'd \<Rightarrow> (goerror option \<times> 'd) option" where
  "PruneDetailLogsBySize E maxBytes d =
     (if maxBytes \<le> 0 then Some (None, d)
      else prune_size_loop E (DetailLogsSizeBytes E) (ranked_stmt ''detail_logs'' ''trace_id'' False 100 (EVal (VInt 0)))
             ''prune detail by size: '' maxBytes d)"

definition IncrementalVacuum :: "'d sql_engine \<Rightarrow> 'd \<Rightarrow> goerror option \<times> 'd" where
  "IncrementalVacuum E d = db_Exec E (SPragma ''incremental_vacuum'') [] d"

definition sqlite_logger :: "'d sql_engine \<Rightarrow> 'd logger_ops" where
  "sqlite_logger E =
     \<lparr>lo_QueryLogs = QueryLogs E, lo_ExportLogs = ExportLogs E, lo_GetDetail = GetDetail E, lo_Stats = Stats E,
      lo_StatsTimeSeries = StatsTimeSeries E, lo_StatsTop = StatsTop E\<rparr>"

end
