(* ===== verification/Json_Merge.thy ===== *)
theory Json_Merge
  imports Domain "HOL-Library.AList"
begin

text \<open>
  The override of request bodies, \<^verbatim>\<open>internal/proxy/override.go\<close>.  A JSON object is the list of
  its members in an order in which Go may iterate over the map.  The merge happens in
  place in the Go code; values taken from the override are shared with it, but nothing
  changes the merged body afterwards, so values can stand for references here.
\<close>

section \<open>Model\<close>

function DeepMerge :: "jobject \<Rightarrow> jobject \<Rightarrow> jobject" where
  "DeepMerge dst [] = dst"
| "DeepMerge dst ((k, srcVal) # src) =
     (case map_of dst k of
        Some dstVal \<Rightarrow>
          (case srcVal of
             JObj srcMap \<Rightarrow>
               (case dstVal of
                  JObj dstMap \<Rightarrow> DeepMerge (AList.update k (JObj (DeepMerge dstMap srcMap)) dst) src
                | _ \<Rightarrow> DeepMerge (AList.update k srcVal dst) src)
           | _ \<Rightarrow> DeepMerge (AList.update k srcVal dst) src)
      | None \<Rightarrow> DeepMerge (AList.update k srcVal dst) src)"
  by pat_completeness auto
termination
  by (relation "measure (\<lambda>(_, src). size (JObj src))") auto

definition ApplyOverride :: "jobject \<Rightarrow> jobject \<Rightarrow> jobject" where
  "ApplyOverride body override = (if length override = 0 then body else DeepMerge body override)"

section \<open>Lookup in merged objects\<close>

text \<open>What the merge makes of one member.\<close>

definition merged :: "json option \<Rightarrow> json \<Rightarrow> json" where
  "merged old new =
     (case (old, new) of (Some (JObj d), JObj s) \<Rightarrow> JObj (DeepMerge d s) | _ \<Rightarrow> new)"

lemma DeepMerge_Cons:
  "DeepMerge dst ((k, v) # src) = DeepMerge (AList.update k (merged (map_of dst k) v) dst) src"
  by (auto simp: merged_def split: option.splits json.splits)

lemma map_of_update: "map_of (AList.update k v xs) = (map_of xs)(k \<mapsto> v)"
  by (simp add: update_conv')

lemma DeepMerge_lookup:
  "distinct (map fst src) \<Longrightarrow>
   map_of (DeepMerge dst src) k =
     (case map_of src k of None \<Rightarrow> map_of dst k | Some v \<Rightarrow> Some (merged (map_of dst k) v))"
proof (induction src arbitrary: dst)
  case (Cons a src)
  obtain k' v where a: "a = (k', v)" by fastforce
  have d: "distinct (map fst src)" "map_of src k' = None"
    using Cons.prems by (auto simp: a map_of_eq_None_iff)
  show ?case
    unfolding a DeepMerge_Cons Cons.IH [OF d(1)] using d(2)
    by (auto simp: map_of_update split: option.splits)
qed simp

section \<open>Paths\<close>

fun jget :: "string list \<Rightarrow> json \<Rightarrow> json option" where
  "jget [] v = Some v"
| "jget (k # ks) (JObj m) = (case map_of m k of None \<Rightarrow> None | Some v \<Rightarrow> jget ks v)"
| "jget (k # ks) v = None"

definition is_obj :: "json \<Rightarrow> bool" where
  "is_obj v \<longleftrightarrow> (\<exists>m. v = JObj m)"

text \<open>Every object inside has distinct keys, as decoding produces them.\<close>

inductive json_ok :: "json \<Rightarrow> bool" where
  "json_ok JNull"
| "json_ok (JBool b)"
| "json_ok (JNum x)"
| "json_ok (JInt i)"
| "json_ok (JStr s)"
| "\<forall>v\<in>set vs. json_ok v \<Longrightarrow> json_ok (JArr vs)"
| "distinct (map fst m) \<Longrightarrow> \<forall>v\<in>snd ` set m. json_ok v \<Longrightarrow> json_ok (JObj m)"

inductive_simps json_ok_simps [simp]:
  "json_ok JNull" "json_ok (JBool b)" "json_ok (JNum x)" "json_ok (JInt i)" "json_ok (JStr s)" "json_ok (JArr vs)" "json_ok (JObj m)"

lemma json_ok_member: "json_ok (JObj m) \<Longrightarrow> map_of m k = Some v \<Longrightarrow> json_ok v"
  by (auto dest!: map_of_SomeD)

lemma jget_merged_hit:
  "json_ok (JObj src) \<Longrightarrow> jget p (JObj src) = Some v \<Longrightarrow> \<not> is_obj v \<Longrightarrow>
   jget p (JObj (DeepMerge dst src)) = Some v"
proof (induction p arbitrary: dst src)
  case Nil
  then show ?case by (auto simp: is_obj_def)
next
  case (Cons k p)
  from Cons.prems(2) obtain x where x: "map_of src k = Some x" "jget p x = Some v"
    by (auto split: option.splits)
  have d: "distinct (map fst src)" "json_ok x"
    using Cons.prems(1) json_ok_member x by auto
  have "jget p (merged (map_of dst k) x) = Some v"
    using Cons.IH [of _ _] d x Cons.prems(3)
    by (auto simp: merged_def split: option.splits json.splits)
  then show ?case by (simp add: DeepMerge_lookup [OF d(1)] x)
qed

text \<open>A path that the override does not reach: walking along it in the override ends at a
  missing member, never at a value that replaces the rest.\<close>

fun untouched :: "string list \<Rightarrow> json \<Rightarrow> bool" where
  "untouched (k # ks) (JObj m) = (case map_of m k of None \<Rightarrow> True | Some v \<Rightarrow> untouched ks v)"
| "untouched _ _ = False"

lemma jget_untouched: "untouched p v \<Longrightarrow> jget p v = None"
  by (induction p v rule: untouched.induct) (auto split: option.splits)

lemma jget_merged_miss:
  "json_ok (JObj src) \<Longrightarrow> untouched p (JObj src) \<Longrightarrow>
   jget p (JObj (DeepMerge dst src)) = jget p (JObj dst)"
proof (induction p arbitrary: dst src)
  case (Cons k p)
  have d: "distinct (map fst src)" using Cons.prems(1) by simp
  show ?case
  proof (cases "map_of src k")
    case None
    then show ?thesis by (simp add: DeepMerge_lookup [OF d])
  next
    case (Some x)
    then have u: "untouched p x" "json_ok x" using Cons.prems json_ok_member by auto
    then obtain s where s: "x = JObj s" "p \<noteq> []" by (cases p; cases x) auto
    have none: "jget p x = None" using jget_untouched u(1) .
    have "jget p (merged (Some y) x) = jget p y" for y
      using Cons.IH u s none by (cases y; cases p) (auto simp: merged_def)
    moreover have "jget p (merged None x) = None" using none by (simp add: merged_def)
    ultimately show ?thesis
      by (simp add: DeepMerge_lookup [OF d] Some split: option.splits)
  qed
qed simp

section \<open>Properties\<close>

text \<open>C31. The override wins: every value of the override that is not an object is found in the
  merged body at the same path.\<close>

theorem override_wins:
  assumes "json_ok (JObj ov)" "jget p (JObj ov) = Some v" "\<not> is_obj v"
  shows "jget p (JObj (ApplyOverride body ov)) = Some v"
  using jget_merged_hit [OF assms] assms by (cases ov) (auto simp: ApplyOverride_def is_obj_def)

theorem override_wins_witness:
  "jget [''options'', ''seed''] (JObj (ApplyOverride [(''options'', JObj [(''top'', JNum 1)])]
     [(''options'', JObj [(''seed'', JNum 7)])])) = Some (JNum 7)"
  using override_wins [of "[(''options'', JObj [(''seed'', JNum 7)])]" "[''options'', ''seed'']" "JNum 7"]
  by (simp add: is_obj_def)

text \<open>Nothing else changes: a path of the body along which the override has no value reads the same
  after the merge.\<close>

theorem override_keeps:
  assumes "json_ok (JObj ov)" "untouched p (JObj ov)"
  shows "jget p (JObj (ApplyOverride body ov)) = jget p (JObj body)"
  using jget_merged_miss [OF assms] by (simp add: ApplyOverride_def)

theorem override_keeps_witness:
  "jget [''options'', ''top''] (JObj (ApplyOverride [(''options'', JObj [(''top'', JNum 1)])]
     [(''options'', JObj [(''seed'', JNum 7)])])) = Some (JNum 1)"
  using override_keeps [of "[(''options'', JObj [(''seed'', JNum 7)])]" "[''options'', ''top'']"
      "[(''options'', JObj [(''top'', JNum 1)])]"]
  by simp

text \<open>C26. The result does not depend on the order in which the override is iterated.\<close>

theorem merge_order_irrelevant:
  assumes "distinct (map fst ov)" "mset ov' = mset ov"
  shows "map_of (DeepMerge body ov') = map_of (DeepMerge body ov)"
proof -
  have d: "distinct (map fst ov')"
    using assms by (metis mset_eq_imp_distinct_iff mset_map)
  then have "map_of ov' = map_of ov"
    using assms by (metis map_of_eq_Some_iff mset_eq_setD option.exhaust ext)
  then show ?thesis by (auto simp: fun_eq_iff DeepMerge_lookup d assms(1))
qed

theorem merge_order_irrelevant_witness:
  "map_of (DeepMerge [(''a'', JNum 0)] [(''b'', JNull), (''a'', JNum 1)]) =
   map_of (DeepMerge [(''a'', JNum 0)] [(''a'', JNum 1), (''b'', JNull)])"
  by (rule merge_order_irrelevant) simp_all

end
