(* ===== verification/Stream_Forward.thy ===== *)
theory Stream_Forward
  imports Http Go_Json
begin

text \<open>
  The forwarding of event streams, \<^verbatim>\<open>ForwardStream\<close> of \<^verbatim>\<open>internal/proxy/stream.go\<close>, over any
  response writer.  The upstream body is the list of its bytes with the error that ended it,
  if it was not the end of the body.  \<open>ctx_err i\<close> is what the \<open>i\<close>-th look at the context finds.

  Decoding a payload into the two anonymous structs is an argument of the definitions: what
  \<^verbatim>\<open>json.Unmarshal\<close> stores in the struct, or \<open>None\<close> for an error.  The code's own decodings are \<open>json_chunk\<close> and
  \<open>json_sg\<close>, with which \<open>Forward\<close> of theory \<open>Proxy\<close> calls \<open>ForwardStream\<close>; the properties hold for any.

  The line scanner of \<^verbatim>\<open>bufio\<close> is modelled by its result: lines end at a newline or at the end
  of the input, one carriage return before the newline is dropped, and a line that does not
  fit the buffer of 10 MiB ends the scan with an error.
\<close>

section \<open>Lines\<close>

definition newline :: char where
  "newline = CHR 0x0A"

definition carriage_return :: char where
  "carriage_return = CHR 0x0D"

definition max_line :: nat where
  "max_line = 10 * 1024 * 1024"

text \<open>The bytes up to the first newline, and what follows it.\<close>

fun take_line :: "bytes \<Rightarrow> bytes \<times> bytes option" where
  "take_line [] = ([], None)"
| "take_line (c # cs) =
     (if c = newline then ([], Some cs) else (case take_line cs of (l, r) \<Rightarrow> (c # l, r)))"

lemma take_line_rest: "take_line cs = (l, Some r) \<Longrightarrow> cs = l @ newline # r \<and> newline \<notin> set l"
  by (induction cs arbitrary: l) (auto split: prod.splits if_splits)

lemma take_line_end: "take_line cs = (l, None) \<Longrightarrow> cs = l \<and> newline \<notin> set l"
  by (induction cs arbitrary: l) (auto split: prod.splits if_splits)

definition dropCR :: "bytes \<Rightarrow> bytes" where
  "dropCR l = (if l \<noteq> [] \<and> last l = carriage_return then butlast l else l)"

text \<open>The tokens of the scanner, and whether it stopped at a line that is too long.\<close>

function scan_lines :: "bytes \<Rightarrow> bytes list \<times> bool" where
  "scan_lines data =
     (if data = [] then ([], False)
      else case take_line data of
             (l, rest) \<Rightarrow>
               if length l \<ge> max_line then ([], True)
               else (case rest of
                       None \<Rightarrow> ([dropCR l], False)
                     | Some r \<Rightarrow> (case scan_lines r of (ts, tooLong) \<Rightarrow> (dropCR l # ts, tooLong))))"
  by pat_completeness auto
termination
  by (relation "measure length") (auto dest!: take_line_rest [OF sym])

declare scan_lines.simps [simp del]

section \<open>Model\<close>

record StreamResult =
  sr_PromptTokens :: int
  sr_CompletionTokens :: int
  sr_FullContent :: bytes
  sr_RawLines :: "bytes list"

record stream_chunk =
  ch_Contents :: "bytes list"
  ch_Usage :: "(int \<times> int) option"

text \<open>The two decodings of a payload: the OpenAI chunk, and the SGLang usage.\<close>

definition dec_delta :: "bytes \<Rightarrow> jraw \<Rightarrow> bytes \<Rightarrow> bytes option" where
  "dec_delta k v content = (if field_is k ''content'' then decode_string v content else Some content)"

definition dec_choice :: "bytes \<Rightarrow> jraw \<Rightarrow> bytes \<Rightarrow> bytes option" where
  "dec_choice k v content = (if field_is k ''delta'' then decode_struct dec_delta v content else Some content)"

definition dec_two_ints :: "bytes \<Rightarrow> bytes \<Rightarrow> bytes \<Rightarrow> jraw \<Rightarrow> int \<times> int \<Rightarrow> (int \<times> int) option" where
  "dec_two_ints n1 n2 k v u =
     (if field_is k n1 then map_option (\<lambda>x. (x, snd u)) (decode_int v (fst u))
      else if field_is k n2 then map_option (\<lambda>x. (fst u, x)) (decode_int v (snd u))
      else Some u)"

definition dec_chunk_field ::
  "bytes \<Rightarrow> jraw \<Rightarrow> (bytes list \<times> nat) \<times> (int \<times> int) option \<Rightarrow> ((bytes list \<times> nat) \<times> (int \<times> int) option) option" where
  "dec_chunk_field k v st =
     (if field_is k ''choices''
      then map_option (\<lambda>c. (c, snd st)) (decode_slice [] (decode_struct dec_choice) v (fst st))
      else if field_is k ''usage''
      then map_option (\<lambda>u. (fst st, u))
        (decode_ptr (0, 0) (decode_struct (dec_two_ints ''prompt_tokens'' ''completion_tokens'')) v (snd st))
      else Some st)"

definition json_chunk :: "bytes \<Rightarrow> stream_chunk option" where
  "json_chunk payload =
     (case parse_text payload of
        None \<Rightarrow> None
      | Some t \<Rightarrow>
          map_option (\<lambda>((slots, n), u). \<lparr>ch_Contents = take n slots, ch_Usage = u\<rparr>)
            (decode_struct dec_chunk_field t (([], 0), None)))"

definition dec_sg_response :: "bytes \<Rightarrow> jraw \<Rightarrow> int \<times> int \<Rightarrow> (int \<times> int) option" where
  "dec_sg_response k v u =
     (if field_is k ''usage'' then decode_struct (dec_two_ints ''input_tokens'' ''output_tokens'') v u else Some u)"

definition json_sg :: "bytes \<Rightarrow> (int \<times> int) option" where
  "json_sg payload =
     (case parse_text payload of
        None \<Rightarrow> None
      | Some t \<Rightarrow>
          decode_struct (\<lambda>k v u. if field_is k ''response'' then decode_struct dec_sg_response v u else Some u) t (0, 0))"

text \<open>The local variables of the function.\<close>

record stream_acc =
  sa_result :: StreamResult
  sa_content :: bytes
  sa_usageFound :: bool

definition empty_stream_result :: StreamResult where
  "empty_stream_result = \<lparr>sr_PromptTokens = 0, sr_CompletionTokens = 0, sr_FullContent = [], sr_RawLines = []\<rparr>"

definition set_usage :: "stream_acc \<Rightarrow> int \<Rightarrow> int \<Rightarrow> stream_acc" where
  "set_usage acc p c =
     acc\<lparr>sa_result := (sa_result acc)\<lparr>sr_PromptTokens := p, sr_CompletionTokens := c\<rparr>, sa_usageFound := True\<rparr>"

fun add_contents :: "bytes list \<Rightarrow> stream_acc \<Rightarrow> stream_acc" where
  "add_contents [] acc = acc"
| "add_contents (t # ts) acc =
     add_contents ts
       (if t \<noteq> [] then acc\<lparr>sa_content := sa_content acc @ t,
                         sa_result := (sa_result acc)\<lparr>sr_FullContent := sr_FullContent (sa_result acc) @ t\<rparr>\<rparr>
        else acc)"

definition account_payload ::
  "(bytes \<Rightarrow> stream_chunk option) \<Rightarrow> (bytes \<Rightarrow> (int \<times> int) option) \<Rightarrow> bytes \<Rightarrow> stream_acc \<Rightarrow> stream_acc" where
  "account_payload dec_chunk dec_sg payload acc =
     (let acc1 = (case dec_chunk payload of
                    None \<Rightarrow> acc
                  | Some chunk \<Rightarrow>
                      add_contents (ch_Contents chunk)
                        (case ch_Usage chunk of None \<Rightarrow> acc | Some (p, c) \<Rightarrow> set_usage acc p c))
      in if sa_usageFound acc1 then acc1
         else case dec_sg payload of
                None \<Rightarrow> acc1
              | Some (inp, outp) \<Rightarrow> if inp > 0 then set_usage acc1 inp outp else acc1)"

definition data_payload :: "bytes \<Rightarrow> bytes option" where
  "data_payload line =
     (if \<not> HasPrefix line ''data: '' then None
      else if TrimSpace (TrimPrefix line ''data: '') = ''[DONE]'' then None
      else Some (TrimPrefix line ''data: ''))"

definition account_line ::
  "(bytes \<Rightarrow> stream_chunk option) \<Rightarrow> (bytes \<Rightarrow> (int \<times> int) option) \<Rightarrow> bytes \<Rightarrow> stream_acc \<Rightarrow> stream_acc" where
  "account_line dec_chunk dec_sg line acc =
     (case data_payload line of None \<Rightarrow> acc | Some p \<Rightarrow> account_payload dec_chunk dec_sg p acc)"

definition add_raw_line :: "bytes \<Rightarrow> stream_acc \<Rightarrow> stream_acc" where
  "add_raw_line line acc =
     acc\<lparr>sa_result := (sa_result acc)\<lparr>sr_RawLines := sr_RawLines (sa_result acc) @ [line]\<rparr>\<rparr>"

definition flush_if :: "'w writer_ops \<Rightarrow> 'w \<Rightarrow> 'w" where
  "flush_if W w = (case W_Flush W of None \<Rightarrow> w | Some f \<Rightarrow> f w)"

fun stream_loop ::
  "'w writer_ops \<Rightarrow> (bytes \<Rightarrow> stream_chunk option) \<Rightarrow> (bytes \<Rightarrow> (int \<times> int) option) \<Rightarrow>
   (nat \<Rightarrow> goerror option) \<Rightarrow> nat \<Rightarrow> bytes list \<Rightarrow> stream_acc \<Rightarrow> 'w \<Rightarrow> (goerror option \<times> stream_acc) \<times> 'w" where
  "stream_loop W dc ds ctx_err i [] acc w = ((None, acc), w)"
| "stream_loop W dc ds ctx_err i (line # lines) acc w =
     (case ctx_err i of
        Some e \<Rightarrow> ((Some e, acc), w)
      | None \<Rightarrow>
          let acc1 = add_raw_line line acc
          in (case W_Write W w (line @ [newline]) of
                ((_, Some e), w1) \<Rightarrow> ((Some e, acc1), w1)
              | ((_, None), w1) \<Rightarrow>
                  stream_loop W dc ds ctx_err (Suc i) lines (account_line dc ds line acc1) (flush_if W w1)))"

definition err_too_long :: goerror where
  "err_too_long = \<lparr>err_text = ''bufio.Scanner: token too long'', err_deadline = False, err_canceled = False\<rparr>"

definition estimate_tokens :: "bytes \<Rightarrow> int" where
  "estimate_tokens content =
     (let runes = rune_count content in if runes = 0 then 0 else max 1 (int (runes div 2)))"

definition ForwardStream ::
  "'w writer_ops \<Rightarrow> (bytes \<Rightarrow> stream_chunk option) \<Rightarrow> (bytes \<Rightarrow> (int \<times> int) option) \<Rightarrow>
   (nat \<Rightarrow> goerror option) \<Rightarrow> bytes \<Rightarrow> goerror option \<Rightarrow> 'w \<Rightarrow> (StreamResult \<times> goerror option) \<times> 'w" where
  "ForwardStream W dc ds ctx_err up_body up_err w =
     (let (ts, tooLong) = scan_lines up_body;
          scan_err = (if tooLong then Some err_too_long else up_err);
          acc0 = \<lparr>sa_result = empty_stream_result, sa_content = [], sa_usageFound = False\<rparr>
      in (case stream_loop W dc ds ctx_err 0 ts acc0 w of
            ((Some e, acc), w') \<Rightarrow> ((sa_result acc, Some e), w')
          | ((None, acc), w') \<Rightarrow>
              (case scan_err of
                 Some e \<Rightarrow> ((sa_result acc, Some e), w')
               | None \<Rightarrow>
                   ((if sa_usageFound acc then sa_result acc
                     else (sa_result acc)\<lparr>sr_CompletionTokens := estimate_tokens (sa_content acc)\<rparr>, None), w'))))"

section \<open>What is written\<close>

text \<open>A prefix of the lines, each with its newline, and possibly part of the next one.\<close>

definition with_newlines :: "bytes list \<Rightarrow> bytes" where
  "with_newlines ts = concat (map (\<lambda>l. l @ [newline]) ts)"

lemma with_newlines_simps [simp]:
  "with_newlines [] = []" "with_newlines (l # ts) = l @ newline # with_newlines ts"
  by (simp_all add: with_newlines_def)

lemma add_contents_raw [simp]: "sr_RawLines (sa_result (add_contents ts acc)) = sr_RawLines (sa_result acc)"
  by (induction ts arbitrary: acc) auto

lemma account_line_raw [simp]:
  "sr_RawLines (sa_result (account_line dc ds l acc)) = sr_RawLines (sa_result acc)"
  by (simp add: account_line_def account_payload_def set_usage_def Let_def split: option.splits prod.splits)

context http_writer
begin

lemma flush_if_same:
  "good w \<Longrightarrow> status w = Some c \<Longrightarrow>
   good (flush_if W w) \<and> status (flush_if W w) = Some c \<and> body (flush_if W w) = body w"
  using flush_same by (auto simp: flush_if_def split: option.splits)

lemma stream_loop_spec:
  assumes "good w" "status w = Some c"
    and "stream_loop W dc ds ctx_err i ts acc w = ((e, acc'), w')"
  shows "good w' \<and> status w' = Some c \<and>
    (\<exists>k part. k \<le> length ts \<and> body w' = body w @ with_newlines (take k ts) @ part \<and>
      (if e = None then k = length ts \<and> part = [] \<and> acc' = fold (\<lambda>l a. account_line dc ds l (add_raw_line l a)) ts acc
       else part = [] \<or> (\<exists>l n. k < length ts \<and> l = ts ! k \<and> part = take n (l @ [newline]))))"
  using assms
proof (induction ts arbitrary: i acc w)
  case (Cons l ts)
  show ?case
  proof (cases "ctx_err i")
    case (Some err)
    then show ?thesis using Cons.prems by (auto intro!: exI [of _ 0])
  next
    case None
    obtain n e1 w1 where wr: "W_Write W w (l @ [newline]) = ((n, e1), w1)" by (metis surj_pair)
    note wb = write_bytes [OF Cons.prems(1,2) wr]
    show ?thesis
    proof (cases e1)
      case (Some err)
      then have "e = Some err" "w' = w1" using Cons.prems(3) None wr by (auto simp: Let_def)
      then show ?thesis using wb by (intro conjI exI [of _ 0] exI [of _ "take n (l @ [newline])"]) auto
    next
      case e1: None
      have st: "stream_loop W dc ds ctx_err (Suc i) ts (account_line dc ds l (add_raw_line l acc)) (flush_if W w1) = ((e, acc'), w')"
        using Cons.prems(3) None wr e1 by (simp add: Let_def)
      have w1: "good w1" "status w1 = Some c" "body w1 = body w @ l @ [newline]" using wb e1 by auto
      from Cons.IH [OF _ _ st] flush_if_same [OF w1(1,2)]
      obtain k part where ih: "good w'" "status w' = Some c" "k \<le> length ts"
          "body w' = body w1 @ with_newlines (take k ts) @ part"
          "if e = None then k = length ts \<and> part = [] \<and>
             acc' = fold (\<lambda>l a. account_line dc ds l (add_raw_line l a)) ts (account_line dc ds l (add_raw_line l acc))
           else part = [] \<or> (\<exists>l n. k < length ts \<and> l = ts ! k \<and> part = take n (l @ [newline]))"
        by auto
      show ?thesis
        using ih w1(3) by (intro conjI exI [of _ "Suc k"] exI [of _ part]) (auto split: if_splits)
    qed
  qed
qed (auto intro: exI [of _ 0])

end

section \<open>Lines and bytes\<close>

lemma scan_lines_roundtrip:
  assumes "snd (scan_lines data) = False" "data = [] \<or> last data = newline"
    and "\<And>a b. data \<noteq> a @ carriage_return # newline # b"
  shows "with_newlines (fst (scan_lines data)) = data"
  using assms
proof (induction data rule: scan_lines.induct)
  case (1 data)
  show ?case
  proof (cases "data = []")
    case True
    then show ?thesis by (simp add: scan_lines.simps)
  next
    case False
    obtain l rest where t: "take_line data = (l, rest)" by (meson surj_pair)
    obtain r where r: "rest = Some r"
    proof (cases rest)
      case None
      then show ?thesis using take_line_end [of data l] t False "1.prems"(2) last_in_set [of data] by auto
    qed (rule that)
    have d: "data = l @ newline # r" using take_line_rest [of data l r] t r by simp
    have short: "\<not> length l \<ge> max_line" and rest: "snd (scan_lines r) = False"
      using "1.prems"(1) False t r by (auto simp: scan_lines.simps [of data] split: if_splits prod.splits)
    have cr: "dropCR l = l"
    proof (cases "l \<noteq> [] \<and> last l = carriage_return")
      case True
      then have "data = butlast l @ carriage_return # newline # r"
        using d append_butlast_last_id [of l] by (metis append_assoc append_Cons append_Nil)
      then show ?thesis using "1.prems"(3) by blast
    qed (auto simp: dropCR_def)
    have "with_newlines (fst (scan_lines r)) = r"
    proof (rule "1.IH" [OF False t [symmetric] short r rest])
      show "r = [] \<or> last r = newline" using "1.prems"(2) False d by (auto split: if_splits)
      show "\<And>a b. r \<noteq> a @ carriage_return # newline # b"
        using "1.prems"(3) d by (metis append_Cons append_assoc)
    qed
    moreover have "scan_lines data = (l # fst (scan_lines r), snd (scan_lines r))"
      using False t r short cr by (simp add: scan_lines.simps [of data] split: prod.splits)
    ultimately show ?thesis using d by simp
  qed
qed

section \<open>Token accounting\<close>

text \<open>What the accounts should be: the last usage in OpenAI style if there is one, otherwise the
  first one in SGLang style with a positive input count, otherwise none.\<close>

definition openai_usages :: "(bytes \<Rightarrow> stream_chunk option) \<Rightarrow> bytes list \<Rightarrow> (int \<times> int) list" where
  "openai_usages dc ps = List.map_filter (\<lambda>p. case dc p of None \<Rightarrow> None | Some ch \<Rightarrow> ch_Usage ch) ps"

definition sg_usages :: "(bytes \<Rightarrow> (int \<times> int) option) \<Rightarrow> bytes list \<Rightarrow> (int \<times> int) list" where
  "sg_usages ds ps = filter (\<lambda>u. fst u > 0) (List.map_filter ds ps)"

definition stream_contents :: "(bytes \<Rightarrow> stream_chunk option) \<Rightarrow> bytes list \<Rightarrow> bytes" where
  "stream_contents dc ps = concat (map (\<lambda>p. case dc p of None \<Rightarrow> [] | Some ch \<Rightarrow> concat (ch_Contents ch)) ps)"

definition acc_usage :: "stream_acc \<Rightarrow> (int \<times> int) option" where
  "acc_usage acc =
     (if sa_usageFound acc
      then Some (sr_PromptTokens (sa_result acc), sr_CompletionTokens (sa_result acc)) else None)"

definition usage_spec ::
  "(bytes \<Rightarrow> stream_chunk option) \<Rightarrow> (bytes \<Rightarrow> (int \<times> int) option) \<Rightarrow> (int \<times> int) option \<Rightarrow> bytes list \<Rightarrow>
   (int \<times> int) option" where
  "usage_spec dc ds u ps =
     (if openai_usages dc ps \<noteq> [] then Some (last (openai_usages dc ps))
      else if u \<noteq> None then u
      else if sg_usages ds ps \<noteq> [] then Some (hd (sg_usages ds ps)) else None)"

lemma map_filter_Cons:
  "List.map_filter f (x # xs) = (case f x of None \<Rightarrow> List.map_filter f xs | Some y \<Rightarrow> y # List.map_filter f xs)"
  by (simp add: map_filter_def split: option.splits)

lemma add_contents_fields:
  "sa_content (add_contents ts acc) = sa_content acc @ concat ts"
  "sr_FullContent (sa_result (add_contents ts acc)) = sr_FullContent (sa_result acc) @ concat ts"
  "sa_usageFound (add_contents ts acc) = sa_usageFound acc"
  "sr_PromptTokens (sa_result (add_contents ts acc)) = sr_PromptTokens (sa_result acc)"
  "sr_CompletionTokens (sa_result (add_contents ts acc)) = sr_CompletionTokens (sa_result acc)"
  by (induction ts arbitrary: acc) auto

lemma account_payload_usage:
  "acc_usage (account_payload dc ds p acc) =
     (case (case dc p of None \<Rightarrow> None | Some ch \<Rightarrow> ch_Usage ch) of
        Some u \<Rightarrow> Some u
      | None \<Rightarrow> if acc_usage acc \<noteq> None then acc_usage acc
                else case ds p of Some u \<Rightarrow> if fst u > 0 then Some u else None | None \<Rightarrow> None)"
  by (auto simp: account_payload_def acc_usage_def set_usage_def add_contents_fields Let_def
      split: option.splits prod.splits)

lemma account_payload_content:
  "sa_content (account_payload dc ds p acc) =
     sa_content acc @ (case dc p of None \<Rightarrow> [] | Some ch \<Rightarrow> concat (ch_Contents ch))"
  by (auto simp: account_payload_def set_usage_def add_contents_fields Let_def split: option.splits prod.splits)

lemma account_payloads:
  "acc_usage (fold (account_payload dc ds) ps acc) = usage_spec dc ds (acc_usage acc) ps"
proof (induction ps arbitrary: acc)
  case Nil
  show ?case by (cases "acc_usage acc") (simp_all add: usage_spec_def openai_usages_def sg_usages_def map_filter_def)
next
  case (Cons p ps)
  define x where "x = (case dc p of None \<Rightarrow> None | Some ch \<Rightarrow> ch_Usage ch)"
  have ou: "openai_usages dc (p # ps) = (case x of None \<Rightarrow> openai_usages dc ps | Some u \<Rightarrow> u # openai_usages dc ps)"
    unfolding openai_usages_def map_filter_Cons x_def ..
  have sg: "sg_usages ds (p # ps) =
      (case ds p of None \<Rightarrow> sg_usages ds ps | Some u \<Rightarrow> if fst u > 0 then u # sg_usages ds ps else sg_usages ds ps)"
    by (simp add: sg_usages_def map_filter_Cons split: option.splits)
  show ?case
    unfolding fold.simps comp_apply Cons account_payload_usage x_def [symmetric] usage_spec_def ou sg
    by (cases x; cases "acc_usage acc"; cases "ds p") auto
qed

lemma account_payloads_content:
  "sa_content (fold (account_payload dc ds) ps acc) = sa_content acc @ stream_contents dc ps"
  by (induction ps arbitrary: acc) (simp_all add: account_payload_content stream_contents_def)

text \<open>The raw lines do not influence the accounts.\<close>

lemma account_raw: "account_payload dc ds p (add_raw_line l acc) = add_raw_line l (account_payload dc ds p acc)"
proof -
  have c: "add_contents ts (add_raw_line l a) = add_raw_line l (add_contents ts a)" for ts a
  proof (induction ts arbitrary: a)
    case (Cons t ts)
    have "(add_raw_line l a)\<lparr>sa_content := sa_content (add_raw_line l a) @ t, sa_result := (sa_result (add_raw_line l a))
        \<lparr>sr_FullContent := sr_FullContent (sa_result (add_raw_line l a)) @ t\<rparr>\<rparr> =
      add_raw_line l (a\<lparr>sa_content := sa_content a @ t,
        sa_result := (sa_result a)\<lparr>sr_FullContent := sr_FullContent (sa_result a) @ t\<rparr>\<rparr>)"
      by (simp add: add_raw_line_def)
    then show ?case by (cases "t = []") (simp_all add: Cons.IH)
  qed simp
  have u: "set_usage (add_raw_line l a) x y = add_raw_line l (set_usage a x y)"
      "sa_usageFound (add_raw_line l a) = sa_usageFound a" for a x y
    by (simp_all add: set_usage_def add_raw_line_def)
  show ?thesis by (simp add: account_payload_def Let_def u c split: option.splits prod.splits)
qed

lemma account_lines:
  "fold (\<lambda>l a. account_line dc ds l (add_raw_line l a)) ts acc =
   fold add_raw_line ts (fold (account_payload dc ds) (List.map_filter data_payload ts) acc)"
proof (induction ts arbitrary: acc)
  case (Cons l ts)
  have f: "fold (account_payload dc ds) ps (add_raw_line l a) = add_raw_line l (fold (account_payload dc ds) ps a)"
    for ps a by (induction ps arbitrary: a) (simp_all add: account_raw)
  show ?case
    using Cons by (cases "data_payload l") (simp_all add: account_line_def map_filter_Cons f account_raw)
qed (simp add: map_filter_def)

lemma add_raw_lines:
  "acc_usage (fold add_raw_line ts acc) = acc_usage acc \<and> sa_content (fold add_raw_line ts acc) = sa_content acc \<and>
   sr_RawLines (sa_result (fold add_raw_line ts acc)) = sr_RawLines (sa_result acc) @ ts"
proof (induction ts arbitrary: acc)
  case (Cons l ts)
  have "acc_usage (add_raw_line l acc) = acc_usage acc"
    by (simp add: acc_usage_def add_raw_line_def)
  then show ?case using Cons [of "add_raw_line l acc"] by (simp add: add_raw_line_def)
qed simp

lemma account_payloads_raw:
  "sr_RawLines (sa_result (fold (account_payload dc ds) ps acc)) = sr_RawLines (sa_result acc)"
proof (induction ps arbitrary: acc)
  case (Cons p ps)
  have "sr_RawLines (sa_result (account_payload dc ds p acc)) = sr_RawLines (sa_result acc)"
    by (simp add: account_payload_def set_usage_def Let_def split: option.splits prod.splits)
  then show ?case using Cons by simp
qed simp

lemma account_payloads_unset:
  "\<not> sa_usageFound (fold (account_payload dc ds) ps acc) \<Longrightarrow>
   sr_PromptTokens (sa_result (fold (account_payload dc ds) ps acc)) = sr_PromptTokens (sa_result acc)"
proof (induction ps arbitrary: acc)
  case (Cons p ps)
  define a where "a = account_payload dc ds p acc"
  have "usage_spec dc ds (acc_usage a) ps = None"
    using Cons.prems account_payloads [of dc ds ps a] by (simp add: a_def acc_usage_def)
  then have "\<not> sa_usageFound a"
    by (auto simp: usage_spec_def acc_usage_def split: if_splits)
  then have "sr_PromptTokens (sa_result a) = sr_PromptTokens (sa_result acc)"
    by (auto simp: a_def account_payload_def set_usage_def add_contents_fields Let_def
        split: option.splits prod.splits if_splits)
  then show ?case using Cons by (simp add: a_def)
qed simp

text \<open>The token counts a stream is reported with.\<close>

definition stream_tokens ::
  "(bytes \<Rightarrow> stream_chunk option) \<Rightarrow> (bytes \<Rightarrow> (int \<times> int) option) \<Rightarrow> bytes list \<Rightarrow> int \<times> int" where
  "stream_tokens dc ds ts =
     (let ps = List.map_filter data_payload ts
      in case usage_spec dc ds None ps of
           Some u \<Rightarrow> u
         | None \<Rightarrow> (0, estimate_tokens (stream_contents dc ps)))"

lemma stream_accounts:
  assumes acc0_def: "acc0 = \<lparr>sa_result = empty_stream_result, sa_content = [], sa_usageFound = False\<rparr>"
    and acc_def: "acc = fold (\<lambda>l a. account_line dc ds l (add_raw_line l a)) ts acc0"
    and res_def: "res = (if sa_usageFound acc then sa_result acc
     else (sa_result acc)\<lparr>sr_CompletionTokens := estimate_tokens (sa_content acc)\<rparr>)"
  shows "sr_RawLines res = ts \<and> (sr_PromptTokens res, sr_CompletionTokens res) = stream_tokens dc ds ts"
proof -
  define ps where "ps = List.map_filter data_payload ts"
  define b where "b = fold (account_payload dc ds) ps acc0"
  have a: "acc = fold add_raw_line ts b" by (simp add: acc_def b_def ps_def account_lines)
  have au: "acc_usage acc = usage_spec dc ds None ps" "sa_content acc = stream_contents dc ps"
      "sr_RawLines (sa_result acc) = ts"
    using add_raw_lines [of ts b] account_payloads [of dc ds ps acc0] account_payloads_content [of dc ds ps acc0]
      account_payloads_raw [of dc ds ps acc0]
    by (simp_all add: a b_def acc0_def acc_usage_def empty_stream_result_def)
  have raw: "sr_PromptTokens (sa_result (fold add_raw_line ts b)) = sr_PromptTokens (sa_result b) \<and>
      sa_usageFound (fold add_raw_line ts b) = sa_usageFound b" for b :: stream_acc
    by (induction ts arbitrary: b) (simp_all add: add_raw_line_def)
  have "\<not> sa_usageFound acc \<Longrightarrow> sr_PromptTokens (sa_result acc) = 0"
    using account_payloads_unset [of dc ds ps acc0] raw [of b]
    by (simp add: a b_def) (simp add: acc0_def empty_stream_result_def)
  then show ?thesis
    using au by (cases "sa_usageFound acc")
      (auto simp: res_def stream_tokens_def ps_def [symmetric] acc_usage_def Let_def split: option.splits)
qed

context http_writer
begin

lemma ForwardStream_cases:
  assumes w: "good w" "status w = Some c"
    and run: "ForwardStream W dc ds ctx_err b e w = ((res, err), w')"
  shows "good w' \<and> status w' = Some c \<and>
    (err = None \<longrightarrow> \<not> snd (scan_lines b) \<and> e = None \<and>
       body w' = body w @ with_newlines (fst (scan_lines b)) \<and> sr_RawLines res = fst (scan_lines b) \<and>
       (sr_PromptTokens res, sr_CompletionTokens res) = stream_tokens dc ds (fst (scan_lines b)))"
proof -
  obtain ts tl where sl: "scan_lines b = (ts, tl)" by (meson surj_pair)
  define acc0 where "acc0 = \<lparr>sa_result = empty_stream_result, sa_content = [], sa_usageFound = False\<rparr>"
  obtain e1 acc where lp: "stream_loop W dc ds ctx_err 0 ts acc0 w = ((e1, acc), w')"
    using run by (auto simp: ForwardStream_def sl acc0_def Let_def split: prod.splits option.splits)
  note spec = stream_loop_spec [OF w lp]
  have none: "e1 = None \<and> \<not> tl \<and> e = None \<and>
      res = (if sa_usageFound acc then sa_result acc
         else (sa_result acc)\<lparr>sr_CompletionTokens := estimate_tokens (sa_content acc)\<rparr>)" if "err = None"
    using run lp that by (auto simp: ForwardStream_def sl acc0_def [symmetric] Let_def split: option.splits if_splits)
  show ?thesis
  proof (cases "err = None")
    case True
    then have "acc = fold (\<lambda>l a. account_line dc ds l (add_raw_line l a)) ts acc0"
      and "body w' = body w @ with_newlines ts"
      using spec none by auto
    then show ?thesis using none True spec stream_accounts [OF acc0_def, of acc dc ds ts res] sl by auto
  next
    case False
    then show ?thesis using spec sl by auto
  qed
qed

end

text \<open>The loop over the client's writer, with the reason why it stopped.\<close>

definition loop_stop ::
  "(nat \<Rightarrow> goerror option) \<Rightarrow> nat \<Rightarrow> ResponseWriter \<Rightarrow> bytes list \<Rightarrow> goerror option \<Rightarrow> ResponseWriter \<Rightarrow> bool" where
  "loop_stop ctx_err i w ts err w' =
    (case err of
       None \<Rightarrow> (\<forall>k<length ts. ctx_err (i + k) = None \<and> rw_fault w (rw_writes w + k) = None) \<and>
         rw_body w' = rw_body w @ with_newlines ts
     | Some x \<Rightarrow>
         (\<exists>k<length ts. ctx_err (i + k) = Some x \<and> rw_body w' = rw_body w @ with_newlines (take k ts)) \<or>
         (\<exists>k<length ts. \<exists>n. rw_fault w (rw_writes w + k) = Some (n, x) \<and>
            rw_body w' = rw_body w @ with_newlines (take k ts) @ take n (ts ! k @ [newline])))"

lemma loop_stop_Cons:
  assumes "loop_stop ctx_err (Suc i) w1 ts err w'" "ctx_err i = None" "rw_fault w (rw_writes w) = None"
    and "rw_fault w1 = rw_fault w" "rw_writes w1 = Suc (rw_writes w)" "rw_body w1 = rw_body w @ l @ [newline]"
  shows "loop_stop ctx_err i w (l # ts) err w'"
proof (cases err)
  case None
  then show ?thesis using assms by (auto simp: loop_stop_def less_Suc_eq_0_disj)
next
  case (Some x)
  from assms(1) consider
      k where "k < length ts" "ctx_err (Suc i + k) = Some x" "rw_body w' = rw_body w1 @ with_newlines (take k ts)"
    | k n where "k < length ts" "rw_fault w1 (rw_writes w1 + k) = Some (n, x)"
        "rw_body w' = rw_body w1 @ with_newlines (take k ts) @ take n (ts ! k @ [newline])"
    unfolding loop_stop_def Some by auto
  then show ?thesis
  proof cases
    case 1
    then show ?thesis using assms(4-) unfolding loop_stop_def Some
      by (simp, intro disjI1 exI [of _ "Suc k"]) simp
  next
    case 2
    then show ?thesis using assms(4-) unfolding loop_stop_def Some
      by (simp, intro disjI2 exI [of _ "Suc k"]) (auto intro: exI [of _ n])
  qed
qed

lemma stream_loop_rw:
  assumes "rw_status w = Some c" "stream_loop rw_ops dc ds ctx_err i ts acc w = ((err, acc'), w')"
  shows "rw_status w' = Some c \<and> loop_stop ctx_err i w ts err w'"
  using assms
proof (induction ts arbitrary: i acc w)
  case Nil
  then show ?case by (simp add: loop_stop_def)
next
  case (Cons l ts)
  show ?case
  proof (cases "ctx_err i")
    case (Some x)
    then have "w' = w" "err = Some x" using Cons.prems by auto
    then show ?thesis using Cons.prems(1) Some by (auto simp: loop_stop_def intro: exI [of _ 0])
  next
    case None
    show ?thesis
    proof (cases "rw_fault w (rw_writes w)")
      case f: None
      define w1 where "w1 = flush_if rw_ops (snd (rw_Write w (l @ [newline])))"
      have w1: "rw_status w1 = Some c" "rw_fault w1 = rw_fault w" "rw_writes w1 = Suc (rw_writes w)"
          "rw_body w1 = rw_body w @ l @ [newline]"
        using Cons.prems(1) f by (simp_all add: w1_def flush_if_def rw_ops_def rw_Flush_def rw_Write_def rw_begin_def)
      have "stream_loop rw_ops dc ds ctx_err (Suc i) ts (account_line dc ds l (add_raw_line l acc)) w1 = ((err, acc'), w')"
        using Cons.prems(2) None f by (simp add: w1_def rw_ops_def rw_Write_def Let_def)
      from Cons.IH [OF w1(1) this] show ?thesis using loop_stop_Cons [of ctx_err i w1 ts err w' w l] None f w1 by simp
    next
      case (Some a)
      obtain n x where a: "a = (n, x)" by (cases a)
      have "err = Some x" "rw_status w' = Some c" "rw_body w' = rw_body w @ take n (l @ [newline])"
        using Cons.prems None Some a by (auto simp: rw_ops_def rw_Write_def rw_begin_def Let_def)
      then show ?thesis using Some a unfolding loop_stop_def
        by (simp, intro disjI2 exI [of _ 0] exI [of _ n]) simp
    qed
  qed
qed

section \<open>Properties\<close>

text \<open>C29. A stream that ends without error has been delivered in full, line by line, after what the
  client had before: no line was too long, the upstream body ended without error, and at no line was the context done or the write refused.
  Otherwise the error is that of the scanner, after all lines have been delivered; or that of the context at
  some line, after exactly the lines before it; or that of the write of some line, after the
  lines before it and as many bytes of this one as the failing write took.  The status is never touched.\<close>

theorem stream_delivered:
  assumes "rw_status w = Some c" "ForwardStream rw_ops dc ds ctx_err b e w = ((res, err), w')" "scan_lines b = (ts, tooLong)"
  shows "rw_status w' = Some c \<and>
    (case err of
       None \<Rightarrow> \<not> tooLong \<and> e = None \<and> (\<forall>k<length ts. ctx_err k = None \<and> rw_fault w (rw_writes w + k) = None) \<and>
         rw_body w' = rw_body w @ with_newlines ts \<and> sr_RawLines res = ts
     | Some x \<Rightarrow>
         Some x = (if tooLong then Some err_too_long else e) \<and> rw_body w' = rw_body w @ with_newlines ts \<or>
         (\<exists>k<length ts. ctx_err k = Some x \<and> rw_body w' = rw_body w @ with_newlines (take k ts)) \<or>
         (\<exists>k<length ts. \<exists>n. rw_fault w (rw_writes w + k) = Some (n, x) \<and>
            rw_body w' = rw_body w @ with_newlines (take k ts) @ take n (ts ! k @ [newline])))"
proof -
  define acc0 where "acc0 = \<lparr>sa_result = empty_stream_result, sa_content = [], sa_usageFound = False\<rparr>"
  obtain e1 acc where lp: "stream_loop rw_ops dc ds ctx_err 0 ts acc0 w = ((e1, acc), w')"
    using assms(2,3) by (auto simp: ForwardStream_def acc0_def Let_def split: prod.splits option.splits)
  have "sr_RawLines res = ts" if "err = None"
    using rw.ForwardStream_cases [OF _ assms(1,2)] that assms(3) by simp
  then show ?thesis
    using stream_loop_rw [OF assms(1) lp] assms(2) lp unfolding loop_stop_def
    by (cases e1) (auto simp: ForwardStream_def assms(3) acc0_def [symmetric] Let_def split: option.splits if_splits)
qed

definition sample_sse :: bytes where
  "sample_sse = ''data: x'' @ [newline] @ ''data: [DONE]'' @ [newline]"

definition started_writer :: ResponseWriter where
  "started_writer = \<lparr>rw_header = [], rw_status = Some 200, rw_sent = [], rw_body = [], rw_writes = 0,
     rw_flushes = 0, rw_fault = (\<lambda>_. None)\<rparr>"

lemma sample_scan: "scan_lines sample_sse = ([''data: x'', ''data: [DONE]''], False)"
  by (simp add: sample_sse_def scan_lines.simps newline_def max_line_def dropCR_def carriage_return_def)

lemma sample_bytes: "with_newlines [''data: x'', ''data: [DONE]''] = sample_sse"
  by (simp add: sample_sse_def)

lemma sample_stream:
  "\<exists>res w'. ForwardStream rw_ops (\<lambda>_. None) (\<lambda>_. Some (3, 4)) (\<lambda>_. None) sample_sse None started_writer = ((res, None), w')"
  by (simp add: ForwardStream_def sample_scan rw_ops_def rw_Write_def started_writer_def rw_begin_def
      rw_Flush_def flush_if_def Let_def)

theorem stream_delivered_witness:
  "\<exists>res w'. ForwardStream rw_ops (\<lambda>_. None) (\<lambda>_. Some (3, 4)) (\<lambda>_. None) sample_sse None started_writer = ((res, None), w') \<and>
     rw_body w' = sample_sse"
proof -
  obtain res w' where r:
    "ForwardStream rw_ops (\<lambda>_. None) (\<lambda>_. Some (3, 4)) (\<lambda>_. None) sample_sse None started_writer = ((res, None), w')"
    using sample_stream by blast
  then show ?thesis
    using stream_delivered [OF _ r sample_scan, of 200] sample_bytes by (simp add: started_writer_def)
qed

text \<open>A stream in the usual form, every line ended by a single newline and short enough, reaches the
  client byte for byte.\<close>

theorem stream_verbatim:
  assumes "rw_status w = Some c" "ForwardStream rw_ops dc ds ctx_err b e w = ((res, None), w')"
    and "b = [] \<or> last b = newline" "\<And>x y. b \<noteq> x @ carriage_return # newline # y"
  shows "rw_body w' = rw_body w @ b"
proof -
  note spec = rw.ForwardStream_cases [OF _ assms(1,2), simplified]
  then have "with_newlines (fst (scan_lines b)) = b"
    using scan_lines_roundtrip [OF _ assms(3,4)] by blast
  then show ?thesis using spec by simp
qed

theorem stream_verbatim_witness:
  "\<exists>res w'. ForwardStream rw_ops (\<lambda>_. None) (\<lambda>_. Some (3, 4)) (\<lambda>_. None) sample_sse None started_writer = ((res, None), w') \<and>
     rw_body w' = rw_body started_writer @ sample_sse"
proof -
  obtain res w' where r:
    "ForwardStream rw_ops (\<lambda>_. None) (\<lambda>_. Some (3, 4)) (\<lambda>_. None) sample_sse None started_writer = ((res, None), w')"
    using sample_stream by blast
  have "carriage_return \<notin> set sample_sse"
    by (simp add: sample_sse_def newline_def carriage_return_def)
  then have "sample_sse \<noteq> x @ carriage_return # newline # y" for x y
    by (metis in_set_conv_decomp)
  then have "rw_body w' = rw_body started_writer @ sample_sse"
    by (intro stream_verbatim [OF _ r, of 200]) (simp_all add: started_writer_def sample_sse_def)
  then show ?thesis using r by blast
qed



end
