(* ===== verification/Proxy.thy ===== *)
theory Proxy
  imports Json_Merge Stream_Forward Recorder
begin

text \<open>
  \<^verbatim>\<open>Proxy.Forward\<close> of \<^verbatim>\<open>internal/proxy/proxy.go\<close>: one request to one upstream node, over any
  response writer.  What lies outside the program is in \<open>proxy_env\<close>: the
  parsing of URLs, the HTTP client and with it the network and the node, the clock, and
  the wording of a JSON error.  Encoding the body cannot fail: it holds only values that were
  decoded from JSON or from the configuration.  The per-request timeout is part of the request handed to the client; an
  expired one shows as an error of the client or of the context.

  A Go \<^verbatim>\<open>map[string]any\<close> is an \<open>option\<close> here, \<open>None\<close> being the nil map that the JSON text \<^verbatim>\<open>null\<close>
  decodes to; storing into it panics, and a panic is the result \<open>None\<close> of \<open>Forward\<close>.  The other panic is that of
  the writer on the status of the node's response.
\<close>

section \<open>Model\<close>

record http_request =
  hr_Method :: string
  hr_RequestURI :: string
  hr_Header :: header
  hr_Body :: "goerror + bytes"

record up_request =
  u_Method :: string
  u_URL :: string
  u_Host :: string
  u_Header :: header
  u_Body :: bytes
  u_Timeout :: duration

text \<open>The body of a response is what can be read of it, and the error after that, if any.\<close>

record up_response =
  resp_Status :: int
  resp_Header :: header
  resp_Body :: bytes
  resp_BodyErr :: "goerror option"

record ForwardResult =
  f_StatusCode :: int
  f_Body :: bytes
  f_Stream :: "StreamResult option"
  f_DurationMs :: int

record proxy_env =
  e_jsonErr :: "bytes \<Rightarrow> goerror"
  e_newRequest :: "string \<Rightarrow> string \<Rightarrow> goerror option"
  e_host :: "string \<Rightarrow> string"
  e_Do :: "up_request \<Rightarrow> goerror + up_response"
  e_ctx_err :: "nat \<Rightarrow> goerror option"
  e_durMs :: int

definition defaultTimeoutSec :: int where
  "defaultTimeoutSec = 120"

definition effective_timeout :: "ModelNode \<Rightarrow> duration" where
  "effective_timeout node =
     i64 ((if n_TimeoutSec node \<le> 0 then defaultTimeoutSec else n_TimeoutSec node) * Second)"

definition parse_body :: "proxy_env \<Rightarrow> bytes \<Rightarrow> goerror + jobject option" where
  "parse_body env rawBody =
     (if length rawBody > 0
      then (case Unmarshal_map rawBody of None \<Rightarrow> Inl (e_jsonErr env rawBody) | Some m \<Rightarrow> Inr m)
      else Inr (Some []))"

text \<open>The two changes of the body; the outer \<open>None\<close> is the panic on a nil map.\<close>

definition set_model :: "ModelNode \<Rightarrow> jobject option \<Rightarrow> jobject option option" where
  "set_model node m =
     (if n_ModelName node \<noteq> []
      then (case m of None \<Rightarrow> None | Some b \<Rightarrow> Some (Some (AList.update ''model'' (JStr (n_ModelName node)) b)))
      else Some m)"

definition apply_override :: "ModelNode \<Rightarrow> jobject option \<Rightarrow> jobject option option" where
  "apply_override node m =
     (case m of
        Some b \<Rightarrow> Some (Some (ApplyOverride b (n_Override node)))
      | None \<Rightarrow> if length (n_Override node) = 0 then Some None else None)"

definition is_stream :: "jobject option \<Rightarrow> bool" where
  "is_stream m =
     (case m of None \<Rightarrow> False
      | Some b \<Rightarrow> (case map_of b ''stream'' of Some (JBool x) \<Rightarrow> x | _ \<Rightarrow> False))"

definition marshal_body :: "jobject option \<Rightarrow> bytes" where
  "marshal_body m = (case m of None \<Rightarrow> ''null'' | Some b \<Rightarrow> Marshal (JObj b))"

definition build_upstream :: "proxy_env \<Rightarrow> ModelNode \<Rightarrow> http_request \<Rightarrow> bytes \<Rightarrow> up_request" where
  "build_upstream env node r body =
     (let url = n_BaseURL node @ hr_RequestURI r;
          h1 = add_headers (hr_Header r) [];
          h2 = header_Set h1 ''Content-Type'' ''application/json'';
          h3 = (if n_APIKey node \<noteq> [] then header_Set h2 ''Authorization'' (''Bearer '' @ n_APIKey node) else h2)
      in \<lparr>u_Method = hr_Method r, u_URL = url, u_Host = e_host env url, u_Header = h3, u_Body = body,
          u_Timeout = effective_timeout node\<rparr>)"

definition stream_header :: "header \<Rightarrow> header" where
  "stream_header h =
     header_Set (header_Set (header_Set (header_Set h ''Transfer-Encoding'' ''chunked'')
       ''Content-Type'' ''text/event-stream'') ''Cache-Control'' ''no-cache'') ''X-Accel-Buffering'' ''no''"

definition forward_stream_response ::
  "proxy_env \<Rightarrow> 'w writer_ops \<Rightarrow> up_response \<Rightarrow> 'w \<Rightarrow> ((ForwardResult option \<times> goerror option) \<times> 'w) option" where
  "forward_stream_response env W resp w =
     (let h = add_headers (resp_Header resp) (W_Header W w);
          result = \<lparr>f_StatusCode = resp_Status resp, f_Body = [], f_Stream = None, f_DurationMs = 0\<rparr>
      in case W_WriteHeader W (W_SetHeader W w (stream_header h)) (resp_Status resp) of
           None \<Rightarrow> None
         | Some w1 \<Rightarrow>
             (case ForwardStream W json_chunk json_sg (e_ctx_err env) (resp_Body resp) (resp_BodyErr resp) w1 of
                ((sr, Some e), w2) \<Rightarrow>
                  Some ((Some (result\<lparr>f_DurationMs := e_durMs env, f_Stream := Some sr\<rparr>),
                         Some (wrap_error ''proxy: stream forward: '' e)), w2)
              | ((sr, None), w2) \<Rightarrow>
                  Some ((Some (result\<lparr>f_Stream := Some sr, f_DurationMs := e_durMs env\<rparr>), None), w2)))"

definition forward_plain_response ::
  "proxy_env \<Rightarrow> 'w writer_ops \<Rightarrow> up_response \<Rightarrow> 'w \<Rightarrow> ((ForwardResult option \<times> goerror option) \<times> 'w) option" where
  "forward_plain_response env W resp w =
     (case resp_BodyErr resp of
        Some e \<Rightarrow> Some ((None, Some (wrap_error ''proxy: read upstream response: '' e)), w)
      | None \<Rightarrow>
          let h = add_headers (resp_Header resp) (W_Header W w);
              result = \<lparr>f_StatusCode = resp_Status resp, f_Body = resp_Body resp, f_Stream = None,
                        f_DurationMs = e_durMs env\<rparr>
          in case W_WriteHeader W (W_SetHeader W w h) (resp_Status resp) of
               None \<Rightarrow> None
             | Some w1 \<Rightarrow>
                 (case W_Write W w1 (resp_Body resp) of
                    ((_, Some e), w2) \<Rightarrow>
                      Some ((Some result, Some (wrap_error ''proxy: write response to client: '' e)), w2)
                  | ((_, None), w2) \<Rightarrow> Some ((Some result, None), w2)))"

definition forward_send ::
  "proxy_env \<Rightarrow> 'w writer_ops \<Rightarrow> ModelNode \<Rightarrow> http_request \<Rightarrow> jobject option \<Rightarrow> 'w \<Rightarrow>
   ((ForwardResult option \<times> goerror option) \<times> 'w) option" where
  "forward_send env W node r bodyMap w =
     (case e_newRequest env (hr_Method r) (n_BaseURL node @ hr_RequestURI r) of
        Some e \<Rightarrow> Some ((None, Some (wrap_error ''proxy: build upstream request: '' e)), w)
      | None \<Rightarrow>
          (case e_Do env (build_upstream env node r (marshal_body bodyMap)) of
             Inl e \<Rightarrow> Some ((None, Some (wrap_error ''proxy: upstream request: '' e)), w)
           | Inr resp \<Rightarrow>
               if is_stream bodyMap then forward_stream_response env W resp w
               else forward_plain_response env W resp w))"

definition Forward ::
  "proxy_env \<Rightarrow> 'w writer_ops \<Rightarrow> ModelNode \<Rightarrow> http_request \<Rightarrow> 'w \<Rightarrow>
   ((ForwardResult option \<times> goerror option) \<times> 'w) option" where
  "Forward env W node r w =
     (case hr_Body r of
        Inl e \<Rightarrow> Some ((None, Some (wrap_error ''proxy: read request body: '' e)), w)
      | Inr rawBody \<Rightarrow>
          (case parse_body env rawBody of
             Inl e \<Rightarrow> Some ((None, Some (wrap_error ''proxy: parse request body: '' e)), w)
           | Inr m \<Rightarrow>
               (case set_model node m of
                  None \<Rightarrow> None
                | Some m1 \<Rightarrow>
                    (case apply_override node m1 of
                       None \<Rightarrow> None
                     | Some m2 \<Rightarrow> forward_send env W node r m2 w))))"

section \<open>Branches\<close>

lemma canonical_names:
  "CanonicalHeaderKey ''Content-Type'' = ''Content-Type''"
  "CanonicalHeaderKey ''Authorization'' = ''Authorization''"
  by code_simp+

text \<open>The body that is sent on, if the request's body can be read, decoded and changed, and the
  response to it.\<close>

definition prepared :: "proxy_env \<Rightarrow> ModelNode \<Rightarrow> http_request \<Rightarrow> jobject option option" where
  "prepared env node r =
     (case hr_Body r of
        Inl _ \<Rightarrow> None
      | Inr raw \<Rightarrow>
          (case parse_body env raw of
             Inl _ \<Rightarrow> None
           | Inr m \<Rightarrow> Option.bind (set_model node m) (apply_override node)))"

definition node_answers :: "proxy_env \<Rightarrow> ModelNode \<Rightarrow> http_request \<Rightarrow> jobject option \<Rightarrow> up_response \<Rightarrow> bool" where
  "node_answers env node r m resp \<longleftrightarrow>
     prepared env node r = Some m \<and> e_newRequest env (hr_Method r) (n_BaseURL node @ hr_RequestURI r) = None \<and>
     e_Do env (build_upstream env node r (marshal_body m)) = Inr resp"

text \<open>A nil map that the node wants to change.\<close>

definition nil_body_changed :: "proxy_env \<Rightarrow> ModelNode \<Rightarrow> http_request \<Rightarrow> bool" where
  "nil_body_changed env node r \<longleftrightarrow>
     (\<exists>raw. hr_Body r = Inr raw \<and> parse_body env raw = Inr None) \<and> (n_ModelName node \<noteq> [] \<or> n_Override node \<noteq> [])"

lemma Forward_prepared:
  assumes "prepared env node r = Some m"
  shows "Forward env W node r w = forward_send env W node r m w"
  using assms by (auto simp: prepared_def Forward_def split: sum.splits option.splits bind_splits)

lemma Forward_unprepared:
  assumes "prepared env node r = None"
  shows "Forward env W node r w =
    (case hr_Body r of
       Inl e \<Rightarrow> Some ((None, Some (wrap_error ''proxy: read request body: '' e)), w)
     | Inr raw \<Rightarrow>
         (case parse_body env raw of
            Inl e \<Rightarrow> Some ((None, Some (wrap_error ''proxy: parse request body: '' e)), w)
          | Inr _ \<Rightarrow> None))"
  using assms by (auto simp: prepared_def Forward_def split: sum.splits option.splits bind_splits)

lemma prepared_None_iff:
  "prepared env node r = None \<longleftrightarrow>
     (\<exists>x. hr_Body r = Inl x) \<or> (\<exists>raw x. hr_Body r = Inr raw \<and> parse_body env raw = Inl x) \<or> nil_body_changed env node r"
  by (auto simp: prepared_def nil_body_changed_def set_model_def apply_override_def
      split: sum.splits option.splits bind_splits if_splits)

lemma forward_stream_result:
  "forward_stream_response env W resp w = Some ((fr, e), w') \<Longrightarrow> fr \<noteq> None"
  by (auto simp: forward_stream_response_def Let_def split: prod.splits option.splits)

lemma forward_stream_None:
  "forward_stream_response env W resp w = None \<longleftrightarrow>
   W_WriteHeader W (W_SetHeader W w (stream_header (add_headers (resp_Header resp) (W_Header W w)))) (resp_Status resp) = None"
  by (auto simp: forward_stream_response_def Let_def split: prod.splits option.splits)

lemma forward_plain_nil:
  "forward_plain_response env W resp w = Some ((None, e), w') \<longleftrightarrow>
   w' = w \<and> (\<exists>x. resp_BodyErr resp = Some x \<and> e = Some (wrap_error ''proxy: read upstream response: '' x))"
  by (auto simp: forward_plain_response_def Let_def split: prod.splits option.splits)

lemma forward_plain_None:
  "forward_plain_response env W resp w = None \<longleftrightarrow> resp_BodyErr resp = None \<and>
   W_WriteHeader W (W_SetHeader W w (add_headers (resp_Header resp) (W_Header W w))) (resp_Status resp) = None"
  by (auto simp: forward_plain_response_def Let_def split: prod.splits option.splits)

lemma forward_send_nil:
  "forward_send env W node r m w = Some ((None, e), w') \<longleftrightarrow> w' = w \<and>
   (case e_newRequest env (hr_Method r) (n_BaseURL node @ hr_RequestURI r) of
      Some x \<Rightarrow> e = Some (wrap_error ''proxy: build upstream request: '' x)
    | None \<Rightarrow>
        (case e_Do env (build_upstream env node r (marshal_body m)) of
           Inl x \<Rightarrow> e = Some (wrap_error ''proxy: upstream request: '' x)
         | Inr resp \<Rightarrow> \<not> is_stream m \<and>
             (\<exists>x. resp_BodyErr resp = Some x \<and> e = Some (wrap_error ''proxy: read upstream response: '' x))))"
  using forward_plain_nil [of env W _ w e w'] forward_stream_result [of env W _ w None e w']
  by (auto simp: forward_send_def split: sum.splits option.splits)

lemma Forward_nil_untouched:
  assumes "Forward env W node r w = Some ((None, e), w')"
  shows "w' = w \<and> (\<exists>x. e = Some x)"
proof (cases "prepared env node r")
  case None
  then show ?thesis using assms by (auto simp: Forward_unprepared split: sum.splits)
next
  case (Some m)
  then show ?thesis using assms by (auto simp: Forward_prepared forward_send_nil split: sum.splits option.splits)
qed

lemma forward_send_None:
  "forward_send env W node r m w = None \<longleftrightarrow>
   (\<exists>resp. e_newRequest env (hr_Method r) (n_BaseURL node @ hr_RequestURI r) = None \<and>
      e_Do env (build_upstream env node r (marshal_body m)) = Inr resp \<and>
      (if is_stream m then forward_stream_response env W resp w = None else forward_plain_response env W resp w = None))"
  by (auto simp: forward_send_def split: sum.splits option.splits)

lemma Forward_None:
  "Forward env W node r w = None \<longleftrightarrow> nil_body_changed env node r \<or>
   (\<exists>m resp. node_answers env node r m resp \<and>
      (if is_stream m then forward_stream_response env W resp w = None else forward_plain_response env W resp w = None))"
proof (cases "prepared env node r")
  case None
  then have "\<not> node_answers env node r m resp" for m resp by (simp add: node_answers_def)
  then show ?thesis using None [unfolded prepared_None_iff]
    by (auto simp: Forward_unprepared [OF None] nil_body_changed_def split: sum.splits)
next
  case (Some m)
  then have "\<not> nil_body_changed env node r" using prepared_None_iff [of env node r] by auto
  then show ?thesis using Some by (auto simp: Forward_prepared forward_send_None node_answers_def)
qed

lemma Forward_response:
  assumes "Forward env W node r w = Some ((Some f, e), w')"
  obtains u resp where "e_Do env u = Inr resp" "forward_stream_response env W resp w = Some ((Some f, e), w')"
    | u resp where "e_Do env u = Inr resp" "forward_plain_response env W resp w = Some ((Some f, e), w')"
  using assms by (auto simp: Forward_def forward_send_def split: sum.splits option.splits if_splits)

text \<open>When a new recorder over the client's writer panics: the status is handed on at once, is none that the
  writer takes, and nothing has been sent yet.\<close>

definition fatal_status :: "int \<Rightarrow> bool" where
  "fatal_status c \<longleftrightarrow> c < 100 \<and> c \<noteq> 0"

lemma fatal_not_retryable: "c < 100 \<Longrightarrow> \<not> IsRetryable (ClassifyError None c)"
  by (auto simp: ClassifyError_def IsRetryable_def)

lemma large_retryable: "c > 999 \<Longrightarrow> IsRetryable (ClassifyError None c)"
  by (auto simp: ClassifyError_def IsRetryable_def)

lemma new_recorder_WriteHeader:
  "rec_WriteHeader (rec_SetHeader (newRetryableRecorder w) h) c = None \<longleftrightarrow> rw_status w = None \<and> fatal_status c"
  using fatal_not_retryable [of c] large_retryable [of c]
  by (auto simp: rec_WriteHeader_def rec_SetHeader_def newRetryableRecorder_def rec_Commit_def rw_WriteHeader_def
      rw_SetHeader_def bad_code_def fatal_status_def Let_def)

lemma Forward_recorder_None:
  "Forward env rec_ops node r (newRetryableRecorder w) = None \<longleftrightarrow> nil_body_changed env node r \<or>
   (\<exists>m resp. node_answers env node r m resp \<and> (is_stream m \<or> resp_BodyErr resp = None) \<and>
      rw_status w = None \<and> fatal_status (resp_Status resp))"
  unfolding Forward_None forward_stream_None forward_plain_None
  by (auto simp: new_recorder_WriteHeader)

text \<open>So an attempt returns if the body is no changed nil map and the node's status is valid.\<close>

definition valid_statuses :: "proxy_env \<Rightarrow> bool" where
  "valid_statuses env \<longleftrightarrow> (\<forall>u resp. e_Do env u = Inr resp \<longrightarrow> resp_Status resp = 0 \<or> \<not> bad_code (resp_Status resp))"

lemma Forward_returns:
  assumes "hr_Body r = Inr raw" "parse_body env raw \<noteq> Inr None" "valid_statuses env"
  shows "\<exists>fr fe w'. Forward env rec_ops node r (newRetryableRecorder w) = Some ((fr, fe), w')"
proof -
  have "Forward env rec_ops node r (newRetryableRecorder w) \<noteq> None"
    using assms by (auto simp: Forward_recorder_None nil_body_changed_def valid_statuses_def node_answers_def fatal_status_def bad_code_def simp del: not_None_eq)
  then show ?thesis by (metis option.exhaust surj_pair)
qed

text \<open>The request body as it is sent on.\<close>

definition sent_body :: "ModelNode \<Rightarrow> jobject \<Rightarrow> jobject" where
  "sent_body node b =
     ApplyOverride (if n_ModelName node \<noteq> [] then AList.update ''model'' (JStr (n_ModelName node)) b else b)
       (n_Override node)"

lemma Forward_object:
  assumes "hr_Body r = Inr raw" "parse_body env raw = Inr (Some b)"
  shows "Forward env W node r w = forward_send env W node r (Some (sent_body node b)) w"
  using assms by (auto simp: Forward_def set_model_def apply_override_def sent_body_def)

section \<open>Properties\<close>

text \<open>C25. The request to the node: method, node address with the original path, the node's timeout, and
  the client's headers, with the content type set and the authorization replaced by the
  node's key.  A node without a key is sent the client's own authorization.\<close>

theorem upstream_request:
  assumes "header_ok (hr_Header r)"
  shows "u_Method (build_upstream env node r b) = hr_Method r \<and>
    u_URL (build_upstream env node r b) = n_BaseURL node @ hr_RequestURI r \<and>
    u_Body (build_upstream env node r b) = b \<and>
    hvalues (u_Header (build_upstream env node r b)) k =
      (if k = ''Authorization'' \<and> n_APIKey node \<noteq> [] then [''Bearer '' @ n_APIKey node]
       else if k = ''Content-Type'' then [''application/json'']
       else hvalues (hr_Header r) k)"
  by (simp add: build_upstream_def Let_def hvalues_add_headers [OF assms] canonical_names)

definition sample_http :: http_request where
  "sample_http = \<lparr>hr_Method = ''POST'', hr_RequestURI = ''/v1/chat/completions'',
     hr_Header = [(''Authorization'', [''Bearer pk-client''])], hr_Body = Inr ''{}''\<rparr>"

definition sample_env :: proxy_env where
  "sample_env = \<lparr>e_jsonErr = (\<lambda>_. \<lparr>err_text = ''invalid JSON'', err_deadline = False, err_canceled = False\<rparr>),
     e_newRequest = (\<lambda>_ _. None), e_host = (\<lambda>u. u),
     e_Do = (\<lambda>_. Inr \<lparr>resp_Status = 200, resp_Header = [], resp_Body = ''hello'', resp_BodyErr = None\<rparr>),
     e_ctx_err = (\<lambda>_. None), e_durMs = 5\<rparr>"

definition keyless_node :: ModelNode where
  "keyless_node = \<lparr>n_ID = ''n1'', n_Name = ''n1'', n_Aliases = [''gpt''], n_BaseURL = ''http://node'', n_APIKey = [],
     n_ModelName = ''big'', n_EndpointType = EndpointAll, n_TPM = 0, n_RPM = 0, n_Override = [],
     n_TimeoutSec = 30, n_Enabled = True, n_CreatedAt = 0, n_UpdatedAt = 0\<rparr>"

lemma empty_body: "Unmarshal_map ''{}'' = Some (Some [])"
  by (simp add: json_eval)

theorem upstream_request_witness:
  "hvalues (u_Header (build_upstream sample_env keyless_node sample_http ''{}'')) ''Authorization'' = [''Bearer pk-client'']"
proof -
  have "header_ok (hr_Header sample_http)"
    by (simp add: header_ok_def sample_http_def canonical_names)
  then show ?thesis
    using upstream_request [of sample_http sample_env keyless_node "''{}''" "''Authorization''"]
    by (simp add: keyless_node_def) (simp add: sample_http_def hvalues_def)
qed

text \<open>C26. An attempt yields no response and no panic exactly in five cases, each with its error and with the
  client's writer as it was: the request's body cannot be read; it is no JSON object; the request to the node cannot be
  built; the client reports an error for it; or the response is not a stream and its body
  cannot be read.  The error's text is that of the failed step followed by the text of the cause.\<close>

theorem forward_error_untouched:
  "Forward env W node r w = Some ((None, e), w') \<longleftrightarrow> w' = w \<and>
   ((\<exists>x. hr_Body r = Inl x \<and> e = Some (wrap_error ''proxy: read request body: '' x)) \<or>
    (\<exists>raw x. hr_Body r = Inr raw \<and> parse_body env raw = Inl x \<and> e = Some (wrap_error ''proxy: parse request body: '' x)) \<or>
    (\<exists>m x. prepared env node r = Some m \<and> e_newRequest env (hr_Method r) (n_BaseURL node @ hr_RequestURI r) = Some x \<and>
       e = Some (wrap_error ''proxy: build upstream request: '' x)) \<or>
    (\<exists>m x. prepared env node r = Some m \<and> e_newRequest env (hr_Method r) (n_BaseURL node @ hr_RequestURI r) = None \<and>
       e_Do env (build_upstream env node r (marshal_body m)) = Inl x \<and> e = Some (wrap_error ''proxy: upstream request: '' x)) \<or>
    (\<exists>m resp x. node_answers env node r m resp \<and> \<not> is_stream m \<and> resp_BodyErr resp = Some x \<and>
       e = Some (wrap_error ''proxy: read upstream response: '' x)))"
proof (cases "prepared env node r")
  case None
  then show ?thesis by (auto simp: Forward_unprepared node_answers_def split: sum.splits)
next
  case (Some m)
  then have "\<exists>raw. hr_Body r = Inr raw \<and> (\<exists>b. parse_body env raw = Inr b)"
    by (auto simp: prepared_def split: sum.splits)
  then show ?thesis
    using Some by (auto simp: Forward_prepared forward_send_nil node_answers_def split: sum.splits option.splits)
qed

theorem forward_error_untouched_witness:
  "Forward (sample_env\<lparr>e_Do := \<lambda>_. Inl \<lparr>err_text = ''connection refused'', err_deadline = False, err_canceled = False\<rparr>\<rparr>)
     rw_ops keyless_node sample_http fresh_writer =
   Some ((None, Some \<lparr>err_text = ''proxy: upstream request: connection refused'', err_deadline = False, err_canceled = False\<rparr>),
     fresh_writer)"
  unfolding forward_error_untouched
  by (simp add: prepared_def sample_http_def sample_env_def parse_body_def empty_body set_model_def apply_override_def
      keyless_node_def wrap_error_def)

text \<open>C27. A plain response reaches the client unchanged: the client gets the node's status, the node's
  headers after those already set, and the node's body; the result carries status and body.  The status
  must be one that the writer takes.\<close>

theorem plain_response_relayed:
  assumes "hr_Body r = Inr raw" "parse_body env raw = Inr (Some b)"
    and "e_newRequest env (hr_Method r) (n_BaseURL node @ hr_RequestURI r) = None"
    and "e_Do env (build_upstream env node r (marshal_body (Some (sent_body node b)))) = Inr resp" "resp_BodyErr resp = None"
    and "\<not> is_stream (Some (sent_body node b))" "header_ok (resp_Header resp)"
    and "rw_status w = None" "rw_fault w (rw_writes w) = None" "\<not> bad_code (resp_Status resp)"
  shows "\<exists>res w'. Forward env rw_ops node r w = Some ((Some res, None), w') \<and>
    f_StatusCode res = resp_Status resp \<and> f_Body res = resp_Body resp \<and> f_Stream res = None \<and>
    rw_status w' = Some (resp_Status resp) \<and> rw_body w' = rw_body w @ resp_Body resp \<and>
    (\<forall>k. hvalues (rw_sent w') k = hvalues (rw_header w) k @ hvalues (resp_Header resp) k)"
  using assms
  by (simp add: Forward_object [OF assms(1,2)] forward_send_def forward_plain_response_def rw_ops_def
      rw_SetHeader_def rw_WriteHeader_def rw_begin_def rw_Write_def Let_def hvalues_add_headers)

theorem plain_response_relayed_witness:
  "\<exists>res w'. Forward sample_env rw_ops keyless_node sample_http fresh_writer = Some ((Some res, None), w') \<and>
     rw_status w' = Some 200 \<and> rw_body w' = ''hello''"
  using plain_response_relayed [of sample_http "''{}''" sample_env "[]" keyless_node
      "\<lparr>resp_Status = 200, resp_Header = [], resp_Body = ''hello'', resp_BodyErr = None\<rparr>" fresh_writer]
  by (auto simp: sample_http_def sample_env_def parse_body_def empty_body is_stream_def sent_body_def ApplyOverride_def
      keyless_node_def header_ok_def fresh_writer_def bad_code_def)



end
