(* ===== verification/Worker_Retry.thy ===== *)
theory Worker_Retry
  imports Proxy Router
begin

text \<open>
  The retry loop of \<^verbatim>\<open>internal/worker/pool.go\<close>: \<^verbatim>\<open>forwardWithRetry\<close> with \<^verbatim>\<open>pickNode\<close>,
  \<^verbatim>\<open>buildHTTPRequest\<close> and \<^verbatim>\<open>writeWorkerError\<close>.  What an attempt meets outside the program is in
  \<open>retry_env\<close>, by the number of the attempt: the environment of \<^verbatim>\<open>Forward\<close>, whether the request's
  context is done, the random numbers of the two calls of \<^verbatim>\<open>pickNode\<close> and the times measured.
  The result \<open>None\<close> is a panic of \<^verbatim>\<open>Forward\<close>, of the client's writer on an invalid status, or of the nil request that \<^verbatim>\<open>buildHTTPRequest\<close> uses
  when the path does not parse.  Log calls, which change nothing, are left out.
\<close>

section \<open>Model\<close>

record WorkerConfig =
  wc_WorkerCount :: int
  wc_MaxRetryAttempts :: int
  wc_RetryDelayMs :: int
  wc_MaxWaitTime :: duration

record retry_env =
  re_proxy :: "nat \<Rightarrow> proxy_env"
  re_done :: "nat \<Rightarrow> bool"
  re_intn :: "nat \<Rightarrow> nat \<Rightarrow> nat"
  re_intn_next :: "nat \<Rightarrow> nat \<Rightarrow> nat"
  re_uri :: "string \<Rightarrow> string \<Rightarrow> string option"
  re_attemptMs :: "nat \<Rightarrow> int"
  re_execMs :: "nat \<Rightarrow> int"

definition available :: "ModelNode list \<Rightarrow> string set \<Rightarrow> ModelNode list" where
  "available candidates excluded = filter (\<lambda>n. n_ID n \<notin> excluded \<and> n_Enabled n) candidates"

definition pickNode :: "(nat \<Rightarrow> nat) \<Rightarrow> ModelNode list \<Rightarrow> string set \<Rightarrow> ModelNode option" where
  "pickNode intn candidates excluded =
     (if length (available candidates excluded) = 0 then None
      else Pick intn (available candidates excluded))"

definition buildHTTPRequest :: "(string \<Rightarrow> string \<Rightarrow> string option) \<Rightarrow> PendingRequest \<Rightarrow> http_request option" where
  "buildHTTPRequest uri req =
     (case uri (p_Method req) (p_Path req) of
        None \<Rightarrow> None
      | Some u \<Rightarrow> Some \<lparr>hr_Method = (if p_Method req = [] then ''GET'' else p_Method req), hr_RequestURI = u,
                        hr_Header = p_Headers req, hr_Body = Inr (p_BodyBytes req)\<rparr>)"

definition worker_message :: "string \<Rightarrow> string" where
  "worker_message errorType =
     (if errorType \<in> {''dns_error'', ''connection_refused'', ''connection_reset''} then ''model service unreachable''
      else if errorType = ''upstream_timeout'' then ''model service timeout''
      else if errorType = ''upstream_5xx'' then ''model service internal error''
      else if errorType = ''upstream_429'' then ''model service rate limited, please retry later''
      else ''service unavailable'')"

definition writeWorkerError :: "ResponseWriter \<Rightarrow> int \<Rightarrow> string \<Rightarrow> ResponseWriter option" where
  "writeWorkerError w status errorType =
     (let w1 = rw_SetHeader w (header_Set (rw_header w) ''Content-Type'' ''application/json'')
      in case rw_WriteHeader w1 status of
           None \<Rightarrow> None
         | Some w2 \<Rightarrow> Some (snd (rw_Write w2
           (''{'' @ [CHR 0x22] @ ''error'' @ [CHR 0x22] @ '':{'' @ [CHR 0x22] @ ''message'' @ [CHR 0x22] @ '':'' @ [CHR 0x22] @
            worker_message errorType @ [CHR 0x22] @ '','' @ [CHR 0x22] @ ''type'' @ [CHR 0x22] @ '':'' @ [CHR 0x22] @
            ''proxy_error'' @ [CHR 0x22] @ '','' @ [CHR 0x22] @ ''code'' @ [CHR 0x22] @ '':'' @ FormatInt status @ ''}}''))))"

definition empty_result :: ExecutionResult where
  "empty_result = \<lparr>x_StatusCode = 0, x_Body = [], x_Headers = [], x_PromptTokens = 0, x_CompletionTokens = 0,
     x_TotalTokens = 0, x_FinalNodeID = [], x_Attempts = [], x_ExecutionMs = 0, x_Error = [], x_ErrorType = []\<rparr>"

definition attempt_status :: "ForwardResult option \<Rightarrow> retryableRecorder \<Rightarrow> int" where
  "attempt_status fwdRes rec =
     (case fwdRes of Some fr \<Rightarrow> f_StatusCode fr
      | None \<Rightarrow> if r_statusCode rec \<noteq> 0 then r_statusCode rec else 0)"

definition attempt_log ::
  "nat \<Rightarrow> ModelNode \<Rightarrow> int \<Rightarrow> int \<Rightarrow> string \<Rightarrow> goerror option \<Rightarrow> ForwardResult option \<Rightarrow> AttemptLog" where
  "attempt_log attempt node ms statusCode errorType fwdErr fwdRes =
     (let base = \<lparr>a_Attempt = int attempt, a_NodeID = n_ID node, a_NodeName = n_Name node, a_DurationMs = ms,
                  a_StatusCode = statusCode, a_ErrorType = errorType, a_Error = fwdErr, a_PromptTokens = 0,
                  a_CompletionTokens = 0\<rparr>
      in case fwdRes of
           Some fr \<Rightarrow> (case f_Stream fr of
                         Some sr \<Rightarrow> base\<lparr>a_PromptTokens := sr_PromptTokens sr, a_CompletionTokens := sr_CompletionTokens sr\<rparr>
                       | None \<Rightarrow> base)
         | None \<Rightarrow> base)"

definition success_result ::
  "int \<Rightarrow> ModelNode \<Rightarrow> AttemptLog list \<Rightarrow> int \<Rightarrow> ForwardResult option \<Rightarrow> ExecutionResult" where
  "success_result statusCode node attempts ms fwdRes =
     (let res = empty_result\<lparr>x_StatusCode := statusCode, x_FinalNodeID := n_ID node, x_Attempts := attempts,
                             x_ExecutionMs := ms\<rparr>
      in case fwdRes of
           None \<Rightarrow> res
         | Some fr \<Rightarrow>
             (case f_Stream fr of
                Some sr \<Rightarrow> res\<lparr>x_PromptTokens := sr_PromptTokens sr, x_CompletionTokens := sr_CompletionTokens sr,
                             x_TotalTokens := i64 (sr_PromptTokens sr + sr_CompletionTokens sr)\<rparr>
              | None \<Rightarrow> res\<lparr>x_Body := f_Body fr\<rparr>))"

text \<open>What the last failed attempt leaves with the client.\<close>

definition flush_failure :: "retryableRecorder \<Rightarrow> int \<Rightarrow> string \<Rightarrow> ResponseWriter option" where
  "flush_failure rec statusCode errorType =
     (if r_commit rec then Some (r_w rec)
      else if r_wroteHeader rec
      then (case rec_Commit rec of None \<Rightarrow> None | Some rec' \<Rightarrow> Some (snd (rw_Write (r_w rec') (r_body rec'))))
      else writeWorkerError (r_w rec) (if statusCode = 0 then 502 else statusCode) errorType)"

function retry_loop ::
  "retry_env \<Rightarrow> WorkerConfig \<Rightarrow> ModelNode list \<Rightarrow> PendingRequest \<Rightarrow> nat \<Rightarrow> string set \<Rightarrow> AttemptLog list \<Rightarrow>
   ResponseWriter \<Rightarrow> (ExecutionResult \<times> ResponseWriter) option" where
  "retry_loop env cfg candidates req attempt excluded attempts w =
     (let all_failed = empty_result\<lparr>x_StatusCode := 502, x_Error := ''all failed'', x_Attempts := attempts,
                                   x_ExecutionMs := re_execMs env attempt\<rparr>
      in if int attempt > wc_MaxRetryAttempts cfg then Some (all_failed, w)
      else if re_done env attempt
           then Some (empty_result\<lparr>x_StatusCode := 499, x_Error := ''cancelled'', x_Attempts := attempts,
                        x_ExecutionMs := re_execMs env attempt\<rparr>, w)
      else (case pickNode (re_intn env attempt) candidates excluded of
              None \<Rightarrow> Some (all_failed, w)
            | Some node \<Rightarrow>
                (case buildHTTPRequest (re_uri env) req of
                   None \<Rightarrow> None
                 | Some httpReq \<Rightarrow>
                     (case Forward (re_proxy env attempt) rec_ops node httpReq (newRetryableRecorder w) of
                        None \<Rightarrow> None
                      | Some ((fwdRes, fwdErr), rec) \<Rightarrow>
                          let statusCode = attempt_status fwdRes rec;
                              errorType = ClassifyError fwdErr statusCode;
                              attempts' = attempts @ [attempt_log attempt node (re_attemptMs env attempt) statusCode
                                                        errorType fwdErr fwdRes];
                              excluded' = insert (n_ID node) excluded;
                              willRetry = (int attempt < wc_MaxRetryAttempts cfg \<and>
                                           pickNode (re_intn_next env attempt) candidates excluded' \<noteq> None)
                          in if fwdErr = None \<and> \<not> IsRetryable errorType
                             then Some (success_result statusCode node attempts' (re_execMs env attempt) fwdRes, r_w rec)
                             else if \<not> willRetry
                             then map_option (Pair (empty_result\<lparr>x_StatusCode := statusCode, x_Error := errorType,
                                                x_ErrorType := errorType, x_Attempts := attempts',
                                                x_ExecutionMs := re_execMs env attempt\<rparr>))
                                    (flush_failure rec statusCode errorType)
                             else retry_loop env cfg candidates req (Suc attempt) excluded' attempts' (r_w rec)))))"
  by pat_completeness auto
termination
  by (relation "measure (\<lambda>(env, cfg, candidates, req, attempt, excluded, attempts, w).
        nat (wc_MaxRetryAttempts cfg + 1 - int attempt))") auto

declare retry_loop.simps [simp del]

definition forwardWithRetry ::
  "retry_env \<Rightarrow> WorkerConfig \<Rightarrow> Router \<Rightarrow> PendingRequest \<Rightarrow> ResponseWriter \<Rightarrow> (ExecutionResult \<times> ResponseWriter) option" where
  "forwardWithRetry env cfg r req w =
     (let candidates = Resolve r (p_ModelAlias req) (p_EndpointType req)
      in if length candidates = 0
         then Some (empty_result\<lparr>x_StatusCode := 502, x_Error := ''no nodes'', x_ExecutionMs := re_execMs env 0\<rparr>, w)
         else retry_loop env cfg candidates req 1 {} [] w)"

section \<open>Runs of the loop\<close>

text \<open>One attempt: the node picked and what \<^verbatim>\<open>Forward\<close> made of it.\<close>

definition attempt_made ::
  "retry_env \<Rightarrow> ModelNode list \<Rightarrow> PendingRequest \<Rightarrow> nat \<Rightarrow> string set \<Rightarrow> ResponseWriter \<Rightarrow> ModelNode \<Rightarrow>
   ForwardResult option \<Rightarrow> goerror option \<Rightarrow> retryableRecorder \<Rightarrow> bool" where
  "attempt_made env cs req a ex w node fr fe rec \<longleftrightarrow>
     pickNode (re_intn env a) cs ex = Some node \<and>
     (\<exists>hr. buildHTTPRequest (re_uri env) req = Some hr \<and>
           Forward (re_proxy env a) rec_ops node hr (newRetryableRecorder w) = Some ((fr, fe), rec))"

definition attempt_class :: "ForwardResult option \<Rightarrow> goerror option \<Rightarrow> retryableRecorder \<Rightarrow> string" where
  "attempt_class fr fe rec = ClassifyError fe (attempt_status fr rec)"

definition logged :: "retry_env \<Rightarrow> nat \<Rightarrow> ModelNode \<Rightarrow> ForwardResult option \<Rightarrow> goerror option \<Rightarrow> retryableRecorder \<Rightarrow> AttemptLog" where
  "logged env a node fr fe rec =
     attempt_log a node (re_attemptMs env a) (attempt_status fr rec) (attempt_class fr fe rec) fe fr"

inductive retry_run ::
  "retry_env \<Rightarrow> WorkerConfig \<Rightarrow> ModelNode list \<Rightarrow> PendingRequest \<Rightarrow> nat \<Rightarrow> string set \<Rightarrow> AttemptLog list \<Rightarrow>
   ResponseWriter \<Rightarrow> ExecutionResult \<Rightarrow> ResponseWriter \<Rightarrow> bool"
  for env cfg cs req where
  stop: "int a > wc_MaxRetryAttempts cfg \<or> pickNode (re_intn env a) cs ex = None \<Longrightarrow>
    retry_run env cfg cs req a ex atts w (empty_result\<lparr>x_StatusCode := 502, x_Error := ''all failed'',
      x_Attempts := atts, x_ExecutionMs := re_execMs env a\<rparr>) w"
| cancel: "int a \<le> wc_MaxRetryAttempts cfg \<Longrightarrow> re_done env a \<Longrightarrow>
    retry_run env cfg cs req a ex atts w (empty_result\<lparr>x_StatusCode := 499, x_Error := ''cancelled'',
      x_Attempts := atts, x_ExecutionMs := re_execMs env a\<rparr>) w"
| success: "int a \<le> wc_MaxRetryAttempts cfg \<Longrightarrow> attempt_made env cs req a ex w node fr None rec \<Longrightarrow>
    \<not> IsRetryable (attempt_class fr None rec) \<Longrightarrow>
    retry_run env cfg cs req a ex atts w (success_result (attempt_status fr rec) node
      (atts @ [logged env a node fr None rec]) (re_execMs env a) fr) (r_w rec)"
| fail: "int a \<le> wc_MaxRetryAttempts cfg \<Longrightarrow> attempt_made env cs req a ex w node fr fe rec \<Longrightarrow>
    fe \<noteq> None \<or> IsRetryable (attempt_class fr fe rec) \<Longrightarrow>
    flush_failure rec (attempt_status fr rec) (attempt_class fr fe rec) = Some w' \<Longrightarrow>
    retry_run env cfg cs req a ex atts w (empty_result\<lparr>x_StatusCode := attempt_status fr rec,
      x_Error := attempt_class fr fe rec, x_ErrorType := attempt_class fr fe rec,
      x_Attempts := atts @ [logged env a node fr fe rec], x_ExecutionMs := re_execMs env a\<rparr>) w'"
| retry: "int a < wc_MaxRetryAttempts cfg \<Longrightarrow> attempt_made env cs req a ex w node fr fe rec \<Longrightarrow>
    fe \<noteq> None \<or> IsRetryable (attempt_class fr fe rec) \<Longrightarrow>
    retry_run env cfg cs req (Suc a) (insert (n_ID node) ex) (atts @ [logged env a node fr fe rec]) (r_w rec) x w' \<Longrightarrow>
    retry_run env cfg cs req a ex atts w x w'"

lemma retry_loop_attempt:
  assumes "\<not> int a > wc_MaxRetryAttempts cfg" "\<not> re_done env a" "attempt_made env cs req a ex w node fr fe rec"
  shows "retry_loop env cfg cs req a ex atts w =
    (if fe = None \<and> \<not> IsRetryable (attempt_class fr fe rec)
     then Some (success_result (attempt_status fr rec) node (atts @ [logged env a node fr fe rec]) (re_execMs env a) fr, r_w rec)
     else if \<not> (int a < wc_MaxRetryAttempts cfg \<and> pickNode (re_intn_next env a) cs (insert (n_ID node) ex) \<noteq> None)
     then map_option (Pair (empty_result\<lparr>x_StatusCode := attempt_status fr rec, x_Error := attempt_class fr fe rec,
       x_ErrorType := attempt_class fr fe rec, x_Attempts := atts @ [logged env a node fr fe rec],
       x_ExecutionMs := re_execMs env a\<rparr>)) (flush_failure rec (attempt_status fr rec) (attempt_class fr fe rec))
     else retry_loop env cfg cs req (Suc a) (insert (n_ID node) ex) (atts @ [logged env a node fr fe rec]) (r_w rec))"
proof -
  obtain hr where p: "pickNode (re_intn env a) cs ex = Some node" "buildHTTPRequest (re_uri env) req = Some hr"
      "Forward (re_proxy env a) rec_ops node hr (newRetryableRecorder w) = Some ((fr, fe), rec)"
    using assms(3) by (auto simp: attempt_made_def)
  show ?thesis
    unfolding retry_loop.simps [of env cfg cs req a] Let_def p option.case prod.case attempt_class_def logged_def
    using assms(1,2) by simp
qed

lemma retry_loop_cases:
  assumes "retry_loop env cfg cs req a ex atts w = Some (x, w')"
    and "\<not> int a > wc_MaxRetryAttempts cfg" "\<not> re_done env a" "pickNode (re_intn env a) cs ex \<noteq> None"
  obtains node fr fe rec where "attempt_made env cs req a ex w node fr fe rec"
proof -
  obtain node where node: "pickNode (re_intn env a) cs ex = Some node" using assms(4) by auto
  from assms obtain hr where hr: "buildHTTPRequest (re_uri env) req = Some hr"
    by (auto simp: retry_loop.simps [of env cfg cs req a] node Let_def split: option.splits)
  from assms obtain y where "Forward (re_proxy env a) rec_ops node hr (newRetryableRecorder w) = Some y"
    by (auto simp: retry_loop.simps [of env cfg cs req a] node hr Let_def split: option.splits)
  then show ?thesis using that node hr by (cases y) (auto simp: attempt_made_def)
qed

lemma retry_loop_run:
  "retry_loop env cfg cs req a ex atts w = Some (x, w') \<Longrightarrow> retry_run env cfg cs req a ex atts w x w'"
proof (induction "nat (wc_MaxRetryAttempts cfg + 1 - int a)" arbitrary: a ex atts w rule: less_induct)
  case less
  show ?case
  proof (cases "int a > wc_MaxRetryAttempts cfg \<or> re_done env a \<or> pickNode (re_intn env a) cs ex = None")
    case True
    then show ?thesis
      using less.prems retry_run.stop [of cfg a env cs ex] retry_run.cancel [of a cfg env]
      by (auto simp: retry_loop.simps [of env cfg cs req a] Let_def split: if_splits)
  next
    case go: False
    then obtain node fr fe rec where am: "attempt_made env cs req a ex w node fr fe rec"
      using retry_loop_cases [OF less.prems] by blast
    have le: "int a \<le> wc_MaxRetryAttempts cfg" using go by simp
    have g: "\<not> int a > wc_MaxRetryAttempts cfg" "\<not> re_done env a" using go by auto
    note step = less.prems [unfolded retry_loop_attempt [OF g am]]
    show ?thesis
    proof (cases "fe = None \<and> \<not> IsRetryable (attempt_class fr fe rec)")
      case True
      then show ?thesis using step am retry_run.success [OF le] by auto
    next
      case bad: False
      show ?thesis
      proof (cases "int a < wc_MaxRetryAttempts cfg \<and> pickNode (re_intn_next env a) cs (insert (n_ID node) ex) \<noteq> None")
        case True
        then have "retry_loop env cfg cs req (Suc a) (insert (n_ID node) ex) (atts @ [logged env a node fr fe rec]) (r_w rec) = Some (x, w')"
          using step bad by (auto split: if_splits)
        then have "retry_run env cfg cs req (Suc a) (insert (n_ID node) ex) (atts @ [logged env a node fr fe rec]) (r_w rec) x w'"
          by (rule less.hyps [rotated]) (use True in simp)
        then show ?thesis using retry_run.retry [OF _ am] True bad by auto
      next
        case False
        then show ?thesis using step bad am retry_run.fail [OF le am] by (auto split: if_splits)
      qed
    qed
  qed
qed

section \<open>Attempts\<close>

lemma pickNode_mem:
  assumes "pickNode intn cs ex = Some node" "\<And>n. 0 < n \<Longrightarrow> intn n < n"
  shows "node \<in> set cs \<and> n_ID node \<notin> ex \<and> n_Enabled node"
proof -
  have "node \<in> set (available cs ex)"
    using assms by (auto simp: pickNode_def Pick_def split: if_splits)
  then show ?thesis by (simp add: available_def)
qed

lemma logged_fields [simp]:
  "a_NodeID (logged env a node fr fe rec) = n_ID node"
  "a_Attempt (logged env a node fr fe rec) = int a"
  by (auto simp: logged_def attempt_log_def Let_def split: option.splits)

lemma success_result_fields [simp]:
  "x_Attempts (success_result sc node atts ms fr) = atts"
  "x_ErrorType (success_result sc node atts ms fr) = []"
  "x_Error (success_result sc node atts ms fr) = []"
  "x_FinalNodeID (success_result sc node atts ms fr) = n_ID node"
  "x_StatusCode (success_result sc node atts ms fr) = sc"
  by (simp_all add: success_result_def empty_result_def Let_def split: option.splits)

lemma empty_result_fields [simp]:
  "x_Attempts empty_result = []" "x_ErrorType empty_result = []" "x_Error empty_result = []"
  by (simp_all add: empty_result_def)

definition usable_ids :: "ModelNode list \<Rightarrow> string set" where
  "usable_ids cs = n_ID ` {n \<in> set cs. n_Enabled n}"

text \<open>The attempts so far: numbered from 1, one for each excluded node.\<close>

definition attempts_ok :: "ModelNode list \<Rightarrow> AttemptLog list \<Rightarrow> bool" where
  "attempts_ok cs atts \<longleftrightarrow> distinct (map a_NodeID atts) \<and> a_NodeID ` set atts \<subseteq> usable_ids cs \<and>
     map a_Attempt atts = map int [1..<Suc (length atts)]"

lemma attempts_ok_snoc:
  assumes "attempts_ok cs atts" "attempt_made env cs req (Suc (length atts)) (a_NodeID ` set atts) w node fr fe rec"
    and "\<And>a n. 0 < n \<Longrightarrow> re_intn env a n < n"
  shows "attempts_ok cs (atts @ [logged env (Suc (length atts)) node fr fe rec])"
  using assms pickNode_mem [of "re_intn env (Suc (length atts))" cs "a_NodeID ` set atts" node]
  by (auto simp: attempts_ok_def attempt_made_def usable_ids_def)

lemma retry_run_attempts:
  assumes "retry_run env cfg cs req a ex atts w x w'" and "\<And>a n. 0 < n \<Longrightarrow> re_intn env a n < n"
    and "a = Suc (length atts)" "ex = a_NodeID ` set atts" "attempts_ok cs atts"
    and "int (length atts) \<le> max 0 (wc_MaxRetryAttempts cfg)"
  shows "attempts_ok cs (x_Attempts x) \<and> int (length (x_Attempts x)) \<le> max 0 (wc_MaxRetryAttempts cfg)"
  using assms(1,3-)
proof (induction rule: retry_run.induct)
  case (success a ex w node fr rec atts)
  then show ?case using attempts_ok_snoc [of cs atts env req w node fr None rec] assms(2) by auto
next
  case (fail a ex w node fr fe rec w' atts)
  then show ?case using attempts_ok_snoc [of cs atts env req w node fr fe rec] assms(2) by auto
next
  case (retry a ex w node fr fe rec atts x w')
  have "attempts_ok cs (atts @ [logged env a node fr fe rec])"
    using attempts_ok_snoc [of cs atts env req w node fr fe rec] retry.hyps retry.prems assms(2) by auto
  then show ?case using retry by auto
qed auto

section \<open>What reaches the client\<close>

lemma stream_loop_preserves:
  assumes "\<And>w b. Q w \<Longrightarrow> Q (snd (W_Write W w b))" "\<And>w. Q w \<Longrightarrow> Q (flush_if W w)" "Q w"
  shows "Q (snd (stream_loop W dc ds ctx_err i ts acc w))"
  using assms(3)
proof (induction ts arbitrary: i acc w)
  case (Cons l ts)
  obtain n e w1 where wr: "W_Write W w (l @ [newline]) = ((n, e), w1)" by (metis surj_pair)
  have "Q w1" using assms(1) [OF Cons.prems, of "l @ [newline]"] by (simp add: wr)
  then show ?case
    using Cons assms(2) by (auto simp: wr Let_def split: option.splits)
qed simp

lemma ForwardStream_preserves:
  assumes "\<And>w b. Q w \<Longrightarrow> Q (snd (W_Write W w b))" "\<And>w. Q w \<Longrightarrow> Q (flush_if W w)" "Q w"
  shows "Q (snd (ForwardStream W dc ds ctx_err b e w))"
proof -
  obtain ts tl where sl: "scan_lines b = (ts, tl)" by (meson surj_pair)
  define acc0 where "acc0 = \<lparr>sa_result = empty_stream_result, sa_content = [], sa_usageFound = False\<rparr>"
  obtain e1 acc w' where lp: "stream_loop W dc ds ctx_err 0 ts acc0 w = ((e1, acc), w')" by (metis surj_pair)
  have "Q w'" using stream_loop_preserves [of Q W w dc ds ctx_err 0 ts acc0] assms lp by simp
  then show ?thesis
    using lp by (auto simp: ForwardStream_def sl Let_def acc0_def [symmetric] split: option.splits)
qed

text \<open>A recorder whose header is written: its decision to commit stands, and without it the
  client's writer is as it was and the status is kept for later.\<close>

definition decided :: "ResponseWriter \<Rightarrow> int \<Rightarrow> retryableRecorder \<Rightarrow> bool" where
  "decided w c r \<longleftrightarrow> r_wroteHeader r \<and> r_commit r = (\<not> IsRetryable (ClassifyError None c)) \<and>
     (if r_commit r then rw_status (r_w r) \<noteq> None else r_w r = w \<and> r_statusCode r = c)"

lemma decided_write: "decided w c r \<Longrightarrow> decided w c (snd (rec_Write r bs))"
  by (auto simp: decided_def rec_Write_def Let_def dest: rw_Write_result split: prod.splits)

lemma decided_flush: "decided w c r \<Longrightarrow> decided w c (flush_if rec_ops r)"
  by (auto simp: decided_def flush_if_def rec_Flush_def rw_Flush_def rw_begin_def Let_def)

lemma decided_start:
  "rec_WriteHeader (rec_SetHeader (newRetryableRecorder w) h) c = Some r \<Longrightarrow> decided w c r"
  by (auto simp: decided_def newRetryableRecorder_def rec_SetHeader_def rec_WriteHeader_def rec_Commit_def
      rw_WriteHeader_def rw_begin_def rw_SetHeader_def Let_def split: if_splits option.splits)

lemma forward_stream_decided:
  assumes "forward_stream_response env rec_ops resp (newRetryableRecorder w) = Some ((Some f, fe), rec)"
  shows "decided w (resp_Status resp) rec \<and> f_StatusCode f = resp_Status resp"
proof -
  obtain r1 where r1: "rec_WriteHeader (rec_SetHeader (newRetryableRecorder w)
      (stream_header (add_headers (resp_Header resp) (r_header (newRetryableRecorder w))))) (resp_Status resp) = Some r1"
    using assms by (auto simp: forward_stream_response_def Let_def split: option.splits)
  obtain sr e w2 where fs: "ForwardStream rec_ops json_chunk json_sg (e_ctx_err env) (resp_Body resp)
      (resp_BodyErr resp) r1 = ((sr, e), w2)" by (metis surj_pair)
  have "decided w (resp_Status resp) w2"
    using ForwardStream_preserves [of "decided w (resp_Status resp)" rec_ops r1, OF _ decided_flush decided_start [OF r1]]
      decided_write fs by (metis rec_ops_simps(4) snd_conv)
  then show ?thesis
    using assms fs r1 by (auto simp: forward_stream_response_def Let_def split: option.splits)
qed

lemma forward_plain_decided:
  assumes "forward_plain_response env rec_ops resp (newRetryableRecorder w) = Some ((Some f, fe), rec)"
  shows "decided w (resp_Status resp) rec \<and> f_StatusCode f = resp_Status resp"
proof -
  obtain r1 where r1: "rec_WriteHeader (rec_SetHeader (newRetryableRecorder w)
      (add_headers (resp_Header resp) (r_header (newRetryableRecorder w)))) (resp_Status resp) = Some r1"
    using assms by (auto simp: forward_plain_response_def Let_def split: option.splits)
  obtain n e w2 where wr: "rec_Write r1 (resp_Body resp) = ((n, e), w2)" by (metis surj_pair)
  have "decided w (resp_Status resp) w2"
    using decided_write [OF decided_start [OF r1], of "resp_Body resp"] wr by simp
  then show ?thesis
    using assms wr r1 by (auto simp: forward_plain_response_def Let_def split: option.splits)
qed

lemma Forward_rec_cases:
  assumes "Forward env rec_ops node hr (newRetryableRecorder w) = Some ((fr, fe), rec)"
  shows "case fr of
      None \<Rightarrow> fe \<noteq> None \<and> rec = newRetryableRecorder w
    | Some f \<Rightarrow> decided w (f_StatusCode f) rec \<and> (\<exists>u resp. e_Do env u = Inr resp \<and> f_StatusCode f = resp_Status resp)"
proof (cases fr)
  case None
  then show ?thesis using Forward_nil_untouched assms by fastforce
next
  case (Some f)
  from Forward_response [OF assms [unfolded Some]] show ?thesis
  proof cases
    case (1 u resp)
    then show ?thesis using forward_stream_decided [OF 1(2)] Some by auto
  next
    case (2 u resp)
    then show ?thesis using forward_plain_decided [OF 2(2)] Some by auto
  qed
qed

lemma attempt_untouched:
  assumes am: "attempt_made env cs req a ex w node fr fe rec"
    and bad: "fe \<noteq> None \<or> IsRetryable (attempt_class fr fe rec)"
    and quiet: "\<And>a ex node fr e rec. attempt_made env cs req a ex w node fr (Some e) rec \<Longrightarrow> \<not> r_commit rec"
  shows "r_w rec = w"
proof -
  obtain hr where f: "Forward (re_proxy env a) rec_ops node hr (newRetryableRecorder w) = Some ((fr, fe), rec)"
    using am by (auto simp: attempt_made_def)
  note c = Forward_rec_cases [OF f]
  show ?thesis
  proof (cases fr)
    case None
    then show ?thesis using c by (simp add: newRetryableRecorder_def)
  next
    case (Some g)
    have "\<not> r_commit rec"
    proof (cases fe)
      case None
      then show ?thesis using bad c Some by (auto simp: attempt_class_def attempt_status_def decided_def)
    qed (use quiet am in blast)
    then show ?thesis using c Some by (auto simp: decided_def split: if_splits)
  qed
qed

lemma retry_run_isolated:
  assumes "retry_run env cfg cs req a ex atts w x w'" "x_Error x = []"
    and quiet: "\<And>a ex node fr e rec. attempt_made env cs req a ex w node fr (Some e) rec \<Longrightarrow> \<not> r_commit rec"
  shows "\<exists>a' ex' node f rec. attempt_made env cs req a' ex' w node (Some f) None rec \<and> w' = r_w rec \<and> r_commit rec \<and>
    x_FinalNodeID x = n_ID node \<and> x_StatusCode x = f_StatusCode f"
  using assms
proof (induction rule: retry_run.induct)
  case (success a ex w node fr rec atts)
  then obtain hr where "Forward (re_proxy env a) rec_ops node hr (newRetryableRecorder w) = Some ((fr, None), rec)"
    by (auto simp: attempt_made_def)
  note c = Forward_rec_cases [OF this]
  then obtain f where f: "fr = Some f" by (cases fr) auto
  then have "r_commit rec"
    using c success(3) by (auto simp: attempt_class_def attempt_status_def decided_def)
  then show ?case
    using success.hyps f by (intro exI [of _ a] exI [of _ ex] exI [of _ node] exI [of _ f] exI [of _ rec]) (simp add: attempt_status_def)
next
  case (fail a ex w node fr fe rec w' atts)
  then show ?case by (auto simp: attempt_class_def ClassifyError_def split: option.splits if_splits)
next
  case (retry a ex w node fr fe rec atts x w')
  have "r_w rec = w" by (rule attempt_untouched [OF retry.hyps(2,3) retry.prems(2)])
  then show ?case using retry by simp
qed simp_all

lemma flush_failure_status:
  assumes "attempt_made env cs req a ex w node fr fe rec" "flush_failure rec sc et = Some w'"
  shows "rw_status w' \<noteq> None"
proof -
  obtain hr where "Forward (re_proxy env a) rec_ops node hr (newRetryableRecorder w) = Some ((fr, fe), rec)"
    using assms(1) by (auto simp: attempt_made_def)
  note c = Forward_rec_cases [OF this]
  have wr: "rw_status (snd (rw_Write v b)) \<noteq> None" for v b
    using rw_Write_result by (metis prod.collapse)
  show ?thesis
  proof (cases "r_commit rec")
    case True
    then show ?thesis using c assms(2)
      by (cases fr) (auto simp: flush_failure_def decided_def newRetryableRecorder_def split: if_splits)
  next
    case False
    then show ?thesis using wr assms(2)
      by (auto simp: flush_failure_def writeWorkerError_def Let_def split: if_splits option.splits)
  qed
qed

text \<open>The last failure can be written if the nodes' statuses are valid.\<close>

lemma flush_failure_ok:
  assumes "attempt_made env cs req a ex w node fr fe rec" "valid_statuses (re_proxy env a)"
  shows "flush_failure rec (attempt_status fr rec) et \<noteq> None"
proof -
  obtain hr where "Forward (re_proxy env a) rec_ops node hr (newRetryableRecorder w) = Some ((fr, fe), rec)"
    using assms(1) by (auto simp: attempt_made_def)
  note c = Forward_rec_cases [OF this]
  show ?thesis
  proof (cases fr)
    case None
    then have "rec = newRetryableRecorder w" "attempt_status fr rec = 0"
      using c by (auto simp: attempt_status_def newRetryableRecorder_def)
    then show ?thesis
      by (simp add: flush_failure_def newRetryableRecorder_def writeWorkerError_def rw_WriteHeader_def bad_code_def)
  next
    case (Some f)
    then obtain u resp where d: "decided w (f_StatusCode f) rec" "e_Do (re_proxy env a) u = Inr resp" "f_StatusCode f = resp_Status resp"
      using c by auto
    have "f_StatusCode f = 0 \<or> \<not> bad_code (f_StatusCode f)"
      using assms(2) [unfolded valid_statuses_def, rule_format, OF d(2)] d(3) by simp
    then show ?thesis using d(1)
      by (auto simp: flush_failure_def decided_def rec_Commit_def rw_WriteHeader_def bad_code_def Let_def)
  qed
qed

lemma retry_run_reported:
  "retry_run env cfg cs req a ex atts w x w' \<Longrightarrow> x_ErrorType x \<noteq> [] \<Longrightarrow> rw_status w' \<noteq> None"
  by (induction rule: retry_run.induct) (auto dest: flush_failure_status)

section \<open>A sample pool\<close>

text \<open>Two nodes, of which the first one answers 503 and the second one 200.\<close>

definition pool_node :: "string \<Rightarrow> ModelNode" where
  "pool_node i = \<lparr>n_ID = i, n_Name = i, n_Aliases = [''gpt''], n_BaseURL = ''http://'' @ i, n_APIKey = [],
     n_ModelName = [], n_EndpointType = EndpointAll, n_TPM = 0, n_RPM = 0, n_Override = [],
     n_TimeoutSec = 30, n_Enabled = True, n_CreatedAt = 0, n_UpdatedAt = 0\<rparr>"

definition pool_router :: Router where
  "pool_router = router_Sync [''a'', ''b''] router_New [pool_node ''a'', pool_node ''b'']"

definition pool_env :: retry_env where
  "pool_env = \<lparr>re_proxy = (\<lambda>a. sample_env\<lparr>e_Do := \<lambda>_. Inr \<lparr>resp_Status = (if a = 1 then 503 else 200),
       resp_Header = [], resp_Body = (if a = 1 then ''busy'' else ''hello''), resp_BodyErr = None\<rparr>\<rparr>),
     re_done = (\<lambda>_. False), re_intn = (\<lambda>_ _. 0), re_intn_next = (\<lambda>_ _. 0), re_uri = (\<lambda>_ p. Some p),
     re_attemptMs = (\<lambda>_. 1), re_execMs = (\<lambda>_. 2)\<rparr>"

definition pool_config :: "int \<Rightarrow> WorkerConfig" where
  "pool_config n = \<lparr>wc_WorkerCount = 1, wc_MaxRetryAttempts = n, wc_RetryDelayMs = 0, wc_MaxWaitTime = 0\<rparr>"

definition pool_request :: PendingRequest where
  "pool_request = (sample_request ''r1'' 0 0 0)\<lparr>p_ModelAlias := ''gpt'', p_EndpointType := EndpointChat,
     p_BodyBytes := ''{}'', p_Headers := [], p_Method := ''POST'', p_Path := ''/v1/chat/completions''\<rparr>"

lemma pool_candidates: "Resolve pool_router ''gpt'' EndpointChat = [pool_node ''a'', pool_node ''b'']"
  by (simp add: Resolve_def pool_router_def router_Sync_def rebuildAliasIdx_def range_nodes_def map_filter_def
      pool_node_def endpointMatches_def)

lemmas pool_simps = pool_env_def pool_config_def pool_request_def pool_node_def sample_env_def

lemma pool_build:
  "buildHTTPRequest (re_uri pool_env) pool_request = Some \<lparr>hr_Method = ''POST'',
     hr_RequestURI = ''/v1/chat/completions'', hr_Header = [], hr_Body = Inr ''{}''\<rparr>"
  by (simp add: buildHTTPRequest_def pool_simps)

lemma pool_forward:
  "Forward (re_proxy pool_env a) rec_ops (pool_node i) \<lparr>hr_Method = ''POST'',
     hr_RequestURI = ''/v1/chat/completions'', hr_Header = [], hr_Body = Inr ''{}''\<rparr> (newRetryableRecorder w) =
   (let sc = (if a = 1 then 503 else 200); b = (if a = 1 then ''busy'' else ''hello'');
        r1 = the (rec_WriteHeader (newRetryableRecorder w) sc)
    in case rec_Write r1 b of ((n, e), r2) \<Rightarrow>
         Some ((Some \<lparr>f_StatusCode = sc, f_Body = b, f_Stream = None, f_DurationMs = 5\<rparr>,
                map_option (wrap_error ''proxy: write response to client: '') e), r2))"
proof -
  have h: "rec_SetHeader (newRetryableRecorder w) [] = newRetryableRecorder w"
    by (simp add: rec_SetHeader_def newRetryableRecorder_def)
  have "\<not> bad_code (if a = 1 then 503 else 200)" by (simp add: bad_code_def)
  then obtain r1 where r1: "rec_WriteHeader (newRetryableRecorder w) (if a = 1 then 503 else 200) = Some r1"
    using rec_WriteHeader_ok by blast
  show ?thesis
    by (subst Forward_object [of _ "''{}''" _ "[]"])
      (auto simp: pool_simps parse_body_def empty_body sent_body_def ApplyOverride_def forward_send_def is_stream_def
        forward_plain_response_def h r1 r1 [simplified] newRetryableRecorder_def [of w, THEN arg_cong, of r_header, simplified]
        Let_def split: prod.splits option.splits)
qed

lemma pool_first:
  "attempt_made pool_env [pool_node ''a'', pool_node ''b''] pool_request 1 {} fresh_writer (pool_node ''a'')
     (Some \<lparr>f_StatusCode = 503, f_Body = ''busy'', f_Stream = None, f_DurationMs = 5\<rparr>) None
     \<lparr>r_w = fresh_writer, r_header = [], r_statusCode = 503, r_wroteHeader = True, r_body = ''busy'', r_commit = False\<rparr>"
proof -
  have "pickNode (re_intn pool_env 1) [pool_node ''a'', pool_node ''b''] {} = Some (pool_node ''a'')"
    by (simp add: pickNode_def available_def Pick_def pool_simps)
  moreover have "rec_Write (the (rec_WriteHeader (newRetryableRecorder fresh_writer) 503)) ''busy'' = ((4, None),
      \<lparr>r_w = fresh_writer, r_header = [], r_statusCode = 503, r_wroteHeader = True, r_body = ''busy'', r_commit = False\<rparr>)"
    by (simp add: rec_WriteHeader_def rec_Write_def newRetryableRecorder_def IsRetryable_def ClassifyError_def Let_def)
  ultimately show ?thesis
    unfolding attempt_made_def pool_build by (simp add: pool_forward Let_def)
qed

definition served_writer :: ResponseWriter where
  "served_writer = fresh_writer\<lparr>rw_status := Some 200, rw_body := ''hello'', rw_writes := 1\<rparr>"

lemma pool_second:
  "attempt_made pool_env [pool_node ''a'', pool_node ''b''] pool_request 2 {''a''} fresh_writer (pool_node ''b'')
     (Some \<lparr>f_StatusCode = 200, f_Body = ''hello'', f_Stream = None, f_DurationMs = 5\<rparr>) None
     \<lparr>r_w = served_writer, r_header = [], r_statusCode = 200, r_wroteHeader = True, r_body = [], r_commit = True\<rparr>"
proof -
  have "pickNode (re_intn pool_env 2) [pool_node ''a'', pool_node ''b''] {''a''} = Some (pool_node ''b'')"
    by (simp add: pickNode_def available_def Pick_def pool_simps)
  moreover have "rec_Write (the (rec_WriteHeader (newRetryableRecorder fresh_writer) 200)) ''hello'' = ((5, None),
      \<lparr>r_w = served_writer, r_header = [], r_statusCode = 200, r_wroteHeader = True, r_body = [], r_commit = True\<rparr>)"
    by (simp add: rec_WriteHeader_def rec_Write_def newRetryableRecorder_def rec_Commit_def rw_SetHeader_def
        rw_WriteHeader_def rw_begin_def bad_code_def rw_Write_def served_writer_def fresh_writer_def IsRetryable_def ClassifyError_def Let_def)
  ultimately show ?thesis
    unfolding attempt_made_def pool_build by (simp add: pool_forward Let_def)
qed

lemma pool_run:
  "\<exists>x. forwardWithRetry pool_env (pool_config 2) pool_router pool_request fresh_writer = Some (x, served_writer) \<and>
     x_Error x = [] \<and> x_FinalNodeID x = ''b'' \<and> x_StatusCode x = 200 \<and> length (x_Attempts x) = 2"
proof -
  have e: "p_ModelAlias pool_request = ''gpt''" "p_EndpointType pool_request = EndpointChat" "n_ID (pool_node i) = i"
      "\<not> re_done pool_env a" "wc_MaxRetryAttempts (pool_config 2) = 2" for i a
    by (simp_all add: pool_simps)
  have n: "pickNode (re_intn_next pool_env 1) [pool_node ''a'', pool_node ''b''] {''a''} \<noteq> None"
    by (simp add: pickNode_def available_def Pick_def) (simp add: pool_simps)
  have "forwardWithRetry pool_env (pool_config 2) pool_router pool_request fresh_writer =
      retry_loop pool_env (pool_config 2) [pool_node ''a'', pool_node ''b''] pool_request 1 {} [] fresh_writer"
    by (simp add: forwardWithRetry_def e pool_candidates)
  then show ?thesis
    using retry_loop_attempt [OF _ _ pool_first, of "pool_config 2" "[]"] n
      retry_loop_attempt [OF _ _ pool_second, of "pool_config 2"]
    by (simp add: e attempt_class_def attempt_status_def ClassifyError_def IsRetryable_def numeral_2_eq_2)
qed

lemma pool_no_write_error:
  assumes "attempt_made pool_env [pool_node ''a'', pool_node ''b''] pool_request a ex fresh_writer node fr (Some e) rec"
  shows "\<not> r_commit rec"
proof -
  obtain hr where h: "pickNode (re_intn pool_env a) [pool_node ''a'', pool_node ''b''] ex = Some node"
      "buildHTTPRequest (re_uri pool_env) pool_request = Some hr"
      "Forward (re_proxy pool_env a) rec_ops node hr (newRetryableRecorder fresh_writer) = Some ((fr, Some e), rec)"
    using assms by (auto simp: attempt_made_def)
  have "node \<in> set [pool_node ''a'', pool_node ''b'']"
    using pickNode_mem [OF h(1)] by (simp add: pool_env_def)
  then obtain i where i: "node = pool_node i" by auto
  have "\<exists>n r. rec_Write (the (rec_WriteHeader (newRetryableRecorder fresh_writer) (if a = 1 then 503 else 200))) b =
      ((n, None), r)" for b
    by (auto simp: rec_Write_def rec_WriteHeader_def rec_Commit_def newRetryableRecorder_def rw_SetHeader_def
        rw_WriteHeader_def rw_begin_def bad_code_def rw_Write_def fresh_writer_def Let_def)
  then show ?thesis
    using h(3) unfolding i h(2) [symmetric, unfolded pool_build option.inject] pool_forward
    by (auto simp: Let_def split: prod.splits) (metis option.distinct(1) prod.inject)+
qed

text \<open>A stream that breaks off: the first node sends one line and then resets the connection.\<close>

definition reset_error :: goerror where
  "reset_error = \<lparr>err_text = ''connection reset'', err_deadline = False, err_canceled = False\<rparr>"

definition broken_env :: retry_env where
  "broken_env = pool_env\<lparr>re_proxy := (\<lambda>a. sample_env\<lparr>e_Do := \<lambda>_. Inr \<lparr>resp_Status = 200, resp_Header = [], resp_Body = ''x'' @ [newline],
       resp_BodyErr = (if a = 1 then Some reset_error else None)\<rparr>\<rparr>)\<rparr>"

definition broken_request :: PendingRequest where
  "broken_request = pool_request\<lparr>p_BodyBytes := ''{\"stream\":true}''\<rparr>"

lemma stream_body: "Unmarshal_map ''{\"stream\":true}'' = Some (Some [(''stream'', JBool True)])"
  by (simp add: json_eval)

lemma ForwardStream_body_error:
  "\<exists>sr e' w'. ForwardStream W dc ds ctx_err b (Some e) w = ((sr, Some e'), w')"
proof -
  obtain ts tl where sl: "scan_lines b = (ts, tl)" by (meson surj_pair)
  define acc0 where "acc0 = \<lparr>sa_result = empty_stream_result, sa_content = [], sa_usageFound = False\<rparr>"
  obtain e1 acc w1 where lp: "stream_loop W dc ds ctx_err 0 ts acc0 w = ((e1, acc), w1)" by (metis surj_pair)
  show ?thesis
    by (cases e1) (simp_all add: ForwardStream_def sl Let_def acc0_def [symmetric] lp)
qed

lemma broken_first:
  "\<exists>f e rec. attempt_made broken_env [pool_node ''a'', pool_node ''b''] broken_request 1 {} fresh_writer (pool_node ''a'')
     (Some f) (Some e) rec \<and> r_commit rec"
proof -
  define hr where "hr = \<lparr>hr_Method = ''POST'', hr_RequestURI = ''/v1/chat/completions'', hr_Header = [], hr_Body = Inr ''{\"stream\":true}''\<rparr>"
  have p: "pickNode (re_intn broken_env 1) [pool_node ''a'', pool_node ''b''] {} = Some (pool_node ''a'')"
    by (simp add: pickNode_def available_def Pick_def pool_simps broken_env_def)
  have b: "buildHTTPRequest (re_uri broken_env) broken_request = Some hr"
    by (simp add: buildHTTPRequest_def pool_simps broken_env_def broken_request_def hr_def)
  define resp where "resp = \<lparr>resp_Status = 200, resp_Header = [], resp_Body = ''x'' @ [newline], resp_BodyErr = Some reset_error\<rparr>"
  have "Forward (re_proxy broken_env 1) rec_ops (pool_node ''a'') hr (newRetryableRecorder fresh_writer) =
      forward_stream_response (re_proxy broken_env 1) rec_ops resp (newRetryableRecorder fresh_writer)"
    by (subst Forward_object [of _ "''{\"stream\":true}''" _ "[(''stream'', JBool True)]"])
      (simp_all add: hr_def broken_env_def pool_simps parse_body_def stream_body sent_body_def ApplyOverride_def
        forward_send_def is_stream_def resp_def)
  moreover have "\<exists>f e rec. forward_stream_response env rec_ops resp w = Some ((Some f, Some e), rec) \<and> f_StatusCode f = 200" for env w
  proof -
    obtain r1 where "rec_WriteHeader (rec_SetHeader w (stream_header (r_header w))) 200 = Some r1"
      using rec_WriteHeader_ok [of 200 "rec_SetHeader w (stream_header (r_header w))"] by (auto simp: bad_code_def)
    then show ?thesis
      using ForwardStream_body_error [of rec_ops json_chunk json_sg "e_ctx_err env" "''x'' @ [newline]" reset_error r1]
      by (auto simp: forward_stream_response_def Let_def resp_def)
  qed
  ultimately obtain f e' rec where f: "Forward (re_proxy broken_env 1) rec_ops (pool_node ''a'') hr (newRetryableRecorder fresh_writer) =
      Some ((Some f, Some e'), rec)" "f_StatusCode f = 200"
    by metis
  have "r_commit rec"
    using Forward_rec_cases [OF f(1)] f(2) by (simp add: decided_def ClassifyError_def IsRetryable_def)
  then show ?thesis using p b f by (auto simp: attempt_made_def)
qed

section \<open>Properties\<close>

text \<open>C17. The attempts of a request are bounded by the configured number, are numbered in order, and use
  every node at most once; the nodes are enabled candidates of the router.\<close>

theorem retry_bounded:
  assumes "forwardWithRetry env cfg r req w = Some (x, w')" "\<And>a n. 0 < n \<Longrightarrow> re_intn env a n < n"
  shows "int (length (x_Attempts x)) \<le> max 0 (wc_MaxRetryAttempts cfg) \<and> distinct (map a_NodeID (x_Attempts x)) \<and>
    a_NodeID ` set (x_Attempts x) \<subseteq> n_ID ` {n \<in> set (Resolve r (p_ModelAlias req) (p_EndpointType req)). n_Enabled n} \<and>
    map a_Attempt (x_Attempts x) = map int [1..<Suc (length (x_Attempts x))]"
proof (cases "Resolve r (p_ModelAlias req) (p_EndpointType req) = []")
  case True
  then show ?thesis using assms(1) by (auto simp: forwardWithRetry_def Let_def)
next
  case False
  then have "retry_run env cfg (Resolve r (p_ModelAlias req) (p_EndpointType req)) req 1 {} [] w x w'"
    using assms(1) by (auto simp: forwardWithRetry_def Let_def intro: retry_loop_run)
  from retry_run_attempts [OF this assms(2)] show ?thesis
    by (simp add: attempts_ok_def usable_ids_def)
qed

theorem retry_bounded_witness:
  "\<exists>x. forwardWithRetry pool_env (pool_config 2) pool_router pool_request fresh_writer = Some (x, served_writer) \<and>
     distinct (map a_NodeID (x_Attempts x))"
proof -
  obtain x where x: "forwardWithRetry pool_env (pool_config 2) pool_router pool_request fresh_writer = Some (x, served_writer)"
    using pool_run by blast
  have "re_intn pool_env a n < n" if "0 < n" for a n using that by (simp add: pool_env_def)
  then show ?thesis using retry_bounded [OF x] x by blast
qed

text \<open>C18. Failed attempts leave no trace: when no failed attempt had begun its response, the client of a
  successful request gets exactly what the last attempt alone would have sent, and the
  result names that attempt's node and status.\<close>

theorem client_gets_last_attempt:
  assumes "forwardWithRetry env cfg r req w = Some (x, w')" "x_Error x = []"
    and "\<And>a ex node fr e rec. attempt_made env (Resolve r (p_ModelAlias req) (p_EndpointType req)) req a ex w node fr (Some e) rec
      \<Longrightarrow> \<not> r_commit rec"
  shows "\<exists>a ex node f rec. attempt_made env (Resolve r (p_ModelAlias req) (p_EndpointType req)) req a ex w node (Some f) None rec \<and>
    w' = r_w rec \<and> r_commit rec \<and> x_FinalNodeID x = n_ID node \<and> x_StatusCode x = f_StatusCode f"
proof -
  have "retry_run env cfg (Resolve r (p_ModelAlias req) (p_EndpointType req)) req 1 {} [] w x w'"
    using assms(1,2) by (auto simp: forwardWithRetry_def Let_def intro: retry_loop_run split: if_splits)
  from retry_run_isolated [OF this assms(2,3)] show ?thesis .
qed

theorem client_gets_last_attempt_witness:
  "\<exists>a ex node f rec. attempt_made pool_env [pool_node ''a'', pool_node ''b''] pool_request a ex fresh_writer node (Some f) None rec \<and>
     served_writer = r_w rec \<and> n_ID node = ''b'' \<and> f_StatusCode f = 200"
proof -
  obtain x where x: "forwardWithRetry pool_env (pool_config 2) pool_router pool_request fresh_writer = Some (x, served_writer)"
      "x_Error x = []" "x_FinalNodeID x = ''b''" "x_StatusCode x = 200"
    using pool_run by blast
  have c: "Resolve pool_router (p_ModelAlias pool_request) (p_EndpointType pool_request) = [pool_node ''a'', pool_node ''b'']"
    using pool_candidates by (simp add: pool_request_def)
  have "\<exists>a ex node f rec. attempt_made pool_env [pool_node ''a'', pool_node ''b''] pool_request a ex fresh_writer node (Some f) None rec \<and>
      served_writer = r_w rec \<and> r_commit rec \<and> ''b'' = n_ID node \<and> 200 = f_StatusCode f"
    by (rule client_gets_last_attempt [OF x(1,2), unfolded c x(3,4)]) (rule pool_no_write_error)
  then show ?thesis by metis
qed

text \<open>C20. A failure that is reported as such has been written to the client: whenever the result carries
  an error type, the client's writer has a status.\<close>

theorem failure_reported:
  assumes "forwardWithRetry env cfg r req w = Some (x, w')" "x_ErrorType x \<noteq> []"
  shows "rw_status w' \<noteq> None"
proof -
  have "retry_run env cfg (Resolve r (p_ModelAlias req) (p_EndpointType req)) req 1 {} [] w x w'"
    using assms by (auto simp: forwardWithRetry_def Let_def intro: retry_loop_run split: if_splits)
  then show ?thesis using retry_run_reported assms(2) by blast
qed

theorem failure_reported_witness:
  "\<exists>x w'. forwardWithRetry pool_env (pool_config 1) pool_router pool_request fresh_writer = Some (x, w') \<and>
     x_ErrorType x = ''upstream_5xx'' \<and> rw_status w' \<noteq> None"
proof -
  have e: "p_ModelAlias pool_request = ''gpt''" "p_EndpointType pool_request = EndpointChat"
      "\<not> re_done pool_env a" "wc_MaxRetryAttempts (pool_config 1) = 1" for a
    by (simp_all add: pool_simps)
  have v: "valid_statuses (re_proxy pool_env 1)"
    by (simp add: pool_simps valid_statuses_def bad_code_def)
  have "\<exists>x w'. forwardWithRetry pool_env (pool_config 1) pool_router pool_request fresh_writer = Some (x, w') \<and>
     x_ErrorType x = ''upstream_5xx''"
    using retry_loop_attempt [OF _ _ pool_first, of "pool_config 1" "[]"] flush_failure_ok [OF pool_first v, of "''upstream_5xx''"]
    by (simp add: forwardWithRetry_def e pool_candidates attempt_class_def attempt_status_def ClassifyError_def IsRetryable_def)
  then show ?thesis using failure_reported by fastforce
qed

text \<open>C21. A failed attempt is retried even after its response has begun: whatever the class of the error,
  the loop goes on with the client's writer in the state the broken attempt left it.\<close>

theorem committed_failure_retried:
  assumes "attempt_made env cs req a ex w node (Some f) (Some e) rec" "r_commit rec"
    and "int a < wc_MaxRetryAttempts cfg" "\<not> re_done env a"
    and "pickNode (re_intn_next env a) cs (insert (n_ID node) ex) \<noteq> None"
  shows "rw_status (r_w rec) \<noteq> None \<and> retry_loop env cfg cs req a ex atts w =
    retry_loop env cfg cs req (Suc a) (insert (n_ID node) ex) (atts @ [logged env a node (Some f) (Some e) rec]) (r_w rec)"
proof -
  obtain hr where "Forward (re_proxy env a) rec_ops node hr (newRetryableRecorder w) = Some ((Some f, Some e), rec)"
    using assms(1) by (auto simp: attempt_made_def)
  from Forward_rec_cases [OF this] have "rw_status (r_w rec) \<noteq> None"
    using assms(2) by (auto simp: decided_def split: if_splits)
  then show ?thesis using retry_loop_attempt [OF _ assms(4,1), of cfg atts] assms(3,5) by auto
qed

theorem committed_failure_retried_witness:
  "\<exists>f e rec. rw_status (r_w rec) \<noteq> None \<and>
     retry_loop broken_env (pool_config 2) [pool_node ''a'', pool_node ''b''] broken_request 1 {} [] fresh_writer =
     retry_loop broken_env (pool_config 2) [pool_node ''a'', pool_node ''b''] broken_request 2 {''a''}
       [logged broken_env 1 (pool_node ''a'') (Some f) (Some e) rec] (r_w rec)"
proof -
  obtain f e rec where am: "attempt_made broken_env [pool_node ''a'', pool_node ''b''] broken_request 1 {} fresh_writer
      (pool_node ''a'') (Some f) (Some e) rec" "r_commit rec"
    using broken_first by blast
  have "pickNode (re_intn_next broken_env 1) [pool_node ''a'', pool_node ''b''] {n_ID (pool_node ''a'')} \<noteq> None"
    by (simp add: pickNode_def available_def Pick_def pool_simps)
  moreover have "\<not> re_done broken_env 1" "int 1 < wc_MaxRetryAttempts (pool_config 2)"
    by (simp_all add: pool_simps broken_env_def)
  ultimately show ?thesis
    using committed_failure_retried [OF am, of "pool_config 2" "[]"]
    by (auto simp: numeral_2_eq_2 pool_node_def [of "''a''", THEN arg_cong, of n_ID, simplified])
qed

text \<open>C22. Without a node for the model nothing is written to the client, although the result is an error.\<close>

theorem no_nodes_silent:
  assumes "Resolve r (p_ModelAlias req) (p_EndpointType req) = []"
  shows "\<exists>x. forwardWithRetry env cfg r req w = Some (x, w) \<and> x_StatusCode x = 502 \<and> x_Error x = ''no nodes'' \<and>
    x_ErrorType x = []"
  using assms by (simp add: forwardWithRetry_def)

theorem no_nodes_silent_witness:
  "\<exists>x. forwardWithRetry pool_env (pool_config 2) router_New pool_request fresh_writer = Some (x, fresh_writer) \<and>
     x_Error x = ''no nodes''"
proof -
  have "Resolve router_New (p_ModelAlias pool_request) (p_EndpointType pool_request) = []"
    by (simp add: Resolve_def router_New_def)
  then show ?thesis using no_nodes_silent by blast
qed



end
