(* ===== verification/Startup.thy ===== *)
theory Startup
  imports Config Server Sqlite_Logger Worker_Retry
begin

text \<open>
  The start of the program in \<^verbatim>\<open>cmd/proxyllm/main.go\<close>: the data directory, the choice of the cache,
  the reconciliation of the database with the configuration, the routing table, the limits per
  model, and the cached lookup of the limits per key.  \<open>Inl\<close> is an exit with the lines logged
  before it.  The maps of the configuration are association lists in the order in which Go happens
  to range over them; \<open>se_store k\<close> is the store as the \<open>k\<close>-th call in a loop sees it, so that each call reads
  the clock anew.
\<close>

section \<open>Where the data are\<close>

record 'd start_env =
  se_getenv :: "string \<Rightarrow> string"
  se_isDir :: "string \<Rightarrow> bool"
  se_stat :: "string \<Rightarrow> bool"
  se_flag :: "string option"
  se_DecodeFile :: "string \<Rightarrow> Config \<Rightarrow> goerror + Config"
  se_Open :: "string \<Rightarrow> goerror + 'd"
  se_ping :: "goerror option"
  se_store :: "nat \<Rightarrow> 'd storage_ops"
  se_order :: "string list"

definition default_dir :: "'d start_env \<Rightarrow> string" where
  "default_dir env =
     (let v = se_getenv env ''PROXYLLM_DATA_DIR''
      in if v \<noteq> [] then v else if se_isDir env ''/app/data'' then ''/app/data'' else DefaultConfigDir)"

definition data_dir :: "'d start_env \<Rightarrow> string" where
  "data_dir env = (case se_flag env of None \<Rightarrow> default_dir env | Some v \<Rightarrow> v)"

datatype cache_choice = MemoryBackend | RedisBackend

definition choose_cache :: "'d start_env \<Rightarrow> CacheConfig \<Rightarrow> cache_choice \<times> log_line list" where
  "choose_cache env cc =
     (if cc_Type cc = ''redis''
      then (case se_ping env of
              Some e \<Rightarrow>
                (MemoryBackend,
                 [slog LError (''cache: redis ping failed '' @ bytes_of [0xE2, 0x80, 0x94] @ '' falling back to in-memory'')
                    [(''addr'', rc_Addr (cc_Redis cc)), (''err'', err_text e)]])
            | None \<Rightarrow> (RedisBackend, [slog LInfo ''cache: using Redis'' [(''addr'', rc_Addr (cc_Redis cc))]]))
      else (MemoryBackend, [slog LInfo ''cache: using in-memory'' []]))"

section \<open>Reconciling the database\<close>

fun upsert_nodes ::
  "(nat \<Rightarrow> 'd storage_ops) \<Rightarrow> nat \<Rightarrow> (string \<times> ModelNode) list \<Rightarrow> 'd \<Rightarrow> (string \<times> goerror) option \<times> 'd" where
  "upsert_nodes so k [] d = (None, d)"
| "upsert_nodes so k ((i, n) # ps) d =
     (case so_UpsertNode (so k) (n\<lparr>n_ID := i\<rparr>) d of
        (Some e, d') \<Rightarrow> (Some (i, e), d')
      | (None, d') \<Rightarrow> upsert_nodes so (Suc k) ps d')"

fun drop_stale_nodes ::
  "'d storage_ops \<Rightarrow> (string \<times> ModelNode) list \<Rightarrow> ModelNode list \<Rightarrow> 'd \<times> log_line list \<Rightarrow> 'd \<times> log_line list" where
  "drop_stale_nodes so cfg [] st = st"
| "drop_stale_nodes so cfg (n # ns) st =
     (if n_ID n \<notin> fst ` set cfg
      then drop_stale_nodes so cfg ns
             (snd (so_DeleteNode so (n_ID n) (fst st)),
              snd st @ [slog LInfo ''removed stale node from DB'' [(''id'', n_ID n), (''name'', n_Name n)]])
      else drop_stale_nodes so cfg ns st)"

definition sync_nodes ::
  "(nat \<Rightarrow> 'd storage_ops) \<Rightarrow> (string \<times> ModelNode) list \<Rightarrow> 'd \<times> log_line list \<Rightarrow> log_line list + 'd \<times> log_line list" where
  "sync_nodes so cfg st =
     (case upsert_nodes so 0 cfg (fst st) of
        (Some (i, e), d1) \<Rightarrow>
          Inl (snd st @ [slog LError ''failed to initialize node from config'' [(''id'', i), (''err'', err_text e)]])
      | (None, d1) \<Rightarrow>
          (case so_ListNodes (so 0) d1 of
             ((ns, Some e), d2) \<Rightarrow> Inr (d2, snd st)
           | ((ns, None), d2) \<Rightarrow> Inr (drop_stale_nodes (so 0) cfg ns (d2, snd st))))"

text \<open>A key without a value in the configuration is skipped; an empty list of models stands for a
  nil one.\<close>

fun upsert_keys ::
  "(nat \<Rightarrow> 'd storage_ops) \<Rightarrow> nat \<Rightarrow> (string \<times> APIKey) list \<Rightarrow> 'd \<Rightarrow> (string \<times> goerror) option \<times> 'd" where
  "upsert_keys so n [] d = (None, d)"
| "upsert_keys so n ((i, k) # ps) d =
     (if k_Key k = [] then upsert_keys so (Suc n) ps d
      else (case so_UpsertAPIKey (so n) (k\<lparr>k_ID := i\<rparr>) d of
              (Some e, d') \<Rightarrow> (Some (i, e), d')
            | (None, d') \<Rightarrow> upsert_keys so (Suc n) ps d'))"

fun drop_stale_keys ::
  "'d storage_ops \<Rightarrow> (string \<times> APIKey) list \<Rightarrow> APIKey list \<Rightarrow> 'd \<times> log_line list \<Rightarrow> 'd \<times> log_line list" where
  "drop_stale_keys so cfg [] st = st"
| "drop_stale_keys so cfg (k # ks) st =
     (if k_ID k \<notin> fst ` set cfg
      then drop_stale_keys so cfg ks
             (snd (so_DeleteAPIKey so (k_ID k) (fst st)),
              snd st @ [slog LInfo ''removed stale api_key from DB'' [(''id'', k_ID k), (''name'', k_Name k)]])
      else drop_stale_keys so cfg ks st)"

definition sync_keys ::
  "(nat \<Rightarrow> 'd storage_ops) \<Rightarrow> (string \<times> APIKey) list \<Rightarrow> 'd \<times> log_line list \<Rightarrow> log_line list + 'd \<times> log_line list" where
  "sync_keys so cfg st =
     (case upsert_keys so 0 cfg (fst st) of
        (Some (i, e), d1) \<Rightarrow>
          Inl (snd st @ [slog LError ''failed to initialize api_key from config'' [(''id'', i), (''err'', err_text e)]])
      | (None, d1) \<Rightarrow>
          (case so_ListAPIKeys (so 0) d1 of
             ((ks, Some e), d2) \<Rightarrow> Inr (d2, snd st)
           | ((ks, None), d2) \<Rightarrow> Inr (drop_stale_keys (so 0) cfg ks (d2, snd st))))"

section \<open>Limits\<close>

text \<open>The limits per model alias: the first node that has a limit and lists the alias decides.\<close>

fun alias_limits :: "RateLimitConfig \<Rightarrow> string list \<Rightarrow> (string \<times> RateLimitConfig) list \<Rightarrow> (string \<times> RateLimitConfig) list" where
  "alias_limits rl [] m = m"
| "alias_limits rl (a # as) m = alias_limits rl as (if map_of m a = None then m @ [(a, rl)] else m)"

fun model_limits :: "ModelNode list \<Rightarrow> (string \<times> RateLimitConfig) list \<Rightarrow> (string \<times> RateLimitConfig) list" where
  "model_limits [] m = m"
| "model_limits (n # ns) m =
     (if n_TPM n \<le> 0 \<and> n_RPM n \<le> 0 then model_limits ns m
      else model_limits ns (alias_limits \<lparr>rl_TPM = n_TPM n, rl_RPM = n_RPM n, rl_MaxRetries = 0\<rparr> (n_Aliases n) m))"

text \<open>\<^verbatim>\<open>fmt.Sprintf("%v", modelLimits)\<close>: a map is printed in the order of its keys.\<close>

definition show_limits :: "(string \<times> RateLimitConfig) list \<Rightarrow> string" where
  "show_limits m =
     ''map['' @ join_strings '' ''
       (map (\<lambda>(a, rl). a @ '':{'' @ FormatInt (rl_TPM rl) @ '' '' @ FormatInt (rl_RPM rl) @ '' '' @ FormatInt (rl_MaxRetries rl) @ ''}'')
         (sort_key fst m)) @ '']''"

text \<open>The limits per key: a lookup in the store, kept for 30 seconds.  \<open>now1\<close> and \<open>now2\<close> are the two
  readings of the clock.\<close>

type_synonym key_cache = "string \<rightharpoonup> RateLimitConfig option \<times> gotime"

definition keyLimitTTL :: duration where
  "keyLimitTTL = 30 * Second"

definition limits_of_key :: "goerror + APIKey option \<Rightarrow> RateLimitConfig option" where
  "limits_of_key r =
     (case r of
        Inr (Some k) \<Rightarrow> if k_TPM k > 0 \<or> k_RPM k > 0 then Some \<lparr>rl_TPM = k_TPM k, rl_RPM = k_RPM k, rl_MaxRetries = 0\<rparr> else None
      | _ \<Rightarrow> None)"

definition keyLimits ::
  "'d storage_ops \<Rightarrow> gotime \<Rightarrow> gotime \<Rightarrow> string \<Rightarrow> key_cache \<times> 'd \<Rightarrow> RateLimitConfig option \<times> key_cache \<times> 'd" where
  "keyLimits so now1 now2 keyID st =
     (let lookup = (case so_GetAPIKey so keyID (snd st) of
                      (r, d) \<Rightarrow> let res = limits_of_key r in (res, (fst st)(keyID \<mapsto> (res, now2 + keyLimitTTL)), d))
      in case fst st keyID of
           Some (cfg, expiresAt) \<Rightarrow> if now1 < expiresAt then (cfg, st) else lookup
         | None \<Rightarrow> lookup)"

section \<open>The start\<close>

record 'd started =
  sd_config :: Config
  sd_db :: 'd
  sd_cache :: cache_choice
  sd_router :: Router
  sd_limits :: "(string \<times> RateLimitConfig) list"
  sd_worker :: WorkerConfig
  sd_log :: "log_line list"

definition main_worker :: "DomainWorkerConfig \<Rightarrow> WorkerConfig" where
  "main_worker w =
     \<lparr>wc_WorkerCount = dw_PoolSize w, wc_MaxRetryAttempts = dw_MaxRetryAttempts w, wc_RetryDelayMs = dw_RetryDelayMs w,
      wc_MaxWaitTime = i64 (dw_MaxWaitTimeSec w * Second)\<rparr>"

definition memory_line :: "int \<Rightarrow> log_line list" where
  "memory_line m = (if m > 0 then [slog LInfo ''memory limit set'' [(''limit_mb'', FormatInt m)]] else [])"

text \<open>Once the database is reconciled: the routing table, the limits and the settings of the workers.\<close>

definition main_tables ::
  "'d start_env \<Rightarrow> Config \<Rightarrow> cache_choice \<Rightarrow> 'd \<times> log_line list \<Rightarrow> log_line list + 'd started" where
  "main_tables env c cache st =
     (case so_ListNodes (se_store env 0) (fst st) of
        ((ns, Some e), d) \<Rightarrow> Inl (snd st @ [slog LError ''load nodes'' [(''err'', err_text e)]])
      | ((ns, None), d) \<Rightarrow>
          let a = cf_App c; limits = model_limits ns []
          in Inr \<lparr>sd_config = c, sd_db = d, sd_cache = cache, sd_router = router_Sync (se_order env) router_New ns,
                  sd_limits = limits, sd_worker = main_worker (ac_Worker a),
                  sd_log = snd st @
                    [slog LInfo ''router loaded'' [(''nodes'', FormatInt (int (length ns)))],
                     slog LInfo ''rate limiter initialized''
                       [(''global_rpm'', FormatInt (rl_RPM (ac_RateLimit a))), (''global_tpm'', FormatInt (rl_TPM (ac_RateLimit a))),
                        (''model_limits'', show_limits limits)]]\<rparr>)"

definition main_start :: "'d sql_engine \<Rightarrow> 'd start_env \<Rightarrow> log_line list + 'd started" where
  "main_start E env =
     (case Load (se_stat env) (se_DecodeFile env) (se_getenv env) (data_dir env) of
        Inl e \<Rightarrow> Inl [slog LError ''load config'' [(''err'', err_text e)]]
      | Inr c \<Rightarrow>
          let a = cf_App c; lg1 = memory_line (sv_MaxMemoryMB (ac_Server a))
          in (case sqlite_Open E (se_Open env) (cf_DBPath c) of
                Inl e \<Rightarrow> Inl (lg1 @ [slog LError ''open sqlite'' [(''err'', err_text e)]])
              | Inr d \<Rightarrow>
                  (case choose_cache env (ac_Cache a) of
                     (cache, lg2) \<Rightarrow>
                       (case sync_nodes (se_store env) (ac_Providers a) (d, lg1 @ lg2) of
                          Inl lg \<Rightarrow> Inl lg
                        | Inr st \<Rightarrow>
                            (case sync_keys (se_store env) (ac_APIKeys a) st of
                               Inl lg \<Rightarrow> Inl lg
                             | Inr st' \<Rightarrow> main_tables env c cache st')))))"

end
