(* ===== verification/Log_Store.thy ===== *)
theory Log_Store
  imports Sqlite_Logger
begin

text \<open>
  What the two log tables of \<^verbatim>\<open>internal/storage/sqlite/logger.go\<close> hold, and what the operations do to it.
  The locale \<open>log_table\<close> is the part they share: entries are inserted once per identifier, in
  transactions, and pruned by age, number and size.  It is used for the request logs and for the
  detail logs; the queries on the request logs follow.
\<close>

section \<open>Entries of a table\<close>

definition log_row :: "string list \<Rightarrow> ('a \<Rightarrow> sqlval list) \<Rightarrow> ('a \<Rightarrow> gotime) \<Rightarrow> row \<Rightarrow> bool" where
  "log_row cs args stamp r \<longleftrightarrow> (\<exists>x. time_ok (stamp x) \<and> map (col r) cs = args x)"

definition log_rows :: "string \<Rightarrow> coldef list \<Rightarrow> ('a \<Rightarrow> sqlval list) \<Rightarrow> ('a \<Rightarrow> gotime) \<Rightarrow> database \<Rightarrow> bool" where
  "log_rows t cds args stamp db \<longleftrightarrow>
     (\<exists>tb. db t = Some tb \<and> tb_cols tb = cds \<and> table_ok tb \<and> (\<forall>r\<in>set (tb_rows tb). log_row (map cd_name cds) args stamp r))"

definition row_entry :: "string list \<Rightarrow> (sqlval list \<Rightarrow> goerror + 'a) \<Rightarrow> row \<Rightarrow> 'a" where
  "row_entry cs sc r = (case sc (map (col r) cs) of Inr x \<Rightarrow> x)"

definition entries :: "string \<Rightarrow> string list \<Rightarrow> (sqlval list \<Rightarrow> goerror + 'a) \<Rightarrow> database \<Rightarrow> 'a list" where
  "entries t cs sc db = map (row_entry cs sc) (table_rows db t)"

text \<open>An insertion that ignores an entry whose identifier is there.\<close>

definition add_entry :: "('a \<Rightarrow> string) \<Rightarrow> 'a \<Rightarrow> 'a list \<Rightarrow> 'a list" where
  "add_entry ident x xs = (if ident x \<in> ident ` set xs then xs else xs @ [x])"

lemma add_entry_ids: "set (map ident (add_entry ident x xs)) = insert (ident x) (set (map ident xs))"
  by (auto simp: add_entry_def)

lemma fold_add_entry_ids: "set (map ident (fold (add_entry ident) ys xs)) = ident ` set ys \<union> ident ` set xs"
  by (induction ys arbitrary: xs) (auto simp: add_entry_def)

locale log_table = sqlite E tables saved strftime
  for E :: "'d sql_engine" and tables saved strftime +
  fixes t key :: string and cds :: "coldef list" and args :: "'a \<Rightarrow> sqlval list" and ident :: "'a \<Rightarrow> string" and stamp :: "'a \<Rightarrow> gotime"
    and sc :: "sqlval list \<Rightarrow> goerror + 'a"
  assumes cols: "distinct (map cd_name cds)" "map cd_name (filter cd_unique cds) = [key]"
    and args_length: "length (args x) = length cds"
    and args_no_null: "VNull \<notin> set (args x)"
    and args_key: "map_of (zip (map cd_name cds) (args x)) key = Some (VText (ident x))"
    and args_stamp: "map_of (zip (map cd_name cds) (args x)) ''timestamp'' = Some (VText (Format_RFC3339Nano (stamp x)))"
    and args_scan: "time_ok (stamp x) \<Longrightarrow> sc (args x) = Inr x"
begin

lemma map_col_zip:
  assumes "map (col r) (map cd_name cds) = vs" "map_of (zip (map cd_name cds) vs) c = Some v"
  shows "col r c = v"
proof -
  have "(c, v) \<in> set (zip (map cd_name cds) (map (col r) (map cd_name cds)))" using assms map_of_SomeD by metis
  then show ?thesis by (auto simp: set_zip)
qed

lemma entry_row:
  assumes "log_row (map cd_name cds) args stamp r"
  shows "time_ok (stamp (row_entry (map cd_name cds) sc r))"
    and "map (col r) (map cd_name cds) = args (row_entry (map cd_name cds) sc r)"
    and "col r key = VText (ident (row_entry (map cd_name cds) sc r))"
    and "col r ''timestamp'' = VText (Format_RFC3339Nano (stamp (row_entry (map cd_name cds) sc r)))"
proof -
  obtain x where x: "time_ok (stamp x)" "map (col r) (map cd_name cds) = args x" using assms by (auto simp: log_row_def)
  have e: "row_entry (map cd_name cds) sc r = x" unfolding row_entry_def x(2) args_scan [OF x(1)] by simp
  show "time_ok (stamp (row_entry (map cd_name cds) sc r))" "map (col r) (map cd_name cds) = args (row_entry (map cd_name cds) sc r)"
    using x by (simp_all only: e)
  show "col r key = VText (ident (row_entry (map cd_name cds) sc r))"
    unfolding e by (rule map_col_zip [OF x(2) args_key])
  show "col r ''timestamp'' = VText (Format_RFC3339Nano (stamp (row_entry (map cd_name cds) sc r)))"
    unfolding e by (rule map_col_zip [OF x(2) args_stamp])
qed

lemma unique_key: "clashes cds r r' \<longleftrightarrow> col r key = col r' key \<and> col r key \<noteq> VNull"
proof -
  have "clashes cds r r' \<longleftrightarrow> (\<exists>c\<in>set (map cd_name (filter cd_unique cds)). col r c = col r' c \<and> col r c \<noteq> VNull)"
    by (auto simp: clashes_def list_ex_iff)
  then show ?thesis by (simp add: cols(2))
qed

lemma new_entry_row:
  assumes "time_ok (stamp x)"
  shows "map (col (new_row cds (map cd_name cds) (args x))) (map cd_name cds) = args x"
    and "log_row (map cd_name cds) args stamp (new_row cds (map cd_name cds) (args x))"
    and "null_ok cds (new_row cds (map cd_name cds) (args x))"
    and "row_entry (map cd_name cds) sc (new_row cds (map cd_name cds) (args x)) = x"
proof -
  let ?r = "new_row cds (map cd_name cds) (args x)"
  show m: "map (col ?r) (map cd_name cds) = args x"
    by (rule new_row_cols) (use cols(1) args_length in simp_all)
  show "log_row (map cd_name cds) args stamp ?r" unfolding log_row_def using m assms by blast
  have "col ?r (cd_name cd) \<noteq> VNull" if "cd \<in> set cds" for cd
  proof -
    have "col ?r (cd_name cd) \<in> set (map (col ?r) (map cd_name cds))" using that by simp
    then show ?thesis using m args_no_null by metis
  qed
  then show "null_ok cds ?r" by (simp add: null_ok_def list_all_iff)
  show "row_entry (map cd_name cds) sc ?r = x" unfolding row_entry_def m args_scan [OF assms] by simp
qed

lemma insert_entry:
  assumes tab: "log_rows t cds args stamp (tables d)" and x: "time_ok (stamp x)"
    and ex: "db_Exec E (SInsert True t (map cd_name cds) None) (args x) d = (None, d')"
  shows "entries t (map cd_name cds) sc (tables d') = add_entry ident x (entries t (map cd_name cds) sc (tables d)) \<and>
    log_rows t cds args stamp (tables d') \<and> (\<forall>t'. t' \<noteq> t \<longrightarrow> tables d' t' = tables d t')"
proof -
  obtain tb where tb: "tables d t = Some tb" "tb_cols tb = cds" "table_ok tb"
      and rows: "\<And>r. r \<in> set (tb_rows tb) \<Longrightarrow> log_row (map cd_name cds) args stamp r"
    using tab by (auto simp: log_rows_def)
  let ?new = "new_row cds (map cd_name cds) (args x)"
  note new = new_entry_row [OF x]
  obtain orc where "sql_exec orc (tables d) (SInsert True t (map cd_name cds) None) (args x) = Some (tables d')" using exec_ok [OF ex] by blast
  then obtain rs where i: "insert_row cds True None ?new (tb_rows tb) = Some rs" and db': "tables d' = (tables d)(t \<mapsto> tb\<lparr>tb_rows := rs\<rparr>)"
    using tb by (auto split: if_splits)
  have nk: "col ?new key = VText (ident x)" using entry_row(3) [OF new(2)] new(4) by simp
  have "list_ex (clashes cds ?new) (tb_rows tb) \<longleftrightarrow> ident x \<in> ident ` set (map (row_entry (map cd_name cds) sc) (tb_rows tb))"
    using entry_row(3) [OF rows] nk by (auto simp: list_ex_iff unique_key)
  then have rs: "map (row_entry (map cd_name cds) sc) rs = add_entry ident x (map (row_entry (map cd_name cds) sc) (tb_rows tb))"
      "set rs \<subseteq> insert ?new (set (tb_rows tb))"
    using i new(3,4) by (auto simp: insert_row_def add_entry_def split: if_splits)
  have "table_ok (tb\<lparr>tb_rows := rs\<rparr>)" by (rule insert_row_ok [OF tb(3), unfolded tb(2), OF _ i]) simp
  moreover have "log_row (map cd_name cds) args stamp r" if "r \<in> set rs" for r using that rs(2) rows new(2) by blast
  ultimately show ?thesis using rs(1) db' tb by (auto simp: log_rows_def entries_def)
qed

end


section \<open>Transactions\<close>

context log_table
begin

lemma insert_entries:
  assumes "log_rows t cds args stamp (tables d)" "\<forall>x\<in>set xs. time_ok (stamp x)"
    and "insert_loop E (SInsert True t (map cd_name cds) None) args xs d = (err, d')"
  shows "saved d' = saved d \<and> (err = None \<longrightarrow>
    entries t (map cd_name cds) sc (tables d') = fold (add_entry ident) xs (entries t (map cd_name cds) sc (tables d)) \<and>
    log_rows t cds args stamp (tables d') \<and> (\<forall>t'. t' \<noteq> t \<longrightarrow> tables d' t' = tables d t'))"
  using assms
proof (induction xs arbitrary: d)
  case (Cons x xs)
  let ?st = "SInsert True t (map cd_name cds) None"
  obtain e1 d1 where e1: "db_Exec E ?st (args x) d = (e1, d1)" by (cases "db_Exec E ?st (args x) d")
  note s = exec_saved [OF e1]
  show ?case
  proof (cases e1)
    case None
    have x: "time_ok (stamp x)" using Cons.prems(2) by simp
    note i = insert_entry [OF Cons.prems(1) x e1 [unfolded None]]
    have "insert_loop E ?st args xs d1 = (err, d')" using Cons.prems(3) e1 None by simp
    then show ?thesis using Cons.IH [of d1] Cons.prems(2) i s by auto
  next
    case (Some e)
    then show ?thesis using Cons.prems(3) e1 s by auto
  qed
qed simp

text \<open>A bulk insertion adds all its entries or changes nothing.\<close>

lemma bulk_insert:
  assumes "log_rows t cds args stamp (tables d)" "\<forall>x\<in>set xs. time_ok (stamp x)"
    and "in_transaction E (SInsert True t (map cd_name cds) None) args xs d = (err, d')"
  shows "if err = None
    then entries t (map cd_name cds) sc (tables d') = fold (add_entry ident) xs (entries t (map cd_name cds) sc (tables d)) \<and>
      log_rows t cds args stamp (tables d') \<and> (\<forall>t'. t' \<noteq> t \<longrightarrow> tables d' t' = tables d t')
    else tables d' = tables d"
proof (cases "xs = []")
  case True
  then show ?thesis using assms by (auto simp: in_transaction_def)
next
  case False
  let ?st = "SInsert True t (map cd_name cds) None"
  obtain e1 d1 where b: "db_Begin E d = (e1, d1)" by (cases "db_Begin E d")
  show ?thesis
  proof (cases e1)
    case (Some e)
    then show ?thesis using begin_failed b assms(3) False by (auto simp: in_transaction_def)
  next
    case None
    note b = begin_ok [OF b [unfolded None]] b None
    obtain e2 d2 where p: "db_Prepare E ?st d1 = (e2, d2)" by (cases "db_Prepare E ?st d1")
    note ps = prepare_same [OF p]
    obtain e3 d3 where l: "insert_loop E ?st args xs d2 = (e3, d3)" by (cases "insert_loop E ?st args xs d2")
    have t2: "tables d2 = tables d" "saved d2 = tables d" using b(1) ps by simp_all
    have "log_rows t cds args stamp (tables d2)" using assms(1) t2 by simp
    note il = insert_entries [OF this assms(2) l]
    show ?thesis
    proof (cases "e2 = None \<and> e3 = None")
      case True
      then have c: "db_Commit E d3 = (err, d')" using assms(3) False b p l by (simp add: in_transaction_def)
      then show ?thesis using commit_ok [of d3 d'] commit_failed [of d3 _ d'] il t2 True by (cases err) auto
    next
      case F: False
      then have "tables d' = saved d2 \<and> err \<noteq> None"
        using assms(3) False b(2,3) p l il rollback_saved ps by (cases e2; cases e3) (auto simp: in_transaction_def)
      then show ?thesis using t2 by auto
    qed
  qed
qed

end

section \<open>Pruning\<close>

lemma truthy_compare: "truthy (sql_binop OpLt (VText a) (VText b)) \<longleftrightarrow> a < b"
  by (simp add: sql_binop_def sql_compare_def sql_bool_def truthy_def)

lemma truthy_sql_bool [simp]: "truthy (sql_bool b) = b"
  by (simp add: sql_bool_def truthy_def)

lemma filter_map_cong: "(\<And>x. x \<in> set xs \<Longrightarrow> P x = Q (f x)) \<Longrightarrow> map f (filter P xs) = filter Q (map f xs)"
  by (induction xs) auto

context log_table
begin

lemma delete_entries:
  assumes tab: "log_rows t cds args stamp (tables d)" and ex: "db_Exec E (SDelete t e) vs d = (None, d')"
    and keep: "\<And>orc tb. arranges orc \<Longrightarrow> tables d t = Some tb \<Longrightarrow>
      \<exists>Q. R Q \<and> (\<forall>r\<in>set (tb_rows tb). truthy (eval orc (tables d) [r] r (bound e vs)) = (\<not> Q (row_entry (map cd_name cds) sc r)))"
  shows "\<exists>Q. R Q \<and> entries t (map cd_name cds) sc (tables d') = filter Q (entries t (map cd_name cds) sc (tables d)) \<and>
    log_rows t cds args stamp (tables d') \<and> (\<forall>t'. t' \<noteq> t \<longrightarrow> tables d' t' = tables d t')"
proof -
  obtain tb where tb: "tables d t = Some tb" "tb_cols tb = cds" "table_ok tb"
      and rows: "\<And>r. r \<in> set (tb_rows tb) \<Longrightarrow> log_row (map cd_name cds) args stamp r"
    using tab by (auto simp: log_rows_def)
  obtain orc where orc: "arranges orc" and x: "sql_exec orc (tables d) (SDelete t e) vs = Some (tables d')" using exec_ok [OF ex] by blast
  obtain Q where Q: "R Q" "\<And>r. r \<in> set (tb_rows tb) \<Longrightarrow> truthy (eval orc (tables d) [r] r (bound e vs)) = (\<not> Q (row_entry (map cd_name cds) sc r))"
    using keep [OF orc tb(1)] by blast
  let ?P = "\<lambda>r. \<not> truthy (eval orc (tables d) [r] r (bound e vs))"
  have db': "tables d' = (tables d)(t \<mapsto> tb\<lparr>tb_rows := filter ?P (tb_rows tb)\<rparr>)" using x tb(1) by simp
  have "map (row_entry (map cd_name cds) sc) (filter ?P (tb_rows tb)) = filter Q (map (row_entry (map cd_name cds) sc) (tb_rows tb))"
    using Q(2) by (intro filter_map_cong) simp
  moreover have "table_ok (tb\<lparr>tb_rows := filter ?P (tb_rows tb)\<rparr>)" by (rule table_ok_filter [OF tb(3)])
  ultimately show ?thesis
    using Q(1) db' tb rows by (intro exI [of _ Q]) (auto simp: log_rows_def entries_def)
qed

lemma delete_before:
  assumes "log_rows t cds args stamp (tables d)" "db_Exec E (before_stmt t) [VText s] d = (None, d')"
  shows "entries t (map cd_name cds) sc (tables d') =
      filter (\<lambda>x. \<not> Format_RFC3339Nano (stamp x) < s) (entries t (map cd_name cds) sc (tables d)) \<and>
    log_rows t cds args stamp (tables d') \<and> (\<forall>t'. t' \<noteq> t \<longrightarrow> tables d' t' = tables d t')"
proof -
  let ?Q = "\<lambda>x. \<not> Format_RFC3339Nano (stamp x) < s"
  have "truthy (eval orc (tables d) [r] r (bound (EBin OpLt (ECol ''timestamp'') EParam) [VText s])) =
      (\<not> ?Q (row_entry (map cd_name cds) sc r))"
    if "tables d t = Some tb" "r \<in> set (tb_rows tb)" for orc tb r
  proof -
    have "log_row (map cd_name cds) args stamp r" using assms(1) that by (auto simp: log_rows_def)
    then show ?thesis using entry_row(4) [of r] by (simp add: bound_def truthy_compare)
  qed
  then have "\<exists>Q. Q = ?Q \<and> (\<forall>r\<in>set (tb_rows tb). truthy (eval orc (tables d) [r] r (bound (EBin OpLt (ECol ''timestamp'') EParam) [VText s])) =
      (\<not> Q (row_entry (map cd_name cds) sc r)))" if "tables d t = Some tb" for orc tb
    using that by simp
  from delete_entries [OF assms(1) assms(2) [unfolded before_stmt_def], of "\<lambda>Q. Q = ?Q", OF this] show ?thesis by blast
qed

end


lemma limit_offset_subset: "set (limit_offset n m xs) \<subseteq> set xs"
  by (auto simp: limit_offset_def Let_def dest: in_set_takeD in_set_dropD)

text \<open>The deletion of the entries that a subquery picks by their rank in the order of the timestamps.\<close>

definition by_time :: "('a \<Rightarrow> gotime) \<Rightarrow> bool \<Rightarrow> 'a list \<Rightarrow> bool" where
  "by_time stamp desc ys \<longleftrightarrow>
     sorted_wrt (\<lambda>a b. if desc then Format_RFC3339Nano (stamp b) \<le> Format_RFC3339Nano (stamp a)
                       else Format_RFC3339Nano (stamp a) \<le> Format_RFC3339Nano (stamp b)) ys"

context log_table
begin

lemma rows_distinct:
  assumes "log_rows t cds args stamp db" "db t = Some tb"
  shows "distinct (map (\<lambda>r. col r key) (tb_rows tb))" "distinct (map ident (entries t (map cd_name cds) sc db))"
proof -
  have tb: "tb_cols tb = cds" "table_ok tb" and rows: "\<And>r. r \<in> set (tb_rows tb) \<Longrightarrow> log_row (map cd_name cds) args stamp r"
    using assms by (auto simp: log_rows_def)
  have "key \<in> set (map cd_name (filter cd_unique cds))" using cols(2) by simp
  then have u: "unique_col tb key" using tb(1) by (auto simp: unique_col_def)
  show d: "distinct (map (\<lambda>r. col r key) (tb_rows tb))"
    by (rule unique_distinct [OF tb(2) u]) (use entry_row(3) [OF rows] in simp)
  have "map (\<lambda>r. col r key) (tb_rows tb) = map VText (map ident (entries t (map cd_name cds) sc db))"
    using entry_row(3) [OF rows] assms(2) by (simp add: entries_def)
  then show "distinct (map ident (entries t (map cd_name cds) sc db))" using d by (metis distinct_map)
qed

lemma ordered_entries:
  assumes "\<And>r. r \<in> set rs \<Longrightarrow> log_row (map cd_name cds) args stamp r"
  shows "by_time stamp desc (map (row_entry (map cd_name cds) sc) (order_rows (\<lambda>r. col r ''timestamp'') desc rs))"
proof -
  let ?rs = "order_rows (\<lambda>r. col r ''timestamp'') desc rs"
  have "sorted_wrt (\<lambda>a b. if desc then Format_RFC3339Nano (stamp (row_entry (map cd_name cds) sc b)) \<le> Format_RFC3339Nano (stamp (row_entry (map cd_name cds) sc a))
      else Format_RFC3339Nano (stamp (row_entry (map cd_name cds) sc a)) \<le> Format_RFC3339Nano (stamp (row_entry (map cd_name cds) sc b))) ?rs"
    using order_rows_sorted [of desc "\<lambda>r. col r ''timestamp''" rs]
    by (rule sorted_wrt_mono_rel [rotated]) (use entry_row(4) [OF assms] in \<open>auto split: if_splits\<close>)
  then show ?thesis by (simp add: by_time_def sorted_wrt_map)
qed

lemma delete_ranked:
  assumes tab: "log_rows t cds args stamp (tables d)" and ex: "db_Exec E (SDelete t e) vs d = (None, d')"
    and e: "bound e vs = EInNewest (ECol key) key t ''timestamp'' desc n (EVal (VInt m))"
  shows "\<exists>ys. mset ys = mset (entries t (map cd_name cds) sc (tables d)) \<and> by_time stamp desc ys \<and>
    entries t (map cd_name cds) sc (tables d') = filter (\<lambda>x. x \<notin> set (limit_offset n m ys)) (entries t (map cd_name cds) sc (tables d)) \<and>
    log_rows t cds args stamp (tables d') \<and> (\<forall>t'. t' \<noteq> t \<longrightarrow> tables d' t' = tables d t')"
proof -
  let ?en = "row_entry (map cd_name cds) sc"
  let ?R = "\<lambda>Q. \<exists>ys. mset ys = mset (entries t (map cd_name cds) sc (tables d)) \<and> by_time stamp desc ys \<and> Q = (\<lambda>x. x \<notin> set (limit_offset n m ys))"
  have step: "\<exists>Q. ?R Q \<and> (\<forall>r\<in>set (tb_rows tb). truthy (eval orc (tables d) [r] r (bound e vs)) = (\<not> Q (?en r)))"
    if orc: "arranges orc" and tb: "tables d t = Some tb" for orc tb
  proof -
    let ?rs = "order_rows (\<lambda>r. col r ''timestamp'') desc (or_arrange orc (tb_rows tb))"
    have rows: "\<And>r. r \<in> set (tb_rows tb) \<Longrightarrow> log_row (map cd_name cds) args stamp r" using tab tb by (auto simp: log_rows_def)
    have m: "mset ?rs = mset (tb_rows tb)" using orc by (simp add: arranges_def)
    have set: "set ?rs = set (tb_rows tb)" using m by (metis set_mset_mset)
    have "mset (map ?en ?rs) = mset (entries t (map cd_name cds) sc (tables d))" using m tb by (simp add: entries_def)
    moreover have "by_time stamp desc (map ?en ?rs)"
      using rows set by (intro ordered_entries) (metis set_order_rows)
    moreover have "truthy (eval orc (tables d) [r] r (bound e vs)) = (?en r \<in> set (limit_offset n m (map ?en ?rs)))"
      if r: "r \<in> set (tb_rows tb)" for r
    proof -
      have sub: "set (limit_offset n m ?rs) \<subseteq> set (tb_rows tb)" using limit_offset_subset [of n m ?rs] by (simp only: set)
      have "col r key \<in> (\<lambda>x. col x key) ` set (limit_offset n m ?rs) \<longleftrightarrow> ?en r \<in> ?en ` set (limit_offset n m ?rs)"
      proof
        assume "col r key \<in> (\<lambda>x. col x key) ` set (limit_offset n m ?rs)"
        then obtain r' where r': "r' \<in> set (limit_offset n m ?rs)" "col r key = col r' key" by blast
        have "inj_on (\<lambda>x. col x key) (set (tb_rows tb))" using rows_distinct(1) [OF tab tb] by (simp add: distinct_map)
        then have "r = r'" by (rule inj_onD [OF _ r'(2) r]) (rule subsetD [OF sub r'(1)])
        then show "?en r \<in> ?en ` set (limit_offset n m ?rs)" using r'(1) by blast
      next
        assume "?en r \<in> ?en ` set (limit_offset n m ?rs)"
        then obtain r' where r': "r' \<in> set (limit_offset n m ?rs)" "?en r = ?en r'" by blast
        then have "col r key = col r' key" using entry_row(3) [OF rows [OF r]] entry_row(3) [OF rows [OF subsetD [OF sub r'(1)]]] by simp
        then show "col r key \<in> (\<lambda>x. col x key) ` set (limit_offset n m ?rs)" using r'(1) by blast
      qed
      then show ?thesis using tb by (simp add: e int_of_def limit_offset_map)
    qed
    ultimately show ?thesis
      by (intro exI [of _ "\<lambda>x. x \<notin> set (limit_offset n m (map ?en ?rs))"] conjI exI [of _ "map ?en ?rs"]) simp_all
  qed
  have "\<exists>Q. ?R Q \<and> entries t (map cd_name cds) sc (tables d') = filter Q (entries t (map cd_name cds) sc (tables d)) \<and>
      log_rows t cds args stamp (tables d') \<and> (\<forall>t'. t' \<noteq> t \<longrightarrow> tables d' t' = tables d t')"
    by (rule delete_entries [OF tab ex, of ?R]) (rule step)
  then obtain ys where
      "mset ys = mset (entries t (map cd_name cds) sc (tables d)) \<and> by_time stamp desc ys"
      "entries t (map cd_name cds) sc (tables d') = filter (\<lambda>x. x \<notin> set (limit_offset n m ys)) (entries t (map cd_name cds) sc (tables d))"
      "log_rows t cds args stamp (tables d') \<and> (\<forall>t'. t' \<noteq> t \<longrightarrow> tables d' t' = tables d t')"
    by (elim exE conjE) simp
  then show ?thesis by (intro exI [of _ ys]) simp
qed

end


text \<open>What is left is a part of what was there, and nothing that is left is older, by a second or more,
  than something that was deleted.\<close>

definition keeps_newest :: "('a \<Rightarrow> gotime) \<Rightarrow> 'a list \<Rightarrow> 'a list \<Rightarrow> bool" where
  "keeps_newest stamp old new \<longleftrightarrow>
     (\<exists>Q. new = filter Q old) \<and> (\<forall>x\<in>set new. \<forall>y\<in>set old - set new. stamp y div Second \<le> stamp x div Second)"

lemma keeps_newest_refl: "keeps_newest stamp xs xs"
  unfolding keeps_newest_def by (auto intro: exI [of _ "\<lambda>_. True"])

lemma keeps_newest_trans: "keeps_newest stamp xs ys \<Longrightarrow> keeps_newest stamp ys zs \<Longrightarrow> keeps_newest stamp xs zs"
proof -
  assume a: "keeps_newest stamp xs ys" and b: "keeps_newest stamp ys zs"
  then obtain P Q where ys: "ys = filter P xs" and zs: "zs = filter Q ys" by (auto simp: keeps_newest_def)
  have "zs = filter (\<lambda>x. P x \<and> Q x) xs" by (simp add: ys zs)
  moreover have "stamp y div Second \<le> stamp x div Second" if "x \<in> set zs" "y \<in> set xs - set zs" for x y
    using that a b by (cases "y \<in> set ys") (auto simp: keeps_newest_def zs)
  ultimately show ?thesis unfolding keeps_newest_def by blast
qed

lemma Format_le_second: "time_ok t \<Longrightarrow> time_ok u \<Longrightarrow> Format_RFC3339Nano t \<le> Format_RFC3339Nano u \<Longrightarrow> t div Second \<le> u div Second"
  using Format_less [of u t] by (meson leD not_le)

lemma by_time_split:
  assumes "by_time stamp desc (as @ bs)" "\<forall>x\<in>set (as @ bs). time_ok (stamp x)" "x \<in> set as" "y \<in> set bs"
  shows "if desc then stamp y div Second \<le> stamp x div Second else stamp x div Second \<le> stamp y div Second"
  using assms Format_le_second by (auto simp: by_time_def sorted_wrt_append)

lemma drop_oldest:
  assumes "mset ys = mset xs" "by_time stamp False ys" "\<forall>x\<in>set xs. time_ok (stamp x)" "distinct xs"
  shows "keeps_newest stamp xs (filter (\<lambda>x. x \<notin> set (take k ys)) xs)"
proof -
  have s: "set ys = set xs" "distinct ys" using assms(1,4) by (metis set_mset_mset, metis mset_eq_imp_distinct_iff)
  have "stamp y div Second \<le> stamp x div Second" if "x \<in> set xs" "x \<notin> set (take k ys)" "y \<in> set (take k ys)" for x y
  proof -
    have "x \<in> set (take k ys @ drop k ys)" using that(1) s(1) by simp
    then have "x \<in> set (drop k ys)" using that(2) unfolding set_append by blast
    then show ?thesis using by_time_split [of stamp False "take k ys" "drop k ys" y x] assms(2,3) s(1) that(3) by simp
  qed
  then show ?thesis unfolding keeps_newest_def by auto
qed

lemma keep_first:
  assumes "mset ys = mset xs" "by_time stamp True ys" "\<forall>x\<in>set xs. time_ok (stamp x)" "distinct xs"
  shows "keeps_newest stamp xs (filter (\<lambda>x. x \<notin> set (drop k ys)) xs) \<and> length (filter (\<lambda>x. x \<notin> set (drop k ys)) xs) = min k (length xs)"
proof -
  have s: "set ys = set xs" "distinct ys" "length ys = length xs"
    using assms(1,4) by (metis set_mset_mset, metis mset_eq_imp_distinct_iff, metis mset_eq_length)
  have d: "set (take k ys) \<inter> set (drop k ys) = {}" using s(2) by (metis append_take_drop_id distinct_append)
  have u: "set (take k ys) \<union> set (drop k ys) = set xs" using s(1) by (metis append_take_drop_id set_append)
  have f: "set (filter (\<lambda>x. x \<notin> set (drop k ys)) xs) = set (take k ys)" using d u by auto
  have "length (filter (\<lambda>x. x \<notin> set (drop k ys)) xs) = card (set (filter (\<lambda>x. x \<notin> set (drop k ys)) xs))"
    using assms(4) by (simp only: distinct_card distinct_filter)
  also have "\<dots> = length (take k ys)" unfolding f using s(2) by (simp only: distinct_card distinct_take)
  finally have l: "length (filter (\<lambda>x. x \<notin> set (drop k ys)) xs) = min k (length xs)" using s(3) by (simp add: min.commute)
  have "stamp y div Second \<le> stamp x div Second" if "x \<in> set (take k ys)" "y \<in> set xs - set (take k ys)" for x y
  proof -
    have "y \<in> set (drop k ys)" using that(2) u by blast
    then show ?thesis using by_time_split [of stamp True "take k ys" "drop k ys" x y] assms(2,3) s(1) that(1) by simp
  qed
  then show ?thesis unfolding keeps_newest_def f using l by blast
qed

context log_table
begin

lemma entries_ok:
  assumes "log_rows t cds args stamp db"
  shows "\<forall>x\<in>set (entries t (map cd_name cds) sc db). time_ok (stamp x)" "distinct (entries t (map cd_name cds) sc db)"
proof -
  obtain tb where tb: "db t = Some tb" and rows: "\<And>r. r \<in> set (tb_rows tb) \<Longrightarrow> log_row (map cd_name cds) args stamp r"
    using assms by (auto simp: log_rows_def)
  show "\<forall>x\<in>set (entries t (map cd_name cds) sc db). time_ok (stamp x)" using entry_row(1) [OF rows] tb by (auto simp: entries_def)
  show "distinct (entries t (map cd_name cds) sc db)" using rows_distinct(2) [OF assms tb] by (metis distinct_map)
qed

lemma prune_days_spec:
  assumes "log_rows t cds args stamp (tables d)" "prune_days E now t maxDays d = (err, d')"
  shows "log_rows t cds args stamp (tables d') \<and> (\<forall>t'. t' \<noteq> t \<longrightarrow> tables d' t' = tables d t') \<and>
    entries t (map cd_name cds) sc (tables d') =
      filter (\<lambda>x. err \<noteq> None \<or> maxDays \<le> 0 \<or> Format_RFC3339Nano (now - maxDays * 86400 * Second) \<le> Format_RFC3339Nano (stamp x))
        (entries t (map cd_name cds) sc (tables d))"
proof (cases "maxDays > 0")
  case True
  then have x: "db_Exec E (before_stmt t) [VText (Format_RFC3339Nano (now - maxDays * 86400 * Second))] d = (err, d')"
    using assms(2) by (simp add: prune_days_def)
  show ?thesis
  proof (cases err)
    case None
    show ?thesis using delete_before [OF assms(1) x [unfolded None]] None True by (simp add: not_less)
  next
    case (Some e)
    then show ?thesis using x exec_failed assms(1) by (metis (mono_tags, lifting) filter_True option.distinct(1))
  qed
next
  case False
  then show ?thesis using assms by (auto simp: prune_days_def)
qed

lemma bound_rows: "bound (EInNewest (ECol key) key t ''timestamp'' True (-1) EParam) [VInt k] =
    EInNewest (ECol key) key t ''timestamp'' True (-1) (EVal (VInt k))"
  by (simp add: bound_def)

lemma prune_rows_spec:
  assumes "log_rows t cds args stamp (tables d)" "prune_rows E t key maxRows d = (err, d')"
  shows "log_rows t cds args stamp (tables d') \<and> (\<forall>t'. t' \<noteq> t \<longrightarrow> tables d' t' = tables d t') \<and>
    keeps_newest stamp (entries t (map cd_name cds) sc (tables d)) (entries t (map cd_name cds) sc (tables d')) \<and>
    length (entries t (map cd_name cds) sc (tables d')) =
      (if err = None \<and> maxRows > 0 then min (nat maxRows) (length (entries t (map cd_name cds) sc (tables d)))
       else length (entries t (map cd_name cds) sc (tables d)))"
proof (cases "maxRows > 0 \<and> err = None")
  case True
  then have x: "db_Exec E (SDelete t (EInNewest (ECol key) key t ''timestamp'' True (-1) EParam)) [VInt maxRows] d = (None, d')"
    using assms(2) by (simp add: prune_rows_def ranked_stmt_def)
  obtain ys where ys: "mset ys = mset (entries t (map cd_name cds) sc (tables d))" "by_time stamp True ys"
      "entries t (map cd_name cds) sc (tables d') = filter (\<lambda>x. x \<notin> set (limit_offset (-1) maxRows ys)) (entries t (map cd_name cds) sc (tables d))"
      "log_rows t cds args stamp (tables d')" "\<forall>t'. t' \<noteq> t \<longrightarrow> tables d' t' = tables d t'"
    using delete_ranked [OF assms(1) x bound_rows] by blast
  have "limit_offset (-1) maxRows ys = drop (nat maxRows) ys" by (simp add: limit_offset_def)
  then show ?thesis
    using keep_first [OF ys(1,2) entries_ok [OF assms(1)], of "nat maxRows"] ys(3-5) True by simp
next
  case False
  then have "tables d' = tables d"
    using assms(2) exec_failed by (cases err) (auto simp: prune_rows_def split: if_splits)
  then show ?thesis using False assms(1) keeps_newest_refl by auto
qed

end


section \<open>Pruning by size\<close>

lemma sql_sum_Nil [simp]: "sql_sum [] = VNull"
  by (simp add: sql_sum_def)

locale sized_log_table = log_table E tables saved strftime t key cds args ident stamp sc
  for E :: "'d sql_engine" and tables saved strftime t key cds and args :: "'a \<Rightarrow> sqlval list" and ident stamp sc +
  fixes size_expr :: sexpr and entry_size :: "'a \<Rightarrow> int"
  assumes size_eval: "map (col r) (map cd_name cds) = args x \<Longrightarrow> eval orc db [] r size_expr = VInt (entry_size x)"
begin

lemma size_query:
  assumes "log_rows t cds args stamp (tables d)" "arranges orc"
  shows "sql_query orc (tables d) (sum_of t size_expr) [] =
    [[VInt (sum_list (map entry_size (entries t (map cd_name cds) sc (tables d))))]]"
proof -
  obtain tb where tb: "tables d t = Some tb" and rows: "\<And>r. r \<in> set (tb_rows tb) \<Longrightarrow> log_row (map cd_name cds) args stamp r"
    using assms(1) by (auto simp: log_rows_def)
  let ?rs = "or_arrange orc (tb_rows tb)"
  let ?en = "row_entry (map cd_name cds) sc"
  have m: "mset ?rs = mset (tb_rows tb)" using assms(2) by (simp add: arranges_def)
  then have set: "set ?rs = set (tb_rows tb)" by (metis set_mset_mset)
  have ev: "map (\<lambda>x. eval orc (tables d) [] x size_expr) ?rs = map (\<lambda>r. VInt (entry_size (?en r))) ?rs"
    using size_eval [OF entry_row(2) [OF rows]] set by simp
  have "mset (map (\<lambda>r. entry_size (?en r)) ?rs) = mset (map (\<lambda>r. entry_size (?en r)) (tb_rows tb))" using m by simp
  then have "sum_list (map (\<lambda>r. entry_size (?en r)) ?rs) = sum_list (map (\<lambda>r. entry_size (?en r)) (tb_rows tb))"
    by (simp only: sum_mset_sum_list [symmetric])
  then have S: "sum_list (map entry_size (entries t (map cd_name cds) sc (tables d))) = sum_list (map (\<lambda>r. entry_size (?en r)) ?rs)"
    using tb by (simp add: entries_def comp_def)
  have "sql_sum (map (\<lambda>r. VInt (entry_size (?en r))) ?rs) =
      (if ?rs = [] then VNull else VInt (sum_list (map (\<lambda>r. entry_size (?en r)) ?rs)))"
    by (simp add: sql_sum_def Let_def filter_map comp_def int_of_def)
  then have v: "sql_sum (map (\<lambda>x. eval orc (tables d) [] x size_expr) ?rs) =
      (if ?rs = [] then VNull else VInt (sum_list (map (\<lambda>r. entry_size (?en r)) ?rs)))" by (simp only: ev)
  have w: "where_rows orc (tables d) (sum_of t size_expr) [] = ?rs" using tb by (simp add: where_rows_def sum_of_def)
  show ?thesis unfolding sql_query_def w S Let_def by (cases "?rs = []") (simp_all add: sum_of_def sql_groups_def group_value_def v)
qed

lemma size_read:
  assumes "log_rows t cds args stamp (tables d)" "scan_row E scan_int (sum_of t size_expr) [] d = (res, d')"
  shows "tables d' = tables d \<and> (\<forall>n. res = Inr n \<longrightarrow> n = sum_list (map entry_size (entries t (map cd_name cds) sc (tables d))))"
proof -
  obtain x d1 where q: "db_Query E (sum_of t size_expr) [] d = (x, d1)" by (cases "db_Query E (sum_of t size_expr) [] d")
  have d1: "tables d1 = tables d" using query_tables [OF q] by simp
  have d': "d' = d1" using assms(2) q
    by (auto simp: scan_row_def query_row_def split: sum.splits prod.splits list.splits option.splits)
  have "n = sum_list (map entry_size (entries t (map cd_name cds) sc (tables d)))" if "res = Inr n" for n
  proof -
    from assms(2) q that obtain r rs err where x: "x = Inr (r # rs, err)" and s: "scan_int r = Inr n"
      by (auto simp: scan_row_def query_row_def split: sum.splits prod.splits list.splits option.splits)
    have "\<exists>orc k. arranges orc \<and> r # rs = take k (sql_query orc (tables d) (sum_of t size_expr) [])"
    proof (cases err)
      case None
      then obtain orc where "arranges orc" "r # rs = sql_query orc (tables d) (sum_of t size_expr) []" using query_ok q x by blast
      then show ?thesis by (metis take_all_iff le_refl)
    next
      case (Some e)
      then show ?thesis using query_partial q x by blast
    qed
    then obtain k where "r # rs = take k [[VInt (sum_list (map entry_size (entries t (map cd_name cds) sc (tables d))))]]"
      using size_query [OF assms(1)] by metis
    then have "r = [VInt (sum_list (map entry_size (entries t (map cd_name cds) sc (tables d))))]" by (cases k) auto
    then show ?thesis using s by (simp add: scan_int_def)
  qed
  then show ?thesis using d1 d' by simp
qed

lemma bound_oldest: "bound (EInNewest (ECol key) key t ''timestamp'' False k (EVal (VInt 0))) [] =
    EInNewest (ECol key) key t ''timestamp'' False k (EVal (VInt 0))"
  by (simp add: bound_def)

lemma delete_oldest:
  assumes "log_rows t cds args stamp (tables d)" "db_Exec E (ranked_stmt t key False k (EVal (VInt 0))) [] d = (None, d')"
    and "0 < k" "entries t (map cd_name cds) sc (tables d) \<noteq> []"
  shows "log_rows t cds args stamp (tables d') \<and> (\<forall>t'. t' \<noteq> t \<longrightarrow> tables d' t' = tables d t') \<and>
    keeps_newest stamp (entries t (map cd_name cds) sc (tables d)) (entries t (map cd_name cds) sc (tables d')) \<and>
    length (entries t (map cd_name cds) sc (tables d')) < length (entries t (map cd_name cds) sc (tables d))"
proof -
  let ?xs = "entries t (map cd_name cds) sc (tables d)"
  obtain ys where ys: "mset ys = mset ?xs" "by_time stamp False ys"
      "entries t (map cd_name cds) sc (tables d') = filter (\<lambda>x. x \<notin> set (limit_offset k 0 ys)) ?xs"
      "log_rows t cds args stamp (tables d')" "\<forall>t'. t' \<noteq> t \<longrightarrow> tables d' t' = tables d t'"
    using delete_ranked [OF assms(1) assms(2) [unfolded ranked_stmt_def] bound_oldest] by blast
  have l: "limit_offset k 0 ys = take (nat k) ys" using assms(3) by (simp add: limit_offset_def)
  have "ys \<noteq> []" using ys(1) assms(4) by auto
  then have "hd ys \<in> set (take (nat k) ys)" using assms(3) by (cases ys) (simp_all add: take_Cons')
  moreover have "hd ys \<in> set ?xs" using \<open>ys \<noteq> []\<close> ys(1) by (metis hd_in_set set_mset_mset)
  ultimately have "length (filter (\<lambda>x. x \<notin> set (take (nat k) ys)) ?xs) < length ?xs"
    by (intro length_filter_less [of "hd ys"]) simp_all
  then show ?thesis using drop_oldest [OF ys(1,2) entries_ok [OF assms(1)], of "nat k"] ys(3-5) l by simp
qed

text \<open>The loop ends: every round that does not return deletes an entry.\<close>

lemma size_loop_ends:
  assumes "log_rows t cds args stamp (tables d)" "0 < maxBytes" "0 < k"
  shows "\<exists>err d'. prune_size_loop E (\<lambda>d. scan_row E scan_int (sum_of t size_expr) [] d) (ranked_stmt t key False k (EVal (VInt 0))) msg maxBytes d
      = Some (err, d') \<and> log_rows t cds args stamp (tables d') \<and> (\<forall>t'. t' \<noteq> t \<longrightarrow> tables d' t' = tables d t') \<and>
    keeps_newest stamp (entries t (map cd_name cds) sc (tables d)) (entries t (map cd_name cds) sc (tables d')) \<and>
    (err = None \<longrightarrow> sum_list (map entry_size (entries t (map cd_name cds) sc (tables d'))) \<le> maxBytes)"
  using assms
proof (induction "length (entries t (map cd_name cds) sc (tables d))" arbitrary: d rule: less_induct)
  case less
  let ?sz = "\<lambda>d. scan_row E scan_int (sum_of t size_expr) [] d" and ?st = "ranked_stmt t key False k (EVal (VInt 0))"
  let ?xs = "\<lambda>d. entries t (map cd_name cds) sc (tables d)"
  note step = prune_size_loop.simps [of E ?sz ?st msg maxBytes d]
  obtain res d1 where s: "?sz d = (res, d1)" by (cases "?sz d")
  have d1: "tables d1 = tables d" "\<And>n. res = Inr n \<Longrightarrow> n = sum_list (map entry_size (?xs d))" using size_read [OF less.prems(1) s] by auto
  show ?case
  proof (cases "\<exists>n. res = Inr n \<and> n > maxBytes")
    case False
    then show ?thesis unfolding step using s d1 less.prems(1) keeps_newest_refl by (cases res) auto
  next
    case True
    then obtain n where n: "res = Inr n" "n > maxBytes" by blast
    obtain e2 d2 where e2: "db_Exec E ?st [] d1 = (e2, d2)" by (cases "db_Exec E ?st [] d1")
    show ?thesis
    proof (cases e2)
      case (Some e)
      then show ?thesis unfolding step using s d1 n e2 less.prems(1) keeps_newest_refl exec_failed by auto
    next
      case None
      have ne: "?xs d1 \<noteq> []" using d1(2) [OF n(1)] n(2) less.prems(2) d1(1) by auto
      have "log_rows t cds args stamp (tables d1)" using less.prems(1) d1(1) by simp
      note del = delete_oldest [OF this e2 [unfolded None] less.prems(3) ne]
      obtain err d' where r: "prune_size_loop E ?sz ?st msg maxBytes d2 = Some (err, d')" "log_rows t cds args stamp (tables d')"
          "\<forall>t'. t' \<noteq> t \<longrightarrow> tables d' t' = tables d2 t'" "keeps_newest stamp (?xs d2) (?xs d')"
          "err = None \<longrightarrow> sum_list (map entry_size (?xs d')) \<le> maxBytes"
        using less.hyps [of d2] less.prems(2,3) del d1(1) by auto
      have "keeps_newest stamp (?xs d) (?xs d')" using keeps_newest_trans r(4) del d1(1) by metis
      then show ?thesis unfolding step using s n e2 None r del d1(1) by simp
    qed
  qed
qed

end


section \<open>The two tables\<close>

definition text_size :: "string \<Rightarrow> int" where
  "text_size s = int (rune_count (c_text s))"

definition log_size :: "RequestLog \<Rightarrow> int" where
  "log_size l =
     text_size (l_ID l) + text_size (l_SessionID l) + text_size (Format_RFC3339Nano (l_Timestamp l)) + text_size (l_APIKeyID l) +
     text_size (l_ModelAlias l) + text_size (l_NodeID l) + text_size (l_ActualModel l) + text_size (l_ErrorMsg l) + 64"

definition detail_size :: "DetailLog \<Rightarrow> int" where
  "detail_size l =
     text_size (d_TraceID l) + text_size (d_SessionID l) + text_size (Format_RFC3339Nano (d_Timestamp l)) +
     text_size (d_RequestBody l) + text_size (d_ResponseBody l)"

abbreviation request_rows :: "database \<Rightarrow> bool" where
  "request_rows \<equiv> log_rows ''request_logs'' request_logs_cols log_args l_Timestamp"

abbreviation detail_rows :: "database \<Rightarrow> bool" where
  "detail_rows \<equiv> log_rows ''detail_logs'' detail_logs_cols detail_args d_Timestamp"

definition stored_logs :: "database \<Rightarrow> RequestLog list" where
  "stored_logs = entries ''request_logs'' log_columns scanRequestLog"

definition stored_details :: "database \<Rightarrow> DetailLog list" where
  "stored_details = entries ''detail_logs'' detail_columns scan_detail"

lemma log_names: "map cd_name request_logs_cols = log_columns" "map cd_name detail_logs_cols = detail_columns"
  by (simp_all add: schema_cols log_columns_def detail_columns_def)

lemma sql_length_text: "sql_length (VText s) = VInt (text_size s)"
  by (simp add: sql_length_def text_size_def)

lemma sql_add_int [simp]: "sql_binop OpAdd (VInt i) (VInt j) = VInt (i + j)"
  by (simp add: sql_binop_def sql_add_def)

sublocale sqlite \<subseteq> request_logs: sized_log_table E tables saved strftime "''request_logs''" "''id''" request_logs_cols log_args l_ID
  l_Timestamp scanRequestLog log_size_expr log_size
proof
  fix x :: RequestLog and r :: row and orc db
  show "distinct (map cd_name request_logs_cols)" "map cd_name (filter cd_unique request_logs_cols) = [''id'']"
    by (simp_all add: schema_cols)
  show "length (log_args x) = length request_logs_cols" "VNull \<notin> set (log_args x)" by (simp_all add: schema_cols log_args_def)
  show "map_of (zip (map cd_name request_logs_cols) (log_args x)) ''id'' = Some (VText (l_ID x))"
    "map_of (zip (map cd_name request_logs_cols) (log_args x)) ''timestamp'' = Some (VText (Format_RFC3339Nano (l_Timestamp x)))"
    by (simp_all add: log_names log_columns_def log_args_def)
  show "time_ok (l_Timestamp x) \<Longrightarrow> scanRequestLog (log_args x) = Inr x"
    by (simp add: scanRequestLog_def log_args_def log_kinds_def lax_time_Format boolToInt_def)
  show "map (col r) (map cd_name request_logs_cols) = log_args x \<Longrightarrow> eval orc db [] r log_size_expr = VInt (log_size x)"
    by (simp add: log_names log_columns_def log_args_def log_size_expr_def lengths_def log_size_def sql_length_text)
qed

sublocale sqlite \<subseteq> detail_logs: sized_log_table E tables saved strftime "''detail_logs''" "''trace_id''" detail_logs_cols detail_args
  d_TraceID d_Timestamp scan_detail detail_size_expr detail_size
proof
  fix x :: DetailLog and r :: row and orc db
  show "distinct (map cd_name detail_logs_cols)" "map cd_name (filter cd_unique detail_logs_cols) = [''trace_id'']"
    by (simp_all add: schema_cols)
  show "length (detail_args x) = length detail_logs_cols" "VNull \<notin> set (detail_args x)" by (simp_all add: schema_cols detail_args_def)
  show "map_of (zip (map cd_name detail_logs_cols) (detail_args x)) ''trace_id'' = Some (VText (d_TraceID x))"
    "map_of (zip (map cd_name detail_logs_cols) (detail_args x)) ''timestamp'' = Some (VText (Format_RFC3339Nano (d_Timestamp x)))"
    by (simp_all add: log_names detail_columns_def detail_args_def)
  show "time_ok (d_Timestamp x) \<Longrightarrow> scan_detail (detail_args x) = Inr x"
    by (simp add: scan_detail_def detail_args_def lax_time_Format)
  show "map (col r) (map cd_name detail_logs_cols) = detail_args x \<Longrightarrow> eval orc db [] r detail_size_expr = VInt (detail_size x)"
    by (simp add: log_names detail_columns_def detail_args_def detail_size_expr_def lengths_def detail_size_def sql_length_text)
qed

context sqlite
begin

lemma insert_request_log:
  assumes "request_rows (tables d)" "time_ok (l_Timestamp l)" "InsertRequestLog E l d = (None, d')"
  shows "stored_logs (tables d') = add_entry l_ID l (stored_logs (tables d)) \<and> request_rows (tables d') \<and>
    (\<forall>t. t \<noteq> ''request_logs'' \<longrightarrow> tables d' t = tables d t)"
  using request_logs.insert_entry [OF assms(1,2), of d'] assms(3)
  by (simp add: InsertRequestLog_def insert_log_stmt_def log_names stored_logs_def)

lemma bulk_insert_request_logs:
  assumes "request_rows (tables d)" "\<forall>l\<in>set ls. time_ok (l_Timestamp l)" "sqlite_BulkInsertRequestLogs E ls d = (err, d')"
  shows "if err = None
    then stored_logs (tables d') = fold (add_entry l_ID) ls (stored_logs (tables d)) \<and> request_rows (tables d') \<and>
      (\<forall>t. t \<noteq> ''request_logs'' \<longrightarrow> tables d' t = tables d t)
    else tables d' = tables d"
  using request_logs.bulk_insert [OF assms(1,2), of err d', unfolded log_names] assms(3)
  by (simp add: sqlite_BulkInsertRequestLogs_def insert_log_stmt_def stored_logs_def)

lemma bulk_insert_detail_logs:
  assumes "detail_rows (tables d)" "\<forall>l\<in>set ls. time_ok (d_Timestamp l)" "sqlite_BulkInsertDetailLogs E ls d = (err, d')"
  shows "if err = None
    then stored_details (tables d') = fold (add_entry d_TraceID) ls (stored_details (tables d)) \<and> detail_rows (tables d') \<and>
      (\<forall>t. t \<noteq> ''detail_logs'' \<longrightarrow> tables d' t = tables d t)
    else tables d' = tables d"
  using detail_logs.bulk_insert [OF assms(1,2), of err d', unfolded log_names] assms(3)
  by (simp add: sqlite_BulkInsertDetailLogs_def insert_detail_stmt_def stored_details_def)

lemma request_size:
  assumes "request_rows (tables d)" "RequestLogsSizeBytes E d = (res, d')"
  shows "tables d' = tables d \<and> (\<forall>n. res = Inr n \<longrightarrow> n = sum_list (map log_size (stored_logs (tables d))))"
  using request_logs.size_read [OF assms(1), of res d'] assms(2) by (simp add: RequestLogsSizeBytes_def log_names stored_logs_def)

lemma detail_size_read:
  assumes "detail_rows (tables d)" "DetailLogsSizeBytes E d = (res, d')"
  shows "tables d' = tables d \<and> (\<forall>n. res = Inr n \<longrightarrow> n = sum_list (map detail_size (stored_details (tables d))))"
  using detail_logs.size_read [OF assms(1), of res d'] assms(2) by (simp add: DetailLogsSizeBytes_def log_names stored_details_def)

lemma prune_requests_by_size:
  assumes "request_rows (tables d)"
  shows "\<exists>err d'. PruneRequestLogsBySize E maxBytes d = Some (err, d') \<and> request_rows (tables d') \<and>
    (\<forall>t. t \<noteq> ''request_logs'' \<longrightarrow> tables d' t = tables d t) \<and> keeps_newest l_Timestamp (stored_logs (tables d)) (stored_logs (tables d')) \<and>
    (err = None \<and> 0 < maxBytes \<longrightarrow> sum_list (map log_size (stored_logs (tables d'))) \<le> maxBytes)"
proof (cases "0 < maxBytes")
  case True
  have "(\<lambda>d. scan_row E scan_int (sum_of ''request_logs'' log_size_expr) [] d) = RequestLogsSizeBytes E" by (simp add: RequestLogsSizeBytes_def fun_eq_iff)
  then show ?thesis
    using request_logs.size_loop_ends [OF assms True, of 500 "''prune by size: ''"] True
    by (simp add: PruneRequestLogsBySize_def stored_logs_def log_names)
next
  case False
  then show ?thesis using assms keeps_newest_refl by (auto simp: PruneRequestLogsBySize_def)
qed

lemma prune_details_by_size:
  assumes "detail_rows (tables d)"
  shows "\<exists>err d'. PruneDetailLogsBySize E maxBytes d = Some (err, d') \<and> detail_rows (tables d') \<and>
    (\<forall>t. t \<noteq> ''detail_logs'' \<longrightarrow> tables d' t = tables d t) \<and> keeps_newest d_Timestamp (stored_details (tables d)) (stored_details (tables d')) \<and>
    (err = None \<and> 0 < maxBytes \<longrightarrow> sum_list (map detail_size (stored_details (tables d'))) \<le> maxBytes)"
proof (cases "0 < maxBytes")
  case True
  have "(\<lambda>d. scan_row E scan_int (sum_of ''detail_logs'' detail_size_expr) [] d) = DetailLogsSizeBytes E" by (simp add: DetailLogsSizeBytes_def fun_eq_iff)
  then show ?thesis
    using detail_logs.size_loop_ends [OF assms True, of 100 "''prune detail by size: ''"] True
    by (simp add: PruneDetailLogsBySize_def stored_details_def log_names)
next
  case False
  then show ?thesis using assms keeps_newest_refl by (auto simp: PruneDetailLogsBySize_def)
qed

end


section \<open>Filters\<close>

definition like_keyword :: "string \<Rightarrow> string \<Rightarrow> bool" where
  "like_keyword kw s = sql_like (c_text (''%'' @ kw @ ''%'')) (c_text s)"

text \<open>What a filter asks of an entry.  Times are compared by their texts.\<close>

definition log_matches :: "LogFilter \<Rightarrow> RequestLog \<Rightarrow> bool" where
  "log_matches f l \<longleftrightarrow>
     (lf_APIKeyID f = [] \<or> l_APIKeyID l = lf_APIKeyID f) \<and>
     (lf_ModelAlias f = [] \<or> l_ModelAlias l = lf_ModelAlias f) \<and>
     (lf_NodeID f = [] \<or> l_NodeID l = lf_NodeID f) \<and>
     (lf_SessionID f = [] \<or> l_SessionID l = lf_SessionID f) \<and>
     (lf_StatusCode f \<le> 0 \<or> l_StatusCode l = lf_StatusCode f) \<and>
     (\<not> lf_ErrorOnly f \<or> 400 \<le> l_StatusCode l \<or> l_ErrorMsg l \<noteq> []) \<and>
     (lf_Keyword f = [] \<or> like_keyword (lf_Keyword f) (l_ErrorMsg l) \<or> like_keyword (lf_Keyword f) (l_ID l)) \<and>
     (case lf_StartTime f of None \<Rightarrow> True | Some t \<Rightarrow> Format_RFC3339Nano t \<le> Format_RFC3339Nano (l_Timestamp l)) \<and>
     (case lf_EndTime f of None \<Rightarrow> True | Some t \<Rightarrow> Format_RFC3339Nano (l_Timestamp l) \<le> Format_RFC3339Nano t)"

lemma truthy_and: "truthy (sql_binop OpAnd a b) \<longleftrightarrow> truthy a \<and> truthy b"
  by (cases a; cases b) (auto simp: sql_binop_def sql_and_def truthy_def)

lemma truthy_or: "truthy (sql_binop OpOr a b) \<longleftrightarrow> truthy a \<or> truthy b"
  by (auto simp: sql_binop_def sql_or_def truthy_def)

lemma truthy_comparisons:
  "truthy (sql_binop OpGe (VText a) (VText b)) \<longleftrightarrow> b \<le> a"
  "truthy (sql_binop OpLe (VText a) (VText b)) \<longleftrightarrow> a \<le> b"
  "truthy (sql_binop OpGe (VInt i) (VInt j)) \<longleftrightarrow> j \<le> i"
  "truthy (sql_binop OpNe (VText a) (VText b)) \<longleftrightarrow> a \<noteq> b"
  "truthy (sql_binop OpLike (VText a) (VText b)) \<longleftrightarrow> sql_like (c_text b) (c_text a)"
  by (auto simp: sql_binop_def sql_compare_def)

text \<open>Each condition takes its own arguments.\<close>

definition self_bound :: "sexpr \<times> sqlval list \<Rightarrow> bool" where
  "self_bound c \<longleftrightarrow> (\<forall>rest. bind_expr (fst c) (snd c @ rest) = (bound (fst c) (snd c), rest))"

lemma self_bound_conds: "\<forall>c\<in>set (log_conds f). self_bound c"
  by (auto simp: log_conds_def self_bound_def bound_def Let_def split: if_splits option.splits)

lemma bind_joined:
  assumes "self_bound c" "\<forall>x\<in>set cs. self_bound x"
  shows "bind_expr (foldl (EBin OpAnd) (fst c) (map fst cs)) (snd c @ concat (map snd cs) @ rest) =
    (foldl (EBin OpAnd) (bound (fst c) (snd c)) (map (\<lambda>x. bound (fst x) (snd x)) cs), rest)"
  using assms(2)
proof (induction cs arbitrary: rest rule: rev_induct)
  case Nil
  then show ?case using assms(1) by (simp add: self_bound_def)
next
  case (snoc x cs)
  then show ?case by (simp add: self_bound_def)
qed

lemma truthy_joined:
  "truthy (eval orc db g r (foldl (EBin OpAnd) e es)) \<longleftrightarrow> truthy (eval orc db g r e) \<and> (\<forall>x\<in>set es. truthy (eval orc db g r x))"
  by (induction es rule: rev_induct) (auto simp: truthy_and)

lemma where_conds:
  "(case fst (buildLogFilter f) of None \<Rightarrow> True | Some e \<Rightarrow> truthy (eval orc db g r (bound e (snd (buildLogFilter f))))) \<longleftrightarrow>
     (\<forall>c\<in>set (log_conds f). truthy (eval orc db g r (bound (fst c) (snd c))))"
proof (cases "log_conds f")
  case Nil
  then show ?thesis by (simp add: buildLogFilter_def)
next
  case (Cons c cs)
  have "bound (foldl (EBin OpAnd) (fst c) (map fst cs)) (snd c @ concat (map snd cs)) =
      foldl (EBin OpAnd) (bound (fst c) (snd c)) (map (\<lambda>x. bound (fst x) (snd x)) cs)"
    using bind_joined [of c cs "[]"] self_bound_conds [of f] Cons by (simp add: bound_def)
  then show ?thesis using Cons by (simp add: buildLogFilter_def truthy_joined)
qed

lemma ball_optional:
  "(\<forall>x\<in>set (if b then [a] else []). P x) \<longleftrightarrow> \<not> b \<or> P a"
  "(\<forall>x\<in>set (case m of None \<Rightarrow> [] | Some t \<Rightarrow> [h t]). P x) \<longleftrightarrow> (case m of None \<Rightarrow> True | Some t \<Rightarrow> P (h t))"
  by (simp_all split: option.splits)

lemma filter_row:
  assumes "map (col r) log_columns = log_args l"
  shows "(\<forall>c\<in>set (log_conds f). truthy (eval orc db g r (bound (fst c) (snd c)))) \<longleftrightarrow> log_matches f l"
proof -
  have c: "col r ''id'' = VText (l_ID l)" "col r ''session_id'' = VText (l_SessionID l)" "col r ''api_key_id'' = VText (l_APIKeyID l)"
      "col r ''model_alias'' = VText (l_ModelAlias l)" "col r ''node_id'' = VText (l_NodeID l)" "col r ''error_msg'' = VText (l_ErrorMsg l)"
      "col r ''status_code'' = VInt (l_StatusCode l)" "col r ''timestamp'' = VText (Format_RFC3339Nano (l_Timestamp l))"
    using assms by (simp_all add: log_columns_def log_args_def)
  have "(\<forall>c\<in>set (log_conds f). P c) \<longleftrightarrow>
      (lf_APIKeyID f = [] \<or> P (EBin OpEq (ECol ''api_key_id'') EParam, [VText (lf_APIKeyID f)])) \<and>
      (lf_ModelAlias f = [] \<or> P (EBin OpEq (ECol ''model_alias'') EParam, [VText (lf_ModelAlias f)])) \<and>
      (lf_NodeID f = [] \<or> P (EBin OpEq (ECol ''node_id'') EParam, [VText (lf_NodeID f)])) \<and>
      (lf_SessionID f = [] \<or> P (EBin OpEq (ECol ''session_id'') EParam, [VText (lf_SessionID f)])) \<and>
      (lf_StatusCode f \<le> 0 \<or> P (EBin OpEq (ECol ''status_code'') EParam, [VInt (lf_StatusCode f)])) \<and>
      (\<not> lf_ErrorOnly f \<or> P (EBin OpOr (EBin OpGe (ECol ''status_code'') (EVal (VInt 400))) (EBin OpNe (ECol ''error_msg'') (EVal (VText []))), [])) \<and>
      (lf_Keyword f = [] \<or> P (EBin OpOr (EBin OpLike (ECol ''error_msg'') EParam) (EBin OpLike (ECol ''id'') EParam),
         [VText (''%'' @ lf_Keyword f @ ''%''), VText (''%'' @ lf_Keyword f @ ''%'')])) \<and>
      (case lf_StartTime f of None \<Rightarrow> True | Some t \<Rightarrow> P (EBin OpGe (ECol ''timestamp'') EParam, [VText (Format_RFC3339Nano t)])) \<and>
      (case lf_EndTime f of None \<Rightarrow> True | Some t \<Rightarrow> P (EBin OpLe (ECol ''timestamp'') EParam, [VText (Format_RFC3339Nano t)]))" for P
    by (simp only: log_conds_def set_append ball_Un Let_def ball_optional not_less not_not)
  from this [of "\<lambda>c. truthy (eval orc db g r (bound (fst c) (snd c)))"] show ?thesis
    by (simp add: c bound_def truthy_eq truthy_or truthy_comparisons log_matches_def like_keyword_def split: option.splits)
qed

context sqlite
begin

text \<open>The rows that a query with a filter selects, in some order.\<close>

lemma filtered_rows:
  assumes "request_rows db" "arranges orc" "q_from q = ''request_logs''" "q_where q = fst (buildLogFilter f)"
  shows "mset (map (row_entry log_columns scanRequestLog) (where_rows orc db q (snd (buildLogFilter f)))) =
      mset (filter (log_matches f) (stored_logs db))"
    and "\<forall>r\<in>set (where_rows orc db q (snd (buildLogFilter f))). log_row log_columns log_args l_Timestamp r"
proof -
  obtain tb where tb: "db ''request_logs'' = Some tb" and rows: "\<And>r. r \<in> set (tb_rows tb) \<Longrightarrow> log_row log_columns log_args l_Timestamp r"
    using assms(1) by (auto simp: log_rows_def log_names)
  let ?en = "row_entry log_columns scanRequestLog"
  let ?rs = "or_arrange orc (tb_rows tb)"
  have m: "mset ?rs = mset (tb_rows tb)" using assms(2) by (simp add: arranges_def)
  then have set: "set ?rs = set (tb_rows tb)" by (metis set_mset_mset)
  let ?P = "\<lambda>r. case fst (buildLogFilter f) of None \<Rightarrow> True | Some e \<Rightarrow> truthy (eval orc db [r] r (bound e (snd (buildLogFilter f))))"
  have w: "where_rows orc db q (snd (buildLogFilter f)) = filter ?P ?rs" using tb assms(3,4) by (simp add: where_rows_def)
  have "?P r = log_matches f (?en r)" if "r \<in> set ?rs" for r
    unfolding where_conds by (rule filter_row) (use request_logs.entry_row(2) [unfolded log_names, OF rows] that set in blast)
  then have "map ?en (filter ?P ?rs) = filter (log_matches f) (map ?en ?rs)" by (intro filter_map_cong) simp
  then have "mset (map ?en (filter ?P ?rs)) = filter_mset (log_matches f) (image_mset ?en (mset (tb_rows tb)))" using m by (simp only: mset_map mset_filter)
  then show "mset (map ?en (where_rows orc db q (snd (buildLogFilter f)))) = mset (filter (log_matches f) (stored_logs db))"
    using tb by (simp add: w stored_logs_def entries_def)
  show "\<forall>r\<in>set (where_rows orc db q (snd (buildLogFilter f))). log_row log_columns log_args l_Timestamp r"
    using rows set by (auto simp: w)
qed

end


section \<open>Queries\<close>

definition page_size :: "LogFilter \<Rightarrow> int" where
  "page_size f = (if lf_PageSize f < 1 then 20 else lf_PageSize f)"

definition page_offset :: "LogFilter \<Rightarrow> int" where
  "page_offset f = i64 (i64 ((if lf_Page f < 1 then 1 else lf_Page f) - 1) * page_size f)"

text \<open>The entries a filter selects, newest first up to the second.\<close>

definition listing :: "LogFilter \<Rightarrow> RequestLog list \<Rightarrow> RequestLog list \<Rightarrow> bool" where
  "listing f ls ys \<longleftrightarrow>
     mset ys = mset (filter (log_matches f) ls) \<and> sorted_wrt (\<lambda>a b. l_Timestamp b div Second \<le> l_Timestamp a div Second) ys"

lemma by_time_seconds:
  assumes "by_time stamp True ys" "\<forall>x\<in>set ys. time_ok (stamp x)"
  shows "sorted_wrt (\<lambda>a b. stamp b div Second \<le> stamp a div Second) ys"
  using assms(1) unfolding by_time_def
  by (rule sorted_wrt_mono_rel [rotated]) (use assms(2) Format_le_second in auto)

context sqlite
begin

lemma newest_query:
  assumes "request_rows db" "arranges orc"
  shows "\<exists>ys rs. listing f (stored_logs db) ys \<and> (\<forall>r\<in>set rs. log_row log_columns log_args l_Timestamp r) \<and>
    sql_query orc db (newest_logs f n m) (snd (buildLogFilter f)) = map (\<lambda>r. map (col r) log_columns) rs \<and>
    map (row_entry log_columns scanRequestLog) rs = limit_offset n m ys"
proof -
  let ?q = "newest_logs f n m" and ?vs = "snd (buildLogFilter f)" and ?en = "row_entry log_columns scanRequestLog"
  let ?w = "order_rows (\<lambda>r. col r ''timestamp'') True (where_rows orc db ?q ?vs)"
  have q: "plain_cols ?q log_columns" "q_order ?q = Some (ECol ''timestamp'', True)" "q_limit ?q = n" "q_offset ?q = m"
      "q_from ?q = ''request_logs''" "q_where ?q = fst (buildLogFilter f)"
    by (simp_all add: newest_logs_def select_logs_def plain_cols_def)
  note fr = filtered_rows [OF assms q(5,6)]
  have lr: "\<forall>r\<in>set ?w. log_row log_columns log_args l_Timestamp r" using fr(2) by simp
  have bt: "by_time l_Timestamp True (map ?en ?w)"
    using request_logs.ordered_entries [unfolded log_names] fr(2) by blast
  have ok: "\<forall>x\<in>set (map ?en ?w). time_ok (l_Timestamp x)"
    using request_logs.entry_row(1) [unfolded log_names] lr by auto
  have "mset (map ?en ?w) = mset (filter (log_matches f) (stored_logs db))" using fr(1) by simp
  then have "listing f (stored_logs db) (map ?en ?w)" unfolding listing_def using by_time_seconds [OF bt ok] by simp
  moreover have "\<forall>r\<in>set (limit_offset n m ?w). log_row log_columns log_args l_Timestamp r"
    using lr subsetD [OF limit_offset_subset [of n m ?w]] by simp
  moreover have "sql_query orc db ?q ?vs = map (\<lambda>r. map (col r) log_columns) (limit_offset n m ?w)"
    using sql_query_plain(2) [OF q(1,2)] q(3,4) by simp
  moreover have "map ?en (limit_offset n m ?w) = limit_offset n m (map ?en ?w)" by (simp only: limit_offset_map)
  ultimately show ?thesis by (intro exI [where x = "map ?en ?w"] exI [where x = "limit_offset n m ?w"] conjI)
qed

lemma scan_log_rows:
  assumes "\<forall>r\<in>set rs. log_row log_columns log_args l_Timestamp r"
  shows "scan_rows scanRequestLog (map (\<lambda>r. map (col r) log_columns) rs) err out =
    (out @ map (row_entry log_columns scanRequestLog) rs, err)"
  using assms
proof (induction rs arbitrary: out)
  case (Cons r rs)
  have "log_row log_columns log_args l_Timestamp r" using Cons.prems by simp
  note e = request_logs.entry_row(1,2) [unfolded log_names, OF this]
  have "scanRequestLog (map (col r) log_columns) = Inr (row_entry log_columns scanRequestLog r)"
    unfolding e(2) by (rule request_logs.args_scan [OF e(1)])
  then show ?case using Cons by simp
qed simp

lemma count_read:
  assumes "request_rows (tables d)" "scan_row E scan_int (select_logs [ECountAll] f) (snd (buildLogFilter f)) d = (Inr n, d')"
  shows "n = int (length (filter (log_matches f) (stored_logs (tables d)))) \<and> tables d' = tables d"
proof -
  let ?q = "select_logs [ECountAll] f" and ?vs = "snd (buildLogFilter f)"
  from assms(2) obtain r rs err where x: "db_Query E ?q ?vs d = (Inr (r # rs, err), d')" and s: "scan_int r = Inr n"
    by (auto simp: scan_row_def query_row_def split: sum.splits prod.splits list.splits option.splits)
  have "\<exists>orc k. arranges orc \<and> r # rs = take k (sql_query orc (tables d) ?q ?vs)"
  proof (cases err)
    case None
    then show ?thesis using query_ok x by (metis take_all_iff le_refl)
  next
    case (Some e)
    then show ?thesis using query_partial x by blast
  qed
  then obtain orc k where orc: "arranges orc" and k: "r # rs = take k (sql_query orc (tables d) ?q ?vs)" by blast
  have "sql_query orc (tables d) ?q ?vs = [[VInt (int (length (where_rows orc (tables d) ?q ?vs)))]]"
    by (simp add: sql_query_def select_logs_def sql_groups_def group_value_def Let_def)
  then have "r = [VInt (int (length (where_rows orc (tables d) ?q ?vs)))]" using k by (cases k) auto
  then have n: "n = int (length (where_rows orc (tables d) ?q ?vs))" using s by (simp add: scan_int_def)
  have "mset (map (row_entry log_columns scanRequestLog) (where_rows orc (tables d) ?q ?vs)) = mset (filter (log_matches f) (stored_logs (tables d)))"
    by (rule filtered_rows(1) [OF assms(1) orc]) (simp_all add: select_logs_def)
  then have "length (where_rows orc (tables d) ?q ?vs) = length (filter (log_matches f) (stored_logs (tables d)))"
    by (metis length_map mset_eq_length)
  then show ?thesis using n query_tables [OF x] by simp
qed

lemma query_logs:
  assumes "request_rows (tables d)" "QueryLogs E f d = ((out, n, None), d')"
  shows "\<exists>ys. listing f (stored_logs (tables d)) ys \<and> n = int (length ys) \<and>
    out = take (nat (page_size f)) (drop (nat (page_offset f)) ys) \<and> tables d' = tables d"
proof -
  let ?vs = "snd (buildLogFilter f)"
  obtain res d1 where c: "scan_row E scan_int (select_logs [ECountAll] f) ?vs d = (res, d1)"
    by (cases "scan_row E scan_int (select_logs [ECountAll] f) ?vs d")
  obtain n0 where n0: "res = Inr n0" using assms(2) c by (cases res) (auto simp: QueryLogs_def Let_def)
  note cr = count_read [OF assms(1) c [unfolded n0]]
  obtain x d2 where q: "db_Query E (newest_logs f (page_size f) (page_offset f)) ?vs d1 = (x, d2)"
    by (cases "db_Query E (newest_logs f (page_size f) (page_offset f)) ?vs d1")
  have r: "QueryLogs E f d = (case x of
        Inl e \<Rightarrow> (([], 0, Some e), d2)
      | Inr (rows, err) \<Rightarrow> (case scan_rows scanRequestLog rows None [] of
                         (_, Some e) \<Rightarrow> (([], 0, Some e), d2) | (out, None) \<Rightarrow> ((out, n0, err), d2)))"
    using c n0 q by (simp add: QueryLogs_def Let_def page_size_def [symmetric] page_offset_def [symmetric] split: sum.splits)
  then obtain rows where x: "x = Inr (rows, None)" and o: "scan_rows scanRequestLog rows None [] = (out, None)" and n: "n = n0" "d' = d2"
    using assms(2) by (auto split: sum.splits prod.splits option.splits)
  obtain orc where orc: "arranges orc" and rows: "rows = sql_query orc (tables d1) (newest_logs f (page_size f) (page_offset f)) ?vs"
    using query_ok [OF q [unfolded x]] by blast
  have "request_rows (tables d1)" using assms(1) cr by simp
  then obtain ys rs where ys: "listing f (stored_logs (tables d)) ys" "\<forall>r\<in>set rs. log_row log_columns log_args l_Timestamp r"
      "rows = map (\<lambda>r. map (col r) log_columns) rs" "map (row_entry log_columns scanRequestLog) rs = limit_offset (page_size f) (page_offset f) ys"
    using newest_query [OF _ orc] rows cr by metis
  have "out = limit_offset (page_size f) (page_offset f) ys" using o scan_log_rows [OF ys(2)] ys(3,4) by simp
  moreover have "0 < page_size f" by (simp add: page_size_def)
  ultimately have "out = take (nat (page_size f)) (drop (nat (page_offset f)) ys)" by (simp add: limit_offset_def Let_def)
  moreover have "n0 = int (length ys)" using cr ys(1) unfolding listing_def by (metis mset_eq_length)
  ultimately show ?thesis using ys(1) n cr query_tables [OF q] by auto
qed

end


section \<open>Properties\<close>

lemma fresh_logs: "request_rows (rd_tables fresh_db)" "detail_rows (rd_tables fresh_db)" "stored_logs (rd_tables fresh_db) = []"
  "stored_details (rd_tables fresh_db) = []"
  by (simp_all add: fresh_tables log_rows_def table_ok_def schema_cols stored_logs_def stored_details_def entries_def table_rows_def)

text \<open>C99. A page of the request log holds exactly what it should: there is an arrangement of the stored
  entries that match the filter, newest first up to the second, such that the page is its part from
  the offset on and the total is its length.\<close>

theorem log_page_exact:
  assumes "sqlite E tables saved strf" "request_rows (tables d)" "QueryLogs E f d = ((out, n, None), d')"
  shows "\<exists>ys. mset ys = mset (filter (log_matches f) (stored_logs (tables d))) \<and>
    sorted_wrt (\<lambda>a b. l_Timestamp b div Second \<le> l_Timestamp a div Second) ys \<and> n = int (length ys) \<and>
    out = take (nat (page_size f)) (drop (nat (page_offset f)) ys) \<and> tables d' = tables d"
  using sqlite.query_logs [OF assms] by (simp add: listing_def conj_assoc)

definition witness_log :: RequestLog where
  "witness_log = \<lparr>l_ID = ''r1'', l_SessionID = [], l_Timestamp = 0, l_APIKeyID = ''k1'', l_ModelAlias = ''gpt'', l_NodeID = ''n1'',
     l_ActualModel = ''gpt-4'', l_PromptTokens = 3, l_CompletionTokens = 4, l_TotalTokens = 7, l_DurationMs = 12, l_StatusCode = 200,
     l_Stream = False, l_ErrorMsg = [], l_HasDetail = False\<rparr>"

definition witness_filter :: LogFilter where
  "witness_filter = \<lparr>lf_APIKeyID = ''k1'', lf_ModelAlias = [], lf_NodeID = [], lf_SessionID = [], lf_StatusCode = 0, lf_ErrorOnly = False,
     lf_Keyword = [], lf_StartTime = None, lf_EndTime = None, lf_Page = 1, lf_PageSize = 10\<rparr>"

definition logged_db :: ref_db where
  "logged_db = snd (InsertRequestLog ref_engine witness_log fresh_db)"

lemma fresh_db_calls: "\<exists>k. fresh_db = \<lparr>rd_tables = rd_tables fresh_db, rd_saved = Map.empty, rd_calls = k, rd_faults = \<lambda>_. None\<rparr>"
  by (simp add: fresh_db_def migrate_def migrate_stmts_def upgrade_stmts_def ref_exec has_col_def addable_def schema_cols)

lemma logged_insert: "InsertRequestLog ref_engine witness_log fresh_db = (None, logged_db)"
proof -
  obtain k where k: "fresh_db = \<lparr>rd_tables = rd_tables fresh_db, rd_saved = Map.empty, rd_calls = k, rd_faults = \<lambda>_. None\<rparr>"
    using fresh_db_calls by blast
  have "fst (InsertRequestLog ref_engine witness_log fresh_db) = None"
    by (subst k) (simp add: InsertRequestLog_def ref_exec fresh_tables insert_log_stmt_def log_args_def log_columns_def has_col_def
        schema_cols insert_row_def)
  then show ?thesis by (metis logged_db_def prod.collapse)
qed

lemma logged_rows: "request_rows (rd_tables logged_db)" "stored_logs (rd_tables logged_db) = [witness_log]"
proof -
  have "date_ok 0" by code_simp
  then have t: "time_ok (l_Timestamp witness_log)" by (simp add: witness_log_def time_ok_def)
  show "request_rows (rd_tables logged_db)" "stored_logs (rd_tables logged_db) = [witness_log]"
    using refdb.insert_request_log [OF fresh_logs(1) t logged_insert] fresh_logs(3) by (simp_all add: add_entry_def)
qed


lemma ref_faults: "db_Exec ref_engine st vs d = (r, d') \<Longrightarrow> rd_faults d' = rd_faults d"
  by (auto simp: ref_engine_def ref_call_def Let_def split: option.splits)

lemma ref_query: "rd_faults d = (\<lambda>_. None) \<Longrightarrow>
    db_Query ref_engine q vs d = (Inr (sql_query ref_oracle (rd_tables d) q vs, None), d\<lparr>rd_calls := Suc (rd_calls d)\<rparr>)"
  by (simp add: ref_engine_def ref_call_def Let_def)

lemma ref_query_logs:
  assumes "request_rows (rd_tables d)" "rd_faults d = (\<lambda>_. None)"
  shows "\<exists>out n d'. QueryLogs ref_engine f d = ((out, n, None), d')"
proof -
  let ?vs = "snd (buildLogFilter f)" and ?d = "d\<lparr>rd_calls := Suc (rd_calls d)\<rparr>"
  have "sql_query ref_oracle (rd_tables d) (select_logs [ECountAll] f) ?vs =
      [[VInt (int (length (where_rows ref_oracle (rd_tables d) (select_logs [ECountAll] f) ?vs)))]]"
    by (simp add: sql_query_def select_logs_def sql_groups_def group_value_def Let_def)
  then obtain n where c: "scan_row ref_engine scan_int (select_logs [ECountAll] f) ?vs d = (Inr n, ?d)"
    by (simp add: scan_row_def query_row_def ref_query [OF assms(2)] scan_int_def)
  obtain rs where rs: "\<forall>r\<in>set rs. log_row log_columns log_args l_Timestamp r"
      "sql_query ref_oracle (rd_tables d) (newest_logs f (page_size f) (page_offset f)) ?vs = map (\<lambda>r. map (col r) log_columns) rs"
    using refdb.newest_query [OF assms(1) ref_oracle_arranges] by blast
  have "rd_faults ?d = (\<lambda>_. None)" using assms(2) by simp
  note q = ref_query [OF this, of "newest_logs f (page_size f) (page_offset f)" ?vs]
  show ?thesis
    using c q rs(2) refdb.scan_log_rows [OF rs(1), of None "[]"]
    by (simp add: QueryLogs_def Let_def page_size_def [symmetric] page_offset_def [symmetric])
qed

theorem log_page_exact_witness:
  "\<exists>out n d' ys. QueryLogs ref_engine witness_filter logged_db = ((out, n, None), d') \<and>
     mset ys = mset (filter (log_matches witness_filter) [witness_log]) \<and> n = int (length ys) \<and> out = take 10 (drop 0 ys) \<and> out = [witness_log]"
proof -
  have "rd_faults fresh_db = (\<lambda>_. None)" using fresh_db_calls by (metis ref_db.ext_inject ref_db.surjective)
  then have "rd_faults logged_db = (\<lambda>_. None)" using ref_faults logged_insert by (simp add: InsertRequestLog_def)
  then obtain out n d' where q: "QueryLogs ref_engine witness_filter logged_db = ((out, n, None), d')"
    using ref_query_logs [OF logged_rows(1)] by blast
  have p: "page_size witness_filter = 10" "page_offset witness_filter = 0" "log_matches witness_filter witness_log"
    by (simp_all add: page_size_def page_offset_def witness_filter_def i64_def log_matches_def witness_log_def)
  obtain ys where ys: "mset ys = mset (filter (log_matches witness_filter) [witness_log])" "n = int (length ys)" "out = take 10 (drop 0 ys)"
    using log_page_exact [OF refdb.sqlite_axioms logged_rows(1) q] by (auto simp: logged_rows(2) p)
  then have "ys = [witness_log]" using p(3) by simp
  then show ?thesis using q ys by auto
qed

text \<open>C99. A bulk insertion of request or detail logs is all or nothing: when it reports success each
  entry is stored, once per identifier and after those that were there; when it reports an error, of
  whatever call, no table has changed.\<close>

theorem bulk_insert_atomic:
  assumes "sqlite E tables saved strf" "request_rows (tables d)" "detail_rows (tables d)"
    and "\<forall>l\<in>set ls. time_ok (l_Timestamp l)" "\<forall>l\<in>set ds. time_ok (d_Timestamp l)"
  shows "(case sqlite_BulkInsertRequestLogs E ls d of
       (None, d') \<Rightarrow> stored_logs (tables d') = fold (add_entry l_ID) ls (stored_logs (tables d)) \<and>
         stored_details (tables d') = stored_details (tables d)
     | (Some e, d') \<Rightarrow> tables d' = tables d) \<and>
    (case sqlite_BulkInsertDetailLogs E ds d of
       (None, d') \<Rightarrow> stored_details (tables d') = fold (add_entry d_TraceID) ds (stored_details (tables d)) \<and>
         stored_logs (tables d') = stored_logs (tables d)
     | (Some e, d') \<Rightarrow> tables d' = tables d)"
proof -
  obtain e1 d1 where r: "sqlite_BulkInsertRequestLogs E ls d = (e1, d1)" by (cases "sqlite_BulkInsertRequestLogs E ls d")
  obtain e2 d2 where s: "sqlite_BulkInsertDetailLogs E ds d = (e2, d2)" by (cases "sqlite_BulkInsertDetailLogs E ds d")
  show ?thesis
    using sqlite.bulk_insert_request_logs [OF assms(1,2,4) r] sqlite.bulk_insert_detail_logs [OF assms(1,3,5) s] r s
    by (auto simp: stored_logs_def stored_details_def entries_def table_rows_def split: option.splits)
qed

theorem bulk_insert_atomic_witness:
  "(case sqlite_BulkInsertRequestLogs ref_engine [witness_log, witness_log] fresh_db of
      (None, d') \<Rightarrow> stored_logs (rd_tables d') = [witness_log]
    | (Some e, d') \<Rightarrow> rd_tables d' = rd_tables fresh_db)"
proof -
  have "date_ok 0" by code_simp
  then have t: "\<forall>l\<in>set [witness_log, witness_log]. time_ok (l_Timestamp l)" by (simp add: witness_log_def time_ok_def)
  show ?thesis
    using bulk_insert_atomic [OF refdb.sqlite_axioms fresh_logs(1,2) t, of "[]"] fresh_logs(3)
    by (auto simp: add_entry_def split: prod.splits option.splits)
qed

end
