(* ===== verification/Retention.thy ===== *)
theory Retention
  imports Log_Store
begin

text \<open>
  \<^verbatim>\<open>internal/logging/retention.go\<close>: the cleaner that enforces the limits on the two log tables.
  A cycle works on the database, the lines logged, and the flag \<^verbatim>\<open>pruned\<close>; \<open>None\<close> is a cycle that
  does not end, which can only come from the loops of the pruning by size.  The two tiers run the
  same code on different operations, so \<open>clean_age\<close> and \<open>clean_size\<close> take these as arguments.
\<close>

definition mb :: int where
  "mb = 1024 * 1024"

record RetentionCleaner =
  rc_basicMaxRows :: int
  rc_basicMaxDays :: int
  rc_basicMaxSizeMB :: int
  rc_detailMaxRows :: int
  rc_detailMaxDays :: int
  rc_detailMaxSizeMB :: int

type_synonym 'd clean_state = "'d \<times> log_line list \<times> bool"

text \<open>\<^verbatim>\<open>size, _ := ...\<close>: an error leaves the size 0.\<close>

definition size_or_zero :: "(goerror + int) \<times> 'd \<Rightarrow> int \<times> 'd" where
  "size_or_zero r = (case r of (Inl e, d) \<Rightarrow> (0, d) | (Inr n, d) \<Rightarrow> (n, d))"

definition clean_age ::
  "string \<Rightarrow> ('d \<Rightarrow> goerror option \<times> 'd) \<Rightarrow> int \<Rightarrow> int \<Rightarrow> 'd clean_state \<Rightarrow> 'd clean_state" where
  "clean_age kind prune maxRows maxDays st =
     (case st of (d, lg, pruned) \<Rightarrow>
        (case prune d of
           (Some e, d') \<Rightarrow> (d', lg @ [slog LError (''retention: prune '' @ kind @ '' logs (rows/days)'') [(''err'', err_text e)]], pruned)
         | (None, d') \<Rightarrow> (d', lg, pruned \<or> maxRows > 0 \<or> maxDays > 0)))"

definition clean_size ::
  "string \<Rightarrow> ('d \<Rightarrow> (goerror + int) \<times> 'd) \<Rightarrow> (int \<Rightarrow> 'd \<Rightarrow> (goerror option \<times> 'd) option) \<Rightarrow> int \<Rightarrow> 'd clean_state \<Rightarrow>
   'd clean_state option" where
  "clean_size kind sizeOf bySize maxSizeMB st =
     (if maxSizeMB > 0
      then (case st of (d, lg, pruned) \<Rightarrow>
              let maxBytes = i64 (maxSizeMB * mb); (before, d1) = size_or_zero (sizeOf d)
              in if before > maxBytes
                 then let lg1 = lg @ [slog LInfo (''retention: '' @ kind @ ''_logs over size limit'')
                                        [(''size_mb'', FormatInt (go_div before mb)), (''limit_mb'', FormatInt maxSizeMB)]]
                      in (case bySize maxBytes d1 of
                            None \<Rightarrow> None
                          | Some (Some e, d2) \<Rightarrow>
                              Some (d2, lg1 @ [slog LError (''retention: prune '' @ kind @ '' logs (size)'') [(''err'', err_text e)]], pruned)
                          | Some (None, d2) \<Rightarrow>
                              let (after, d3) = size_or_zero (sizeOf d2)
                              in Some (d3, lg1 @ [slog LInfo (''retention: '' @ kind @ ''_logs pruned'')
                                                    [(''before_mb'', FormatInt (go_div before mb)),
                                                     (''after_mb'', FormatInt (go_div after mb))]], True))
                 else Some (d1, lg, pruned))
      else Some st)"

definition clean_vacuum :: "'d sql_engine \<Rightarrow> 'd clean_state \<Rightarrow> 'd clean_state" where
  "clean_vacuum E st =
     (case st of (d, lg, pruned) \<Rightarrow>
        if pruned
        then (case IncrementalVacuum E d of
                (Some e, d') \<Rightarrow> (d', lg @ [slog LWarn ''retention: incremental vacuum'' [(''err'', err_text e)]], pruned)
              | (None, d') \<Rightarrow> (d', lg, pruned))
        else st)"

text \<open>The whole cycle; the clock is read once for each tier.\<close>

definition rc_clean ::
  "'d sql_engine \<Rightarrow> RetentionCleaner \<Rightarrow> gotime \<Rightarrow> gotime \<Rightarrow> 'd \<times> log_line list \<Rightarrow> ('d \<times> log_line list) option" where
  "rc_clean E r now1 now2 st =
     (case clean_size ''request'' (RequestLogsSizeBytes E) (PruneRequestLogsBySize E) (rc_basicMaxSizeMB r)
             (clean_age ''request'' (PruneRequestLogs E now1 (rc_basicMaxRows r) (rc_basicMaxDays r))
                (rc_basicMaxRows r) (rc_basicMaxDays r) (fst st, snd st, False)) of
        None \<Rightarrow> None
      | Some st1 \<Rightarrow>
          (case clean_size ''detail'' (DetailLogsSizeBytes E) (PruneDetailLogsBySize E) (rc_detailMaxSizeMB r)
                  (clean_age ''detail'' (PruneDetailLogs E now2 (rc_detailMaxRows r) (rc_detailMaxDays r))
                     (rc_detailMaxRows r) (rc_detailMaxDays r) st1) of
             None \<Rightarrow> None
           | Some st2 \<Rightarrow>
               (case clean_vacuum E st2 of (d, lg, pruned) \<Rightarrow>
                  let (basic, d1) = size_or_zero (RequestLogsSizeBytes E d);
                      (detail, d2) = size_or_zero (DetailLogsSizeBytes E d1)
                  in Some (d2, lg @ [slog LInfo ''retention: cycle complete''
                                       [(''basic_size_mb'', FormatInt (go_div basic mb)),
                                        (''detail_size_mb'', FormatInt (go_div detail mb))]]))))"

text \<open>The goroutine \<^verbatim>\<open>run\<close>: a cycle at the start, then one for each tick until the stop channel is
  closed.  With a tick and the stop both ready \<^verbatim>\<open>select\<close> may take either.\<close>

datatype cleaner_phase = CStarting | CWaiting | CDone

record 'd cleaner =
  cs_phase :: cleaner_phase
  cs_stop :: bool
  cs_work :: "'d \<times> log_line list"

datatype cleaner_event = CClean gotime gotime | CTick gotime gotime | CStopSeen | CStop

definition NewRetentionCleaner :: "'d \<Rightarrow> 'd cleaner" where
  "NewRetentionCleaner d = \<lparr>cs_phase = CStarting, cs_stop = False, cs_work = (d, [])\<rparr>"

text \<open>\<open>CStop\<close> is the call of \<^verbatim>\<open>Stop\<close>, which then waits for \<open>CDone\<close>; closing the channel twice would
  panic, so it is enabled once.\<close>

definition run_step :: "'d sql_engine \<Rightarrow> RetentionCleaner \<Rightarrow> cleaner_event \<Rightarrow> 'd cleaner \<Rightarrow> 'd cleaner option" where
  "run_step E r ev c =
     (case ev of
        CClean n1 n2 \<Rightarrow>
          if cs_phase c = CStarting
          then map_option (\<lambda>st. c\<lparr>cs_work := st, cs_phase := CWaiting\<rparr>) (rc_clean E r n1 n2 (cs_work c)) else None
      | CTick n1 n2 \<Rightarrow>
          if cs_phase c = CWaiting then map_option (\<lambda>st. c\<lparr>cs_work := st\<rparr>) (rc_clean E r n1 n2 (cs_work c)) else None
      | CStopSeen \<Rightarrow> if cs_phase c = CWaiting \<and> cs_stop c then Some (c\<lparr>cs_phase := CDone\<rparr>) else None
      | CStop \<Rightarrow> if cs_stop c then None else Some (c\<lparr>cs_stop := True\<rparr>))"


section \<open>One tier\<close>

text \<open>What a cycle needs from a log table: \<open>held\<close> are its entries, \<open>frame\<close> everything else.\<close>

definition in_limits :: "('a \<Rightarrow> gotime) \<Rightarrow> gotime \<Rightarrow> int \<Rightarrow> int \<Rightarrow> 'a list \<Rightarrow> bool" where
  "in_limits stamp now maxRows maxDays xs \<longleftrightarrow>
     (maxRows > 0 \<longrightarrow> length xs \<le> nat maxRows) \<and>
     (maxDays > 0 \<longrightarrow> (\<forall>x\<in>set xs. Format_RFC3339Nano (now - maxDays * 86400 * Second) \<le> Format_RFC3339Nano (stamp x)))"

definition part_of :: "'a list \<Rightarrow> 'a list \<Rightarrow> bool" where
  "part_of new old \<longleftrightarrow> (\<exists>Q. new = filter Q old)"

lemma part_of_refl: "part_of xs xs"
  unfolding part_of_def by (rule exI [of _ "\<lambda>_. True"]) simp

lemma part_of_trans: "part_of zs ys \<Longrightarrow> part_of ys xs \<Longrightarrow> part_of zs xs"
  unfolding part_of_def by (metis filter_filter)

lemma in_limits_part: "in_limits stamp now maxRows maxDays xs \<Longrightarrow> part_of ys xs \<Longrightarrow> in_limits stamp now maxRows maxDays ys"
proof -
  assume a: "in_limits stamp now maxRows maxDays xs" and "part_of ys xs"
  then obtain Q where "ys = filter Q xs" by (auto simp: part_of_def)
  moreover have "length (filter Q xs) \<le> nat maxRows" if "length xs \<le> nat maxRows" using that length_filter_le order.trans by blast
  ultimately show ?thesis using a by (auto simp: in_limits_def)
qed

definition no_error :: "log_line list \<Rightarrow> bool" where
  "no_error lg \<longleftrightarrow> (\<forall>l\<in>set lg. ll_level l \<noteq> LError)"

text \<open>The outcome of a tier: only deletions; and, if the lines it logged hold no error, the limits.  The limit
  on the size needs its readings to have succeeded, because an unread size counts as zero.\<close>

definition tidied ::
  "('a \<Rightarrow> gotime) \<Rightarrow> ('a \<Rightarrow> int) \<Rightarrow> gotime \<Rightarrow> int \<Rightarrow> int \<Rightarrow> int \<Rightarrow> bool \<Rightarrow> log_line list \<Rightarrow> 'a list \<Rightarrow> 'a list \<Rightarrow> bool" where
  "tidied stamp esize now maxRows maxDays maxSizeMB readable lg old new \<longleftrightarrow>
     part_of new old \<and>
     (no_error lg \<longrightarrow> in_limits stamp now maxRows maxDays new) \<and>
     (no_error lg \<and> readable \<and> 0 < maxSizeMB \<and> maxSizeMB * mb < 2 ^ 63 \<longrightarrow> sum_list (map esize new) \<le> maxSizeMB * mb)"

lemma tidied_more: "tidied stamp esize now maxRows maxDays maxSizeMB readable lg old new \<Longrightarrow> set lg \<subseteq> set lg' \<Longrightarrow>
    tidied stamp esize now maxRows maxDays maxSizeMB readable lg' old new"
  by (auto simp: tidied_def no_error_def)

locale log_tier =
  fixes ok :: "'d \<Rightarrow> bool" and held :: "'d \<Rightarrow> 'a list" and esize :: "'a \<Rightarrow> int" and stamp :: "'a \<Rightarrow> gotime" and frame :: "'d \<Rightarrow> 'f"
    and prune :: "gotime \<Rightarrow> int \<Rightarrow> int \<Rightarrow> 'd \<Rightarrow> goerror option \<times> 'd" and sizeOf :: "'d \<Rightarrow> (goerror + int) \<times> 'd"
    and bySize :: "int \<Rightarrow> 'd \<Rightarrow> (goerror option \<times> 'd) option"
  assumes prune_spec: "ok d \<Longrightarrow> prune now maxRows maxDays d = (err, d') \<Longrightarrow>
      ok d' \<and> frame d' = frame d \<and> part_of (held d') (held d) \<and> (err = None \<longrightarrow> in_limits stamp now maxRows maxDays (held d'))"
    and size_spec: "ok d \<Longrightarrow> sizeOf d = (res, d') \<Longrightarrow>
      ok d' \<and> frame d' = frame d \<and> held d' = held d \<and> (\<forall>n. res = Inr n \<longrightarrow> n = sum_list (map esize (held d)))"
    and by_size_spec: "ok d \<Longrightarrow> \<exists>err d'. bySize maxBytes d = Some (err, d') \<and> ok d' \<and> frame d' = frame d \<and> part_of (held d') (held d) \<and>
      (err = None \<and> 0 < maxBytes \<longrightarrow> sum_list (map esize (held d')) \<le> maxBytes)"
begin

lemma age_spec:
  assumes "ok d" "clean_age kind (prune now maxRows maxDays) maxRows maxDays (d, lg, p) = (d', lg', p')"
  shows "ok d' \<and> frame d' = frame d \<and> part_of (held d') (held d) \<and>
    (\<exists>new. lg' = lg @ new \<and> (no_error new \<longrightarrow> in_limits stamp now maxRows maxDays (held d')))"
proof -
  obtain err d1 where e: "prune now maxRows maxDays d = (err, d1)" by (cases "prune now maxRows maxDays d")
  note s = prune_spec [OF assms(1) e]
  show ?thesis
  proof (cases err)
    case None
    then show ?thesis using assms(2) e s by (auto simp: clean_age_def)
  next
    case (Some x)
    then show ?thesis using assms(2) e s by (auto simp: clean_age_def no_error_def slog_def)
  qed
qed

lemma zero_size:
  assumes "ok d" "size_or_zero (sizeOf d) = (n, d')"
  shows "ok d' \<and> frame d' = frame d \<and> held d' = held d \<and> ((\<exists>m. fst (sizeOf d) = Inr m) \<longrightarrow> n = sum_list (map esize (held d)))"
proof -
  obtain res d1 where "sizeOf d = (res, d1)" by (cases "sizeOf d")
  then show ?thesis using assms size_spec [of d res d1] by (cases res) (auto simp: size_or_zero_def)
qed

lemma size_step:
  assumes "ok d"
  shows "\<exists>d' new p'. clean_size kind sizeOf bySize maxSizeMB (d, lg, p) = Some (d', lg @ new, p') \<and> ok d' \<and> frame d' = frame d \<and>
    part_of (held d') (held d) \<and>
    (no_error new \<and> (\<forall>d. \<exists>n. fst (sizeOf d) = Inr n) \<and> 0 < maxSizeMB \<and> maxSizeMB * mb < 2 ^ 63 \<longrightarrow>
       sum_list (map esize (held d')) \<le> maxSizeMB * mb)"
proof (cases "maxSizeMB > 0")
  case False
  then show ?thesis using assms part_of_refl by (auto simp: clean_size_def)
next
  case True
  define mx where "mx = i64 (maxSizeMB * mb)"
  have mx: "maxSizeMB * mb < 2 ^ 63 \<Longrightarrow> mx = maxSizeMB * mb \<and> 0 < mx" using True by (simp add: mx_def mb_def is_i64_def)
  obtain n d1 where n: "size_or_zero (sizeOf d) = (n, d1)" by (cases "size_or_zero (sizeOf d)")
  note z = zero_size [OF assms n]
  show ?thesis
  proof (cases "n > mx")
    case False
    have "sum_list (map esize (held d1)) \<le> maxSizeMB * mb" if "\<forall>d. \<exists>n. fst (sizeOf d) = Inr n" "maxSizeMB * mb < 2 ^ 63"
      using that z mx False by simp
    then show ?thesis
      using True False n z part_of_refl [of "held d"]
      by (intro exI [of _ d1] exI [of _ "[]"] exI [of _ p]) (simp add: clean_size_def Let_def mx_def [symmetric])
  next
    case nm: True
    obtain err d2 where b: "bySize mx d1 = Some (err, d2)" "ok d2" "frame d2 = frame d1" "part_of (held d2) (held d1)"
        "err = None \<and> 0 < mx \<longrightarrow> sum_list (map esize (held d2)) \<le> mx"
      using by_size_spec z by blast
    obtain n3 d3 where n3: "size_or_zero (sizeOf d2) = (n3, d3)" by (cases "size_or_zero (sizeOf d2)")
    note z3 = zero_size [OF b(2) n3]
    show ?thesis
    proof (cases err)
      case None
      then show ?thesis using True nm n z b n3 z3 mx by (auto simp: clean_size_def Let_def mx_def [symmetric])
    next
      case (Some e)
      then show ?thesis using True nm n z b by (auto simp: clean_size_def Let_def mx_def [symmetric] no_error_def slog_def)
    qed
  qed
qed

lemma tier_spec:
  assumes "ok d"
  shows "\<exists>d' new p'. clean_size kind sizeOf bySize maxSizeMB
      (clean_age kind (prune now maxRows maxDays) maxRows maxDays (d, lg, p)) = Some (d', lg @ new, p') \<and> ok d' \<and> frame d' = frame d \<and>
    tidied stamp esize now maxRows maxDays maxSizeMB (\<forall>d. \<exists>n. fst (sizeOf d) = Inr n) new (held d) (held d')"
proof -
  obtain d1 lg1 p1 where a: "clean_age kind (prune now maxRows maxDays) maxRows maxDays (d, lg, p) = (d1, lg1, p1)"
    by (metis prod_cases3)
  obtain new1 where s1: "ok d1" "frame d1 = frame d" "part_of (held d1) (held d)" "lg1 = lg @ new1"
      "no_error new1 \<longrightarrow> in_limits stamp now maxRows maxDays (held d1)"
    using age_spec [OF assms a] by blast
  obtain d2 new2 p2 where s2: "clean_size kind sizeOf bySize maxSizeMB (d1, lg1, p1) = Some (d2, lg1 @ new2, p2)" "ok d2" "frame d2 = frame d1"
      "part_of (held d2) (held d1)"
      "no_error new2 \<and> (\<forall>d. \<exists>n. fst (sizeOf d) = Inr n) \<and> 0 < maxSizeMB \<and> maxSizeMB * mb < 2 ^ 63 \<longrightarrow>
         sum_list (map esize (held d2)) \<le> maxSizeMB * mb"
    using size_step [OF s1(1)] by metis
  have "no_error (new1 @ new2) \<longleftrightarrow> no_error new1 \<and> no_error new2" by (auto simp: no_error_def)
  then show ?thesis
    using s1 s2 a part_of_trans [OF s2(4) s1(3)] in_limits_part [OF _ s2(4)]
    by (intro exI [of _ d2] exI [of _ "new1 @ new2"] exI [of _ p2]) (simp add: tidied_def)
qed

end


section \<open>Both tiers\<close>

context sqlite
begin

lemma prune_request_logs:
  assumes "request_rows (tables d)" "PruneRequestLogs E now maxRows maxDays d = (err, d')"
  shows "request_rows (tables d') \<and> (\<forall>t. t \<noteq> ''request_logs'' \<longrightarrow> tables d' t = tables d t) \<and>
    part_of (stored_logs (tables d')) (stored_logs (tables d)) \<and> (err = None \<longrightarrow> in_limits l_Timestamp now maxRows maxDays (stored_logs (tables d')))"
proof -
  obtain e1 d1 where e1: "prune_days E now ''request_logs'' maxDays d = (e1, d1)" by (cases "prune_days E now ''request_logs'' maxDays d")
  note a = request_logs.prune_days_spec [OF assms(1) e1, unfolded log_names, folded stored_logs_def]
  have p1: "part_of (stored_logs (tables d1)) (stored_logs (tables d))" using a unfolding part_of_def by blast
  show ?thesis
  proof (cases e1)
    case (Some e)
    then show ?thesis using a p1 assms(2) e1 by (auto simp: PruneRequestLogs_def)
  next
    case None
    then have e2: "prune_rows E ''request_logs'' ''id'' maxRows d1 = (err, d')" using assms(2) e1 by (simp add: PruneRequestLogs_def)
    have "request_rows (tables d1)" using a by simp
    note b = request_logs.prune_rows_spec [OF this e2, unfolded log_names, folded stored_logs_def]
    have p2: "part_of (stored_logs (tables d')) (stored_logs (tables d1))" using b by (auto simp: keeps_newest_def part_of_def)
    have "in_limits l_Timestamp now 0 maxDays (stored_logs (tables d1))" using a None by (auto simp: in_limits_def)
    then have "in_limits l_Timestamp now 0 maxDays (stored_logs (tables d'))" using in_limits_part p2 by blast
    then show ?thesis using a b part_of_trans [OF p2 p1] by (auto simp: in_limits_def)
  qed
qed

lemma prune_detail_logs:
  assumes "detail_rows (tables d)" "PruneDetailLogs E now maxRows maxDays d = (err, d')"
  shows "detail_rows (tables d') \<and> (\<forall>t. t \<noteq> ''detail_logs'' \<longrightarrow> tables d' t = tables d t) \<and>
    part_of (stored_details (tables d')) (stored_details (tables d)) \<and> (err = None \<longrightarrow> in_limits d_Timestamp now maxRows maxDays (stored_details (tables d')))"
proof -
  obtain e1 d1 where e1: "prune_days E now ''detail_logs'' maxDays d = (e1, d1)" by (cases "prune_days E now ''detail_logs'' maxDays d")
  note a = detail_logs.prune_days_spec [OF assms(1) e1, unfolded log_names, folded stored_details_def]
  have p1: "part_of (stored_details (tables d1)) (stored_details (tables d))" using a unfolding part_of_def by blast
  show ?thesis
  proof (cases e1)
    case (Some e)
    then show ?thesis using a p1 assms(2) e1 by (auto simp: PruneDetailLogs_def)
  next
    case None
    then have e2: "prune_rows E ''detail_logs'' ''trace_id'' maxRows d1 = (err, d')" using assms(2) e1 by (simp add: PruneDetailLogs_def)
    have "detail_rows (tables d1)" using a by simp
    note b = detail_logs.prune_rows_spec [OF this e2, unfolded log_names, folded stored_details_def]
    have p2: "part_of (stored_details (tables d')) (stored_details (tables d1))" using b by (auto simp: keeps_newest_def part_of_def)
    have "in_limits d_Timestamp now 0 maxDays (stored_details (tables d1))" using a None by (auto simp: in_limits_def)
    then have "in_limits d_Timestamp now 0 maxDays (stored_details (tables d'))" using in_limits_part p2 by blast
    then show ?thesis using a b part_of_trans [OF p2 p1] by (auto simp: in_limits_def)
  qed
qed

lemma same_elsewhere: "(\<forall>t'. t' \<noteq> t \<longrightarrow> db' t' = db t') \<longleftrightarrow> db'(t := None) = db(t := None)"
  by (auto simp: fun_eq_iff)

end

sublocale sqlite \<subseteq> request_tier: log_tier "\<lambda>d. request_rows (tables d)" "\<lambda>d. stored_logs (tables d)" log_size l_Timestamp
  "\<lambda>d. (tables d)(''request_logs'' := None)" "PruneRequestLogs E" "RequestLogsSizeBytes E" "PruneRequestLogsBySize E"
proof
  fix d now maxRows maxDays err d' res maxBytes
  show "request_rows (tables d) \<Longrightarrow> PruneRequestLogs E now maxRows maxDays d = (err, d') \<Longrightarrow> request_rows (tables d') \<and>
      (tables d')(''request_logs'' := None) = (tables d)(''request_logs'' := None) \<and> part_of (stored_logs (tables d')) (stored_logs (tables d)) \<and>
      (err = None \<longrightarrow> in_limits l_Timestamp now maxRows maxDays (stored_logs (tables d')))"
    using prune_request_logs unfolding same_elsewhere by blast
  show "request_rows (tables d) \<Longrightarrow> RequestLogsSizeBytes E d = (res, d') \<Longrightarrow> request_rows (tables d') \<and>
      (tables d')(''request_logs'' := None) = (tables d)(''request_logs'' := None) \<and> stored_logs (tables d') = stored_logs (tables d) \<and>
      (\<forall>n. res = Inr n \<longrightarrow> n = sum_list (map log_size (stored_logs (tables d))))"
    using request_size by auto
  show "request_rows (tables d) \<Longrightarrow> \<exists>err d'. PruneRequestLogsBySize E maxBytes d = Some (err, d') \<and> request_rows (tables d') \<and>
      (tables d')(''request_logs'' := None) = (tables d)(''request_logs'' := None) \<and> part_of (stored_logs (tables d')) (stored_logs (tables d)) \<and>
      (err = None \<and> 0 < maxBytes \<longrightarrow> sum_list (map log_size (stored_logs (tables d'))) \<le> maxBytes)"
    using prune_requests_by_size [of d maxBytes] unfolding same_elsewhere keeps_newest_def part_of_def by blast
qed

sublocale sqlite \<subseteq> detail_tier: log_tier "\<lambda>d. detail_rows (tables d)" "\<lambda>d. stored_details (tables d)" detail_size d_Timestamp
  "\<lambda>d. (tables d)(''detail_logs'' := None)" "PruneDetailLogs E" "DetailLogsSizeBytes E" "PruneDetailLogsBySize E"
proof
  fix d now maxRows maxDays err d' res maxBytes
  show "detail_rows (tables d) \<Longrightarrow> PruneDetailLogs E now maxRows maxDays d = (err, d') \<Longrightarrow> detail_rows (tables d') \<and>
      (tables d')(''detail_logs'' := None) = (tables d)(''detail_logs'' := None) \<and> part_of (stored_details (tables d')) (stored_details (tables d)) \<and>
      (err = None \<longrightarrow> in_limits d_Timestamp now maxRows maxDays (stored_details (tables d')))"
    using prune_detail_logs unfolding same_elsewhere by blast
  show "detail_rows (tables d) \<Longrightarrow> DetailLogsSizeBytes E d = (res, d') \<Longrightarrow> detail_rows (tables d') \<and>
      (tables d')(''detail_logs'' := None) = (tables d)(''detail_logs'' := None) \<and> stored_details (tables d') = stored_details (tables d) \<and>
      (\<forall>n. res = Inr n \<longrightarrow> n = sum_list (map detail_size (stored_details (tables d))))"
    using detail_size_read by auto
  show "detail_rows (tables d) \<Longrightarrow> \<exists>err d'. PruneDetailLogsBySize E maxBytes d = Some (err, d') \<and> detail_rows (tables d') \<and>
      (tables d')(''detail_logs'' := None) = (tables d)(''detail_logs'' := None) \<and> part_of (stored_details (tables d')) (stored_details (tables d)) \<and>
      (err = None \<and> 0 < maxBytes \<longrightarrow> sum_list (map detail_size (stored_details (tables d'))) \<le> maxBytes)"
    using prune_details_by_size [of d maxBytes] unfolding same_elsewhere keeps_newest_def part_of_def by blast
qed


context sqlite
begin

lemma frame_details:
  "db'(''request_logs'' := None) = db(''request_logs'' := None) \<Longrightarrow>
    detail_rows db' = detail_rows db \<and> stored_details db' = stored_details db"
  by (drule fun_cong [of _ _ "''detail_logs''"]) (simp add: log_rows_def stored_details_def entries_def table_rows_def)

lemma frame_requests:
  "db'(''detail_logs'' := None) = db(''detail_logs'' := None) \<Longrightarrow>
    request_rows db' = request_rows db \<and> stored_logs db' = stored_logs db"
  by (drule fun_cong [of _ _ "''request_logs''"]) (simp add: log_rows_def stored_logs_def entries_def table_rows_def)

lemma vacuum_tables: "clean_vacuum E (d, lg, p) = (d', lg', p') \<Longrightarrow> tables d' = tables d \<and> (\<exists>new. lg' = lg @ new \<and> no_error new)"
proof -
  assume v: "clean_vacuum E (d, lg, p) = (d', lg', p')"
  have "tables d1 = tables d" if e: "IncrementalVacuum E d = (err, d1)" for err d1
  proof (cases err)
    case None
    with e have "db_Exec E (SPragma ''incremental_vacuum'') [] d = (None, d1)" by (simp add: IncrementalVacuum_def)
    then show ?thesis using exec_ok by fastforce
  next
    case (Some x)
    then show ?thesis using e exec_failed by (simp add: IncrementalVacuum_def)
  qed
  then show ?thesis using v by (auto simp: clean_vacuum_def no_error_def slog_def split: if_splits prod.splits option.splits)
qed

lemma sizes_same:
  assumes "request_rows (tables d)" "detail_rows (tables d)"
    and "size_or_zero (RequestLogsSizeBytes E d) = (b, d1)" "size_or_zero (DetailLogsSizeBytes E d1) = (b', d2)"
  shows "tables d2 = tables d"
proof -
  obtain r1 e1 where r1: "RequestLogsSizeBytes E d = (r1, e1)" by (cases "RequestLogsSizeBytes E d")
  have t1: "d1 = e1" "tables e1 = tables d"
    using assms(3) r1 request_size [OF assms(1) r1] by (auto simp: size_or_zero_def split: sum.splits)
  obtain r2 e2 where r2: "DetailLogsSizeBytes E d1 = (r2, e2)" by (cases "DetailLogsSizeBytes E d1")
  have "detail_rows (tables d1)" using assms(2) t1 by simp
  from detail_size_read [OF this r2] show ?thesis using assms(4) r2 t1 by (auto simp: size_or_zero_def split: sum.splits)
qed

lemma clean_spec:
  assumes "request_rows (tables d)" "detail_rows (tables d)"
  shows "\<exists>d' new. rc_clean E r now1 now2 (d, lg) = Some (d', lg @ new) \<and> request_rows (tables d') \<and> detail_rows (tables d') \<and>
    tidied l_Timestamp log_size now1 (rc_basicMaxRows r) (rc_basicMaxDays r) (rc_basicMaxSizeMB r)
      (\<forall>d. \<exists>n. fst (RequestLogsSizeBytes E d) = Inr n) new (stored_logs (tables d)) (stored_logs (tables d')) \<and>
    tidied d_Timestamp detail_size now2 (rc_detailMaxRows r) (rc_detailMaxDays r) (rc_detailMaxSizeMB r)
      (\<forall>d. \<exists>n. fst (DetailLogsSizeBytes E d) = Inr n) new (stored_details (tables d)) (stored_details (tables d'))"
proof -
  obtain d1 n1 p1 where t1: "clean_size ''request'' (RequestLogsSizeBytes E) (PruneRequestLogsBySize E) (rc_basicMaxSizeMB r)
        (clean_age ''request'' (PruneRequestLogs E now1 (rc_basicMaxRows r) (rc_basicMaxDays r)) (rc_basicMaxRows r) (rc_basicMaxDays r) (d, lg, False))
        = Some (d1, lg @ n1, p1)" "request_rows (tables d1)" "(tables d1)(''request_logs'' := None) = (tables d)(''request_logs'' := None)"
      "tidied l_Timestamp log_size now1 (rc_basicMaxRows r) (rc_basicMaxDays r) (rc_basicMaxSizeMB r)
        (\<forall>d. \<exists>n. fst (RequestLogsSizeBytes E d) = Inr n) n1 (stored_logs (tables d)) (stored_logs (tables d1))"
    by (rule request_tier.tier_spec [OF assms(1), THEN exE]) (elim exE conjE, rule that)
  have f1: "detail_rows (tables d1)" "stored_details (tables d1) = stored_details (tables d)" using frame_details [OF t1(3)] assms(2) by simp_all
  obtain d2 n2 p2 where t2: "clean_size ''detail'' (DetailLogsSizeBytes E) (PruneDetailLogsBySize E) (rc_detailMaxSizeMB r)
        (clean_age ''detail'' (PruneDetailLogs E now2 (rc_detailMaxRows r) (rc_detailMaxDays r)) (rc_detailMaxRows r) (rc_detailMaxDays r) (d1, lg @ n1, p1))
        = Some (d2, (lg @ n1) @ n2, p2)" "detail_rows (tables d2)" "(tables d2)(''detail_logs'' := None) = (tables d1)(''detail_logs'' := None)"
      "tidied d_Timestamp detail_size now2 (rc_detailMaxRows r) (rc_detailMaxDays r) (rc_detailMaxSizeMB r)
        (\<forall>d. \<exists>n. fst (DetailLogsSizeBytes E d) = Inr n) n2 (stored_details (tables d1)) (stored_details (tables d2))"
    by (rule detail_tier.tier_spec [OF f1(1), THEN exE]) (elim exE conjE, rule that)
  have f2: "request_rows (tables d2)" "stored_logs (tables d2) = stored_logs (tables d1)" using frame_requests [OF t2(3)] t1(2) by simp_all
  obtain d3 lg3 p3 where v: "clean_vacuum E (d2, (lg @ n1) @ n2, p2) = (d3, lg3, p3)" by (metis prod_cases3)
  obtain n3 where v3: "tables d3 = tables d2" "lg3 = ((lg @ n1) @ n2) @ n3" using vacuum_tables [OF v] by blast
  obtain b d4 where z1: "size_or_zero (RequestLogsSizeBytes E d3) = (b, d4)" by (cases "size_or_zero (RequestLogsSizeBytes E d3)")
  obtain b' d5 where z2: "size_or_zero (DetailLogsSizeBytes E d4) = (b', d5)" by (cases "size_or_zero (DetailLogsSizeBytes E d4)")
  have t5: "tables d5 = tables d2" using sizes_same [OF _ _ z1 z2] f2(1) t2(2) v3(1) by simp
  define new where "new = n1 @ n2 @ n3 @ [slog LInfo ''retention: cycle complete''
    [(''basic_size_mb'', FormatInt (go_div b mb)), (''detail_size_mb'', FormatInt (go_div b' mb))]]"
  have "rc_clean E r now1 now2 (d, lg) = Some (d5, lg3 @ [slog LInfo ''retention: cycle complete''
      [(''basic_size_mb'', FormatInt (go_div b mb)), (''detail_size_mb'', FormatInt (go_div b' mb))]])"
    by (simp only: rc_clean_def fst_conv snd_conv t1(1) t2(1) v z1 z2 option.case prod.case Let_def)
  then have c: "rc_clean E r now1 now2 (d, lg) = Some (d5, lg @ new)" by (simp only: v3(2) new_def append_assoc)
  have "set n1 \<subseteq> set new" "set n2 \<subseteq> set new" by (auto simp: new_def)
  then show ?thesis
    using c f2 t2(2) tidied_more [OF t1(4)] tidied_more [OF t2(4)] unfolding f1(2)
    by (intro exI [where x = d5] exI [where x = new] conjI) (simp_all only: t5)
qed

end

section \<open>Properties\<close>

text \<open>C99. A retention cycle ends, also its loops that prune by size; it only deletes; and if it logs no
  error both tables are within their limits on rows and days, and on size as well provided the
  sizes could be read.\<close>

theorem retention_cycle:
  assumes "sqlite E tables saved strf" "request_rows (tables d)" "detail_rows (tables d)"
  shows "\<exists>d' new. rc_clean E r now1 now2 (d, lg) = Some (d', lg @ new) \<and> request_rows (tables d') \<and> detail_rows (tables d') \<and>
    tidied l_Timestamp log_size now1 (rc_basicMaxRows r) (rc_basicMaxDays r) (rc_basicMaxSizeMB r)
      (\<forall>d. \<exists>n. fst (RequestLogsSizeBytes E d) = Inr n) new (stored_logs (tables d)) (stored_logs (tables d')) \<and>
    tidied d_Timestamp detail_size now2 (rc_detailMaxRows r) (rc_detailMaxDays r) (rc_detailMaxSizeMB r)
      (\<forall>d. \<exists>n. fst (DetailLogsSizeBytes E d) = Inr n) new (stored_details (tables d)) (stored_details (tables d'))"
  by (rule sqlite.clean_spec [OF assms])

theorem retention_cycle_witness:
  "\<exists>d' new. rc_clean ref_engine \<lparr>rc_basicMaxRows = 1, rc_basicMaxDays = 7, rc_basicMaxSizeMB = 1, rc_detailMaxRows = 1, rc_detailMaxDays = 7,
      rc_detailMaxSizeMB = 1\<rparr> 0 0 (logged_db, []) = Some (d', new) \<and> part_of (stored_logs (rd_tables d')) [witness_log] \<and>
    (no_error new \<longrightarrow> length (stored_logs (rd_tables d')) \<le> 1)"
proof -
  have "detail_rows (rd_tables logged_db)"
  proof -
    have "date_ok 0" by code_simp
    then have t: "time_ok (l_Timestamp witness_log)" by (simp add: witness_log_def time_ok_def)
    have "rd_tables logged_db ''detail_logs'' = rd_tables fresh_db ''detail_logs''"
      using refdb.insert_request_log [OF fresh_logs(1) t logged_insert] by simp
    then show ?thesis using fresh_logs(2) by (simp add: log_rows_def)
  qed
  then obtain d' new where c: "rc_clean ref_engine \<lparr>rc_basicMaxRows = 1, rc_basicMaxDays = 7, rc_basicMaxSizeMB = 1, rc_detailMaxRows = 1,
        rc_detailMaxDays = 7, rc_detailMaxSizeMB = 1\<rparr> 0 0 (logged_db, []) = Some (d', [] @ new)"
      and t: "tidied l_Timestamp log_size 0 1 7 1 (\<forall>d. \<exists>n. fst (RequestLogsSizeBytes ref_engine d) = Inr n) new
        (stored_logs (rd_tables logged_db)) (stored_logs (rd_tables d'))"
    using retention_cycle [OF refdb.sqlite_axioms logged_rows(1), of "\<lparr>rc_basicMaxRows = 1, rc_basicMaxDays = 7, rc_basicMaxSizeMB = 1,
      rc_detailMaxRows = 1, rc_detailMaxDays = 7, rc_detailMaxSizeMB = 1\<rparr>" 0 0 "[]"] by auto
  then show ?thesis unfolding logged_rows(2) tidied_def in_limits_def by auto
qed

end
