(* ===== verification/Worker_Pool.thy ===== *)
theory Worker_Pool
  imports Worker_Retry Rate_Limiter Metrics Chain_Log Request_Queue
begin

text \<open>
  The worker pool of \<^verbatim>\<open>internal/worker/pool.go\<close> around the retry loop of \<open>Worker_Retry\<close>: the
  workers, the goroutines that put a refused request back after a pause, the monitor, \<^verbatim>\<open>Start\<close> and
  \<^verbatim>\<open>Stop\<close>.  A worker is in one of six places of its loop; each event moves one goroutine from one
  place to the next, and the events of all goroutines, of the handlers that submit requests and
  receive results, and of the contexts that end interleave freely.  \<open>None\<close> is an event that cannot
  happen in the state.  What a goroutine does under the lock of the queue, and a call of the limiter, is one event.

  Worker \<open>i\<close> is goroutine \<open>i\<close> of the queue's condition variable: in \<open>WDequeue\<close> it is asleep as long as
  \<open>i\<close> is in \<open>q_waiters\<close>, and only \<^verbatim>\<open>Signal\<close> or \<^verbatim>\<open>Broadcast\<close> wakes it.  The goroutine that calls \<^verbatim>\<open>Stop\<close> closes the stop channel,
  marks the queue closed, broadcasts and waits for the others, in four steps (\<open>wp_stopper\<close>).

  A panic ends the program (\<open>wp_crashed\<close>).  The last two fields record, for the statements, which requests the queue has
  accepted from a handler and for which a result has been sent.
\<close>

section \<open>Model\<close>

datatype worker_state =
    WTop
  | WDequeue
  | WCheck PendingRequest
  | WForward PendingRequest
  | WSend PendingRequest ExecutionResult
  | WExited

text \<open>How far \<^verbatim>\<open>Stop\<close> has come: not called; before the queue is closed; before the broadcast; waiting; returned.\<close>

datatype stopper_state = SIdle | SClose | SBroadcast | SWait | SReturned

record 'c WorkerPool =
  wp_queue :: RequestQueue
  wp_limiter :: Limiter
  wp_cache :: "'c cworld"
  wp_chain :: ChainLogger
  wp_metrics :: Registry
  wp_workers :: "worker_state list"
  wp_sleeping :: "PendingRequest list"
  wp_blocked :: "64 word"
  wp_active :: "32 word"
  wp_stop :: bool
  wp_stopper :: stopper_state
  wp_monitor :: bool
  wp_done :: "nat set"
  wp_writers :: "nat \<Rightarrow> ResponseWriter"
  wp_results :: "nat \<Rightarrow> ExecutionResult list"
  wp_log :: "log_line list"
  wp_crashed :: bool
  wp_accepted :: "PendingRequest list"
  wp_finished :: "PendingRequest list"

text \<open>What the pool is given and does not change.\<close>

record 'c pool_env =
  pe_ops :: "'c cache_ops"
  pe_clock :: clock
  pe_router :: Router
  pe_config :: WorkerConfig

text \<open>\<^verbatim>\<open>NewWorkerPool\<close> and \<^verbatim>\<open>Start\<close>; \<^verbatim>\<open>wg.Add\<close> with a negative number panics.\<close>

definition NewWorkerPool :: "RequestQueue \<Rightarrow> Limiter \<Rightarrow> 'c cworld \<Rightarrow> ChainLogger \<Rightarrow> (nat \<Rightarrow> ResponseWriter) \<Rightarrow> 'c WorkerPool" where
  "NewWorkerPool q l cw cl ws =
     \<lparr>wp_queue = q, wp_limiter = l, wp_cache = cw, wp_chain = cl, wp_metrics = metrics_Default, wp_workers = [], wp_sleeping = [],
      wp_blocked = 0, wp_active = 0, wp_stop = False, wp_stopper = SIdle, wp_monitor = False, wp_done = {}, wp_writers = ws, wp_results = (\<lambda>_. []),
      wp_log = [], wp_crashed = False, wp_accepted = [], wp_finished = []\<rparr>"

definition pool_Start :: "WorkerConfig \<Rightarrow> 'c WorkerPool \<Rightarrow> 'c WorkerPool option" where
  "pool_Start cfg p =
     (if wc_WorkerCount cfg + 1 < 0 then None
      else Some (p\<lparr>wp_workers := replicate (nat (wc_WorkerCount cfg)) WTop, wp_monitor := True\<rparr>))"

text \<open>\<^verbatim>\<open>Stop\<close> up to the closing of the stop channel, which panics when it is closed already, and its further steps:
  the two of \<open>queue_Close\<close>, and the return from \<^verbatim>\<open>wg.Wait\<close> once the workers and the monitor have returned.\<close>

definition pool_Stop :: "'c WorkerPool \<Rightarrow> 'c WorkerPool" where
  "pool_Stop p = (if wp_stop p then p\<lparr>wp_crashed := True\<rparr> else p\<lparr>wp_stop := True, wp_stopper := SClose\<rparr>)"

definition pool_Stop_next :: "'c WorkerPool \<Rightarrow> 'c WorkerPool option" where
  "pool_Stop_next p =
     (case wp_stopper p of
        SClose \<Rightarrow> Some (p\<lparr>wp_queue := queue_close_locked (wp_queue p), wp_stopper := SBroadcast\<rparr>)
      | SBroadcast \<Rightarrow> Some (p\<lparr>wp_queue := cond_Broadcast (wp_queue p), wp_stopper := SWait\<rparr>)
      | SWait \<Rightarrow>
          if (\<forall>ws\<in>set (wp_workers p). ws = WExited) \<and> \<not> wp_monitor p then Some (p\<lparr>wp_stopper := SReturned\<rparr>) else None
      | _ \<Rightarrow> None)"

definition set_worker :: "nat \<Rightarrow> worker_state \<Rightarrow> 'c WorkerPool \<Rightarrow> 'c WorkerPool" where
  "set_worker i ws p = p\<lparr>wp_workers := (wp_workers p)[i := ws]\<rparr>"

text \<open>The \<^verbatim>\<open>select\<close> at the top of the loop.\<close>

definition worker_top :: "nat \<Rightarrow> 'c WorkerPool \<Rightarrow> 'c WorkerPool" where
  "worker_top i p = set_worker i (if wp_stop p then WExited else WDequeue) p"

text \<open>\<^verbatim>\<open>DequeueBlocking\<close> up to its next wait or its return.\<close>

definition worker_dequeue :: "nat \<Rightarrow> 'c WorkerPool \<Rightarrow> 'c WorkerPool" where
  "worker_dequeue i p =
     (case queue_DequeueBlocking (\<lambda>c. c \<in> wp_done p) i (wp_queue p) of
        (out, q) \<Rightarrow>
          let p1 = p\<lparr>wp_queue := q\<rparr>
          in case out of
               Waiting \<Rightarrow> p1
             | ClosedNil \<Rightarrow> set_worker i WExited p1
             | Dequeued req \<Rightarrow> set_worker i (WCheck req) (p1\<lparr>wp_active := wp_active p1 + 1\<rparr>)
             | DequeuePanic \<Rightarrow> p1\<lparr>wp_crashed := True\<rparr>)"

text \<open>The check of the limits: a refused request is handed to a goroutine that sleeps.\<close>

definition worker_check :: "'c pool_env \<Rightarrow> gotime \<Rightarrow> nat \<Rightarrow> PendingRequest \<Rightarrow> 'c WorkerPool \<Rightarrow> 'c WorkerPool" where
  "worker_check env now i req p =
     (case AllowRequest (pe_ops env) (pe_clock env) (wp_limiter p) (wp_cache p) (p_APIKeyID req) (p_ModelAlias req) of
        ((allowed, st, err), l, cw) \<Rightarrow>
          let p1 = p\<lparr>wp_limiter := l, wp_cache := cw\<rparr>
          in if \<not> allowed \<or> err \<noteq> None
             then (case LogRateLimitCheck now (wp_chain p1) False st of
                     (ls, cl) \<Rightarrow>
                       set_worker i WTop
                         (p1\<lparr>wp_blocked := wp_blocked p1 + 1, wp_active := wp_active p1 - 1, wp_chain := cl,
                             wp_log := wp_log p1 @ ls, wp_sleeping := wp_sleeping p1 @ [req]\<rparr>))
             else set_worker i (WForward req) (p1\<lparr>wp_metrics := IncWorkerBusy (wp_metrics p1)\<rparr>))"

definition worker_forward :: "'c pool_env \<Rightarrow> retry_env \<Rightarrow> nat \<Rightarrow> PendingRequest \<Rightarrow> 'c WorkerPool \<Rightarrow> 'c WorkerPool" where
  "worker_forward env re i req p =
     (case forwardWithRetry re (pe_config env) (pe_router env) req (wp_writers p (p_ResponseWriter req)) of
        None \<Rightarrow> p\<lparr>wp_crashed := True\<rparr>
      | Some (res, w) \<Rightarrow>
          set_worker i (WSend req res)
            (p\<lparr>wp_writers := (wp_writers p)(p_ResponseWriter req := w), wp_metrics := DecWorkerBusy (wp_metrics p),
               wp_active := wp_active p - 1\<rparr>))"

text \<open>The two branches of the last \<^verbatim>\<open>select\<close>: the result channel has room for one value.\<close>

definition worker_send :: "nat \<Rightarrow> PendingRequest \<Rightarrow> ExecutionResult \<Rightarrow> 'c WorkerPool \<Rightarrow> 'c WorkerPool option" where
  "worker_send i req res p =
     (if length (wp_results p (p_ResultChan req)) < 1
      then Some (set_worker i WTop
             (p\<lparr>wp_results := (wp_results p)(p_ResultChan req := wp_results p (p_ResultChan req) @ [res]),
                wp_finished := wp_finished p @ [req]\<rparr>))
      else None)"

definition worker_abandon :: "nat \<Rightarrow> PendingRequest \<Rightarrow> 'c WorkerPool \<Rightarrow> 'c WorkerPool option" where
  "worker_abandon i req p = (if p_Context req \<in> wp_done p then Some (set_worker i WTop p) else None)"

text \<open>The end of the pause of the \<open>j\<close>-th sleeping goroutine; the result of \<^verbatim>\<open>Enqueue\<close> is not used.\<close>

definition pool_wake :: "nat \<Rightarrow> 'c WorkerPool \<Rightarrow> 'c WorkerPool option" where
  "pool_wake j p =
     (if j < length (wp_sleeping p)
      then let req = wp_sleeping p ! j; p1 = p\<lparr>wp_sleeping := take j (wp_sleeping p) @ drop (Suc j) (wp_sleeping p)\<rparr>
           in Some (if p_Context req \<in> wp_done p then p1 else p1\<lparr>wp_queue := snd (queue_Enqueue (wp_queue p1) req)\<rparr>)
      else None)"

definition monitor_tick :: "'c WorkerPool \<Rightarrow> 'c WorkerPool option" where
  "monitor_tick p =
     (if wp_monitor p
      then Some (p\<lparr>wp_blocked := 0,
                    wp_log := wp_log p @
                      (if queue_Length (wp_queue p) > 0 \<or> wp_blocked p > 0
                       then [slog LInfo (bytes_of [0xE2, 0x9A, 0x99] @ '' POOL'')
                               [(''queue'', FormatInt (queue_Length (wp_queue p))), (''active'', FormatInt (sint (wp_active p))),
                                (''blocked'', format_nat (unat (wp_blocked p)))]]
                       else [])\<rparr>)
      else None)"

text \<open>Outside the pool: a handler submits a request, or receives a result; a context ends.\<close>

definition pool_submit :: "PendingRequest \<Rightarrow> 'c WorkerPool \<Rightarrow> 'c WorkerPool" where
  "pool_submit req p =
     (case queue_Enqueue (wp_queue p) req of
        ((pos, n), q) \<Rightarrow> if pos = -1 then p\<lparr>wp_queue := q\<rparr> else p\<lparr>wp_queue := q, wp_accepted := wp_accepted p @ [req]\<rparr>)"

datatype pool_event =
    ETop nat
  | EDequeue nat
  | ECheck nat gotime
  | EForward nat retry_env
  | ESend nat
  | EAbandon nat
  | EWake nat
  | ETick
  | EMonitorStop
  | EStop
  | EStopNext
  | ESubmit PendingRequest
  | EReceive nat
  | EDone nat

definition at_worker :: "nat \<Rightarrow> (worker_state \<Rightarrow> 'c WorkerPool option) \<Rightarrow> 'c WorkerPool \<Rightarrow> 'c WorkerPool option" where
  "at_worker i f p = (if i < length (wp_workers p) then f (wp_workers p ! i) else None)"

fun pool_event_step :: "'c pool_env \<Rightarrow> pool_event \<Rightarrow> 'c WorkerPool \<Rightarrow> 'c WorkerPool option" where
  "pool_event_step env (ETop i) p = at_worker i (\<lambda>ws. if ws = WTop then Some (worker_top i p) else None) p"
| "pool_event_step env (EDequeue i) p =
     at_worker i (\<lambda>ws. if ws = WDequeue \<and> i \<notin> set (q_waiters (wp_queue p)) then Some (worker_dequeue i p) else None) p"
| "pool_event_step env (ECheck i now) p =
     at_worker i (\<lambda>ws. case ws of WCheck req \<Rightarrow> Some (worker_check env now i req p) | _ \<Rightarrow> None) p"
| "pool_event_step env (EForward i re) p =
     at_worker i (\<lambda>ws. case ws of WForward req \<Rightarrow> Some (worker_forward env re i req p) | _ \<Rightarrow> None) p"
| "pool_event_step env (ESend i) p = at_worker i (\<lambda>ws. case ws of WSend req res \<Rightarrow> worker_send i req res p | _ \<Rightarrow> None) p"
| "pool_event_step env (EAbandon i) p = at_worker i (\<lambda>ws. case ws of WSend req res \<Rightarrow> worker_abandon i req p | _ \<Rightarrow> None) p"
| "pool_event_step env (EWake j) p = pool_wake j p"
| "pool_event_step env ETick p = monitor_tick p"
| "pool_event_step env EMonitorStop p = (if wp_monitor p \<and> wp_stop p then Some (p\<lparr>wp_monitor := False\<rparr>) else None)"
| "pool_event_step env EStop p = Some (pool_Stop p)"
| "pool_event_step env EStopNext p = pool_Stop_next p"
| "pool_event_step env (ESubmit req) p = Some (pool_submit req p)"
| "pool_event_step env (EReceive c) p =
     (case wp_results p c of [] \<Rightarrow> None | r # rs \<Rightarrow> Some (p\<lparr>wp_results := (wp_results p)(c := rs)\<rparr>))"
| "pool_event_step env (EDone c) p = Some (p\<lparr>wp_done := insert c (wp_done p)\<rparr>)"

definition pool_step :: "'c pool_env \<Rightarrow> pool_event \<Rightarrow> 'c WorkerPool \<Rightarrow> 'c WorkerPool option" where
  "pool_step env ev p = (if wp_crashed p then None else pool_event_step env ev p)"

inductive pool_reach :: "'c pool_env \<Rightarrow> int \<Rightarrow> 'c WorkerPool \<Rightarrow> bool" for env n where
  start: "pool_Start (pe_config env) (NewWorkerPool (NewRequestQueue n) l cw cl ws) = Some p \<Longrightarrow> pool_reach env n p"
| step: "pool_reach env n p \<Longrightarrow> pool_step env ev p = Some p' \<Longrightarrow> pool_reach env n p'"

section \<open>Where the requests are\<close>

fun held :: "worker_state \<Rightarrow> PendingRequest list" where
  "held (WCheck req) = [req]"
| "held (WForward req) = [req]"
| "held (WSend req res) = [req]"
| "held _ = []"

fun working :: "worker_state \<Rightarrow> bool" where
  "working (WCheck req) = True"
| "working (WForward req) = True"
| "working _ = False"

fun forwarding :: "worker_state \<Rightarrow> bool" where
  "forwarding (WForward req) = True"
| "forwarding _ = False"

definition worker_count :: "(worker_state \<Rightarrow> bool) \<Rightarrow> 'c WorkerPool \<Rightarrow> nat" where
  "worker_count P p = length (filter P (wp_workers p))"

definition in_pool :: "'c WorkerPool \<Rightarrow> PendingRequest multiset" where
  "in_pool p = mset (q_heap (wp_queue p)) + mset (concat (map held (wp_workers p))) + mset (wp_sleeping p) + mset (wp_finished p)"

definition pool_inv :: "'c WorkerPool \<Rightarrow> bool" where
  "pool_inv p \<longleftrightarrow>
     queue_inv (wp_queue p) \<and> in_pool p \<subseteq># mset (wp_accepted p) \<and>
     wp_active p = of_nat (worker_count working p) \<and>
     workerBusyCount (wp_metrics p) = i64 (int (worker_count forwarding p)) \<and>
     (\<forall>c. length (wp_results p c) \<le> count_list (map p_ResultChan (wp_finished p)) c)"

text \<open>One worker moves.\<close>

lemma filter_update:
  "i < length xs \<Longrightarrow> length (filter P (xs[i := y])) + (if P (xs ! i) then 1 else 0) = length (filter P xs) + (if P y then 1 else 0)"
proof (induction xs arbitrary: i)
  case (Cons x xs)
  then show ?case by (cases i) auto
qed simp

lemma worker_count_set:
  assumes "i < length (wp_workers p)"
  shows "int (length (filter P ((wp_workers p)[i := ws]))) =
    int (worker_count P p) - (if P (wp_workers p ! i) then 1 else 0) + (if P ws then 1 else 0)"
  using filter_update [OF assms, of P ws] by (auto simp: worker_count_def split: if_splits)

lemma dequeue_removes:
  assumes "queue_inv q" "queue_DequeueBlocking d g q = (out, q')"
  shows "mset (case out of Dequeued r \<Rightarrow> [r] | _ \<Rightarrow> []) + mset (q_heap q') \<subseteq># mset (q_heap q)"
proof -
  have s: "dequeue_spec d (q_closed q) (q_heap q) out (q_heap q')" using dequeue_outcome_spec [OF assms] by blast
  then have sub: "mset (q_heap q') \<subseteq># mset (q_heap q)" by (simp add: dequeue_spec_def)
  show ?thesis
  proof (cases out)
    case (Dequeued r)
    with s have l: "live d r"
      and f: "filter_mset (live d) (mset (q_heap q)) = add_mset r (filter_mset (live d) (mset (q_heap q')))"
      by (simp_all add: dequeue_spec_def)
    have "count (add_mset r (mset (q_heap q'))) x \<le> count (mset (q_heap q)) x" for x
    proof (cases "live d x")
      case True
      then show ?thesis using arg_cong [OF f, of "\<lambda>m. count m x"] by auto
    next
      case False
      then show ?thesis using l mset_subset_eq_count [OF sub, of x] by auto
    qed
    then have "add_mset r (mset (q_heap q')) \<subseteq># mset (q_heap q)" by (rule mset_subset_eqI)
    then show ?thesis using Dequeued by simp
  qed (use sub in simp_all)
qed

lemma enqueue_adds:
  "mset (q_heap (snd (queue_Enqueue q r))) \<subseteq># add_mset r (mset (q_heap q))"
  "fst (fst (queue_Enqueue q r)) = -1 \<Longrightarrow> snd (queue_Enqueue q r) = q"
  "q_closed (snd (queue_Enqueue q r)) = q_closed q"
  by (auto simp: queue_Enqueue_def cond_Signal_def Let_def queue_position_count)

lemma held_split:
  assumes "i < length xs"
  obtains D where "mset (concat (map held xs)) = D + mset (held (xs ! i))"
    and "\<And>ws. mset (concat (map held (xs[i := ws]))) = D + mset (held ws)"
proof -
  let ?D = "mset (concat (map held (take i xs))) + mset (concat (map held (drop (Suc i) xs)))"
  have a: "mset (concat (map held xs)) = ?D + mset (held (xs ! i))"
  proof -
    have "xs = take i xs @ xs ! i # drop (Suc i) xs" using assms by (rule id_take_nth_drop)
    then have "mset (concat (map held xs)) = mset (concat (map held (take i xs @ xs ! i # drop (Suc i) xs)))" by simp
    then show ?thesis by (simp add: ac_simps)
  qed
  have "mset (concat (map held (xs[i := ws]))) = ?D + mset (held ws)" for ws
    using assms by (simp add: upd_conv_take_nth_drop ac_simps)
  with a show ?thesis by (rule that)
qed

lemma pool_inv_move:
  assumes inv: "pool_inv p" and i: "i < length (wp_workers p)" and w: "wp_workers p' = (wp_workers p)[i := ws]"
    and q: "queue_inv (wp_queue p')"
    and m: "mset (q_heap (wp_queue p')) + mset (held ws) + mset (wp_sleeping p') + mset (wp_finished p') \<subseteq>#
      mset (q_heap (wp_queue p)) + mset (held (wp_workers p ! i)) + mset (wp_sleeping p) + mset (wp_finished p)"
    and acc: "wp_accepted p' = wp_accepted p"
    and act: "wp_active p' = wp_active p - (if working (wp_workers p ! i) then 1 else 0) + (if working ws then 1 else 0)"
    and busy: "workerBusyCount (wp_metrics p') = i64 (workerBusyCount (wp_metrics p) -
      (if forwarding (wp_workers p ! i) then 1 else 0) + (if forwarding ws then 1 else 0))"
    and res: "\<And>c. length (wp_results p' c) \<le> count_list (map p_ResultChan (wp_finished p')) c"
  shows "pool_inv p'"
proof -
  obtain D where D: "mset (concat (map held (wp_workers p))) = D + mset (held (wp_workers p ! i))"
      "mset (concat (map held (wp_workers p'))) = D + mset (held ws)"
    using held_split [OF i] w by metis
  have "in_pool p' \<subseteq># in_pool p"
    using subset_mset.add_left_mono [OF m, of D] by (simp add: in_pool_def D ac_simps)
  then have "in_pool p' \<subseteq># mset (wp_accepted p')"
    using inv acc by (auto simp: pool_inv_def intro: subset_mset.trans)
  moreover have "wp_active p' = of_nat (worker_count working p')"
  proof -
    have "(of_nat (worker_count working p') :: 32 word) = of_int (int (worker_count working p'))" by simp
    also have "int (worker_count working p') = int (worker_count working p) -
        (if working (wp_workers p ! i) then 1 else 0) + (if working ws then 1 else 0)"
      using worker_count_set [OF i, of working ws] w by (simp add: worker_count_def)
    finally show ?thesis using inv act by (simp add: pool_inv_def)
  qed
  moreover have "workerBusyCount (wp_metrics p') = i64 (int (worker_count forwarding p'))"
  proof -
    have c: "int (worker_count forwarding p') = int (worker_count forwarding p) -
        (if forwarding (wp_workers p ! i) then 1 else 0) + (if forwarding ws then 1 else 0)"
      using worker_count_set [OF i, of forwarding ws] w by (simp add: worker_count_def)
    have b: "workerBusyCount (wp_metrics p) = i64 (int (worker_count forwarding p))" using inv by (simp add: pool_inv_def)
    show ?thesis
      unfolding busy b c diff_conv_add_uminus add.assoc by (rule i64_add_left)
  qed
  ultimately show ?thesis using q res by (simp add: pool_inv_def)
qed

lemma pool_inv_still:
  assumes "pool_inv p" "wp_workers p' = wp_workers p" "queue_inv (wp_queue p')"
    and m: "mset (q_heap (wp_queue p')) + mset (wp_sleeping p') + mset (wp_accepted p) \<subseteq>#
      mset (q_heap (wp_queue p)) + mset (wp_sleeping p) + mset (wp_accepted p')"
    and "wp_finished p' = wp_finished p" "wp_active p' = wp_active p" "wp_metrics p' = wp_metrics p"
    and "\<And>c. length (wp_results p' c) \<le> length (wp_results p c)"
  shows "pool_inv p'"
proof -
  let ?R = "mset (concat (map held (wp_workers p))) + mset (wp_finished p)"
  have "in_pool p' + mset (wp_accepted p) \<subseteq># in_pool p + mset (wp_accepted p')"
    using subset_mset.add_left_mono [OF m, of ?R] assms(2,5) by (simp add: in_pool_def ac_simps)
  also have "\<dots> \<subseteq># mset (wp_accepted p) + mset (wp_accepted p')"
    using assms(1) by (simp add: pool_inv_def)
  finally have "in_pool p' \<subseteq># mset (wp_accepted p')" by simp
  then show ?thesis
    using assms order.trans [OF assms(8)] by (simp add: pool_inv_def worker_count_def)
qed

lemma set_worker_simps [simp]:
  "wp_workers (set_worker i ws p) = (wp_workers p)[i := ws]" "wp_queue (set_worker i ws p) = wp_queue p"
  "wp_limiter (set_worker i ws p) = wp_limiter p" "wp_metrics (set_worker i ws p) = wp_metrics p"
  "wp_sleeping (set_worker i ws p) = wp_sleeping p" "wp_active (set_worker i ws p) = wp_active p"
  "wp_stop (set_worker i ws p) = wp_stop p" "wp_stopper (set_worker i ws p) = wp_stopper p" "wp_done (set_worker i ws p) = wp_done p"
  "wp_results (set_worker i ws p) = wp_results p" "wp_crashed (set_worker i ws p) = wp_crashed p"
  "wp_accepted (set_worker i ws p) = wp_accepted p" "wp_finished (set_worker i ws p) = wp_finished p"
  "wp_monitor (set_worker i ws p) = wp_monitor p" "wp_writers (set_worker i ws p) = wp_writers p"
  by (simp_all add: set_worker_def)

lemma pool_invD:
  assumes "pool_inv p"
  shows "queue_inv (wp_queue p)"
    "length (wp_results p c) \<le> count_list (map p_ResultChan (wp_finished p)) c"
    "is_i64 (workerBusyCount (wp_metrics p))"
  using assms by (simp_all add: pool_inv_def)

lemma busy_same: "pool_inv p \<Longrightarrow> i64 (workerBusyCount (wp_metrics p)) = workerBusyCount (wp_metrics p)"
  using pool_invD(3) [of p] by (simp add: i64_id)

lemma inv_top:
  assumes "pool_inv p" "i < length (wp_workers p)" "wp_workers p ! i = WTop"
  shows "pool_inv (worker_top i p)"
  by (rule pool_inv_move [OF assms(1,2), of _ "if wp_stop p then WExited else WDequeue"])
     (use assms pool_invD [OF assms(1)] busy_same [OF assms(1)] in \<open>auto simp: worker_top_def\<close>)

lemma inv_dequeue:
  assumes "pool_inv p" "i < length (wp_workers p)" "wp_workers p ! i = WDequeue"
  shows "pool_inv (worker_dequeue i p)"
proof -
  obtain out q where d: "queue_DequeueBlocking (\<lambda>c. c \<in> wp_done p) i (wp_queue p) = (out, q)" by fastforce
  note inv = pool_invD [OF assms(1)]
  have q: "queue_inv q"
    using queue_inv_Dequeue [OF inv(1), of "\<lambda>c. c \<in> wp_done p" i] d by simp
  have r: "mset (case out of Dequeued r \<Rightarrow> [r] | _ \<Rightarrow> []) + mset (q_heap q) \<subseteq># mset (q_heap (wp_queue p))"
    by (rule dequeue_removes [OF inv(1) d])
  define ws where "ws = (case out of Dequeued r \<Rightarrow> WCheck r | ClosedNil \<Rightarrow> WExited | _ \<Rightarrow> WDequeue)"
  have h: "mset (held ws) = mset (case out of Dequeued r \<Rightarrow> [r] | _ \<Rightarrow> [])" by (simp add: ws_def split: dequeue_outcome.splits)
  have old: "(wp_workers p)[i := WDequeue] = wp_workers p" using assms(3) list_update_id [of "wp_workers p" i] by simp
  show ?thesis
    by (rule pool_inv_move [OF assms(1,2), of _ ws])
       (use assms(3) q inv(2) busy_same [OF assms(1)] r old in
         \<open>simp_all add: worker_dequeue_def d h ws_def Let_def ac_simps split: dequeue_outcome.splits\<close>)
qed

lemma inv_check:
  assumes "pool_inv p" "i < length (wp_workers p)" "wp_workers p ! i = WCheck req"
  shows "pool_inv (worker_check env now i req p)"
proof -
  note inv = pool_invD [OF assms(1)]
  obtain allowed st err l cw where a: "AllowRequest (pe_ops env) (pe_clock env) (wp_limiter p) (wp_cache p) (p_APIKeyID req)
      (p_ModelAlias req) = ((allowed, st, err), l, cw)" by (metis prod_cases4 prod.exhaust)
  obtain ls cl where lg: "LogRateLimitCheck now (wp_chain p) False st = (ls, cl)" by fastforce
  show ?thesis
  proof (cases "\<not> allowed \<or> err \<noteq> None")
    case True
    show ?thesis
      by (rule pool_inv_move [OF assms(1,2), of _ WTop])
         (use assms(3) inv(1,2) busy_same [OF assms(1)] True in \<open>auto simp: worker_check_def a lg\<close>)
  next
    case False
    show ?thesis
      by (rule pool_inv_move [OF assms(1,2), of _ "WForward req"])
         (use assms(3) inv(1,2) False in \<open>auto simp: worker_check_def a IncWorkerBusy_def\<close>)
  qed
qed

lemma inv_crash: "pool_inv p \<Longrightarrow> pool_inv (p\<lparr>wp_crashed := True\<rparr>)"
  by (simp add: pool_inv_def in_pool_def worker_count_def)

lemma inv_forward:
  assumes "pool_inv p" "i < length (wp_workers p)" "wp_workers p ! i = WForward req"
  shows "pool_inv (worker_forward env re i req p)"
proof (cases "forwardWithRetry re (pe_config env) (pe_router env) req (wp_writers p (p_ResponseWriter req))")
  case None
  then show ?thesis using inv_crash [OF assms(1)] by (simp add: worker_forward_def)
next
  case (Some rw)
  obtain res w where rw: "rw = (res, w)" by fastforce
  show ?thesis
    by (rule pool_inv_move [OF assms(1,2), of _ "WSend req res"])
       (use assms(3) pool_invD(1,2) [OF assms(1)] Some rw in \<open>auto simp: worker_forward_def DecWorkerBusy_def\<close>)
qed

lemma inv_send:
  assumes "pool_inv p" "i < length (wp_workers p)" "wp_workers p ! i = WSend req res" "worker_send i req res p = Some p'"
  shows "pool_inv p'"
proof -
  note inv = pool_invD [OF assms(1)]
  have p': "p' = set_worker i WTop (p\<lparr>wp_results := (wp_results p)(p_ResultChan req := [res]), wp_finished := wp_finished p @ [req]\<rparr>)"
    using assms(4) by (auto simp: worker_send_def split: if_splits)
  have "length (wp_results p' c) \<le> count_list (map p_ResultChan (wp_finished p')) c" for c
    using inv(2) [of c] by (simp add: p')
  then show ?thesis
    by (intro pool_inv_move [OF assms(1,2), of _ WTop])
       (use assms(3) inv(1) busy_same [OF assms(1)] in \<open>auto simp: p'\<close>)
qed

lemma inv_abandon:
  assumes "pool_inv p" "i < length (wp_workers p)" "wp_workers p ! i = WSend req res" "worker_abandon i req p = Some p'"
  shows "pool_inv p'"
proof -
  have p': "p' = set_worker i WTop p" using assms(4) by (auto simp: worker_abandon_def split: if_splits)
  show ?thesis
    by (rule pool_inv_move [OF assms(1,2), of _ WTop])
       (use assms(3) pool_invD(1,2) [OF assms(1)] busy_same [OF assms(1)] in \<open>auto simp: p'\<close>)
qed

lemma inv_wake: "pool_inv p \<Longrightarrow> pool_wake j p = Some p' \<Longrightarrow> pool_inv p'"
proof -
  assume p: "pool_inv p" and w: "pool_wake j p = Some p'"
  note inv = pool_invD [OF p]
  let ?rest = "take j (wp_sleeping p) @ drop (Suc j) (wp_sleeping p)"
  have j: "j < length (wp_sleeping p)" using w by (auto simp: pool_wake_def split: if_splits)
  have s: "mset (wp_sleeping p) = add_mset (wp_sleeping p ! j) (mset ?rest)"
    by (subst id_take_nth_drop [OF j]) simp
  consider "p' = p\<lparr>wp_sleeping := ?rest\<rparr>"
    | "p' = p\<lparr>wp_sleeping := ?rest, wp_queue := snd (queue_Enqueue (wp_queue p) (wp_sleeping p ! j))\<rparr>"
    using w j by (auto simp: pool_wake_def Let_def split: if_splits)
  then show ?thesis
  proof cases
    case 1
    show ?thesis by (rule pool_inv_still [OF p]) (use inv s in \<open>simp_all add: 1\<close>)
  next
    case 2
    have "mset (q_heap (snd (queue_Enqueue (wp_queue p) (wp_sleeping p ! j)))) \<subseteq># add_mset (wp_sleeping p ! j) (mset (q_heap (wp_queue p)))"
      by (rule enqueue_adds)
    from subset_mset.add_right_mono [OF this, of "mset ?rest"] show ?thesis
      by (intro pool_inv_still [OF p]) (use inv s enqueue_adds(3) queue_inv_Enqueue in \<open>simp_all add: 2\<close>)
  qed
qed

lemma inv_submit: "pool_inv p \<Longrightarrow> pool_inv (pool_submit req p)"
proof -
  assume p: "pool_inv p"
  note inv = pool_invD [OF p]
  obtain pos n q where e: "queue_Enqueue (wp_queue p) req = ((pos, n), q)" by (metis prod.exhaust)
  have q: "queue_inv q" "mset (q_heap q) \<subseteq># add_mset req (mset (q_heap (wp_queue p)))"
      "pos = -1 \<Longrightarrow> q = wp_queue p"
    using queue_inv_Enqueue [OF inv(1), of req] enqueue_adds [where q = "wp_queue p" and r = req] e by simp_all
  show ?thesis
  proof (cases "pos = -1")
    case True
    then show ?thesis using p q(3) by (simp add: pool_submit_def e)
  next
    case False
    show ?thesis
      by (rule pool_inv_still [OF p]) (use False q in \<open>simp_all add: pool_submit_def e ac_simps\<close>)
  qed
qed

lemma inv_stop: "pool_inv p \<Longrightarrow> pool_inv (pool_Stop p)"
  using inv_crash [of p] by (auto simp: pool_Stop_def pool_inv_def in_pool_def worker_count_def)

lemma inv_stop_next: "pool_inv p \<Longrightarrow> pool_Stop_next p = Some p' \<Longrightarrow> pool_inv p'"
  using queue_inv_Close [of "wp_queue p"]
  by (auto simp: pool_Stop_next_def pool_inv_def in_pool_def worker_count_def queue_close_locked_def cond_Broadcast_def
      split: stopper_state.splits if_splits)

lemma inv_receive:
  assumes "pool_inv p" "wp_results p c = r # rs"
  shows "pool_inv (p\<lparr>wp_results := (wp_results p)(c := rs)\<rparr>)"
  by (rule pool_inv_still [OF assms(1)]) (use assms pool_invD [OF assms(1)] in simp_all)

lemma inv_monitor: "pool_inv p \<Longrightarrow> monitor_tick p = Some p' \<Longrightarrow> pool_inv p'"
  by (auto simp: monitor_tick_def pool_inv_def in_pool_def worker_count_def split: if_splits)

lemma at_worker_Some:
  "at_worker i f p = Some p' \<longleftrightarrow> i < length (wp_workers p) \<and> f (wp_workers p ! i) = Some p'"
  by (simp add: at_worker_def)

lemma pool_event_inv: "pool_inv p \<Longrightarrow> pool_event_step env ev p = Some p' \<Longrightarrow> pool_inv p'"
proof (cases ev)
  case (EReceive c)
  then show "pool_inv p \<Longrightarrow> pool_event_step env ev p = Some p' \<Longrightarrow> pool_inv p'"
    by (cases "wp_results p c") (auto intro: inv_receive)
qed (auto simp: at_worker_Some intro: inv_top inv_dequeue inv_check inv_forward inv_send inv_abandon inv_wake inv_submit inv_stop inv_stop_next
       inv_monitor split: if_splits worker_state.splits,
     simp_all add: pool_inv_def in_pool_def worker_count_def)

lemma pool_reach_inv: "pool_reach env n p \<Longrightarrow> pool_inv p"
proof (induction rule: pool_reach.induct)
  case (start l cw cl ws p)
  then have p: "p = (NewWorkerPool (NewRequestQueue n) l cw cl ws)
      \<lparr>wp_workers := replicate (nat (wc_WorkerCount (pe_config env))) WTop, wp_monitor := True\<rparr>"
    by (simp add: pool_Start_def split: if_splits)
  have "q_heap (NewRequestQueue n) = []" by (simp add: NewRequestQueue_def heap_Init_def)
  moreover have "concat (map held (replicate k WTop)) = []" for k by (induction k) simp_all
  ultimately show ?case
    using queue_inv_new [of n]
    by (simp add: p pool_inv_def in_pool_def worker_count_def NewWorkerPool_def metrics_Default_def NewRequestQueue_def)
next
  case (step p ev p')
  then show ?case by (auto simp: pool_step_def intro: pool_event_inv split: if_splits)
qed

lemma distinct_sub_mset:
  assumes "mset ys \<subseteq># mset xs" "distinct (map f xs)"
  shows "distinct (map f ys)"
proof -
  have "count (mset (map f ys)) a \<le> count (mset (map f xs)) a" for a
    using image_mset_subseteq_mono [OF assms(1), of f] mset_subset_eq_count by (metis mset_map)
  moreover have "count (mset (map f xs)) a \<le> 1" for a
    using assms(2) by (simp add: distinct_count_atmost_1)
  ultimately have c: "count (mset (map f ys)) a \<le> 1" for a by (meson le_trans)
  have "count (mset (map f ys)) a = (if a \<in> set (map f ys) then 1 else 0)" for a
  proof (cases "a \<in> set (map f ys)")
    case True
    then have "0 < count (mset (map f ys)) a" by (metis count_greater_zero_iff set_mset_mset)
    then have "count (mset (map f ys)) a = 1" using c [of a] by linarith
    then show ?thesis using True by simp
  next
    case False
    then have "count (mset (map f ys)) a = 0" by (metis not_in_iff set_mset_mset)
    then show ?thesis using False by simp
  qed
  then show ?thesis by (simp add: distinct_count_atmost_1)
qed

lemma pool_distinct:
  assumes "pool_inv p" "distinct (map p_ResultChan (wp_accepted p))"
  shows "distinct (map p_ResultChan (q_heap (wp_queue p) @ concat (map held (wp_workers p)) @ wp_sleeping p @ wp_finished p))"
  using assms by (intro distinct_sub_mset [OF _ assms(2)]) (simp add: pool_inv_def in_pool_def ac_simps)

lemma send_free:
  assumes "pool_inv p" "distinct (map p_ResultChan (wp_accepted p))"
    and "i < length (wp_workers p)" "wp_workers p ! i = WSend req res"
  shows "wp_results p (p_ResultChan req) = []"
proof -
  have "wp_workers p ! i \<in> set (wp_workers p)" using assms(3) by simp
  then have "req \<in> set (concat (map held (wp_workers p)))" using assms(4) by force
  then have "p_ResultChan req \<in> p_ResultChan ` set (concat (map held (wp_workers p)))" by (rule imageI)
  moreover have "p_ResultChan ` set (concat (map held (wp_workers p))) \<inter> p_ResultChan ` set (wp_finished p) = {}"
    using pool_distinct [OF assms(1,2)] by (simp only: map_append distinct_append set_append set_map) blast
  ultimately have "p_ResultChan req \<notin> p_ResultChan ` set (wp_finished p)" by blast
  then have "count_list (map p_ResultChan (wp_finished p)) (p_ResultChan req) = 0" by (auto simp: count_list_0_iff)
  then show ?thesis using pool_invD(2) [OF assms(1), of "p_ResultChan req"] by simp
qed

section \<open>Who sleeps\<close>

text \<open>Asleep are workers in \<open>WDequeue\<close>, each listed once.  As long as one sleeps, there is for every
  request in the queue a worker in \<open>WDequeue\<close> that is awake.  After the broadcast nobody sleeps.\<close>

definition dequeuers :: "'c WorkerPool \<Rightarrow> nat" where
  "dequeuers p = worker_count (\<lambda>ws. ws = WDequeue) p"

definition wait_inv :: "'c WorkerPool \<Rightarrow> bool" where
  "wait_inv p \<longleftrightarrow>
     (let q = wp_queue p in
      wp_stop p = (wp_stopper p \<noteq> SIdle) \<and> q_closed q = (wp_stopper p \<in> {SBroadcast, SWait, SReturned}) \<and>
      distinct (q_waiters q) \<and> (\<forall>i\<in>set (q_waiters q). i < length (wp_workers p) \<and> wp_workers p ! i = WDequeue) \<and>
      (wp_stopper p \<in> {SWait, SReturned} \<longrightarrow> q_waiters q = []) \<and>
      (q_waiters q \<noteq> [] \<longrightarrow> length (q_heap q) + length (q_waiters q) \<le> dequeuers p) \<and>
      (wp_stopper p = SReturned \<longrightarrow> (\<forall>ws\<in>set (wp_workers p). ws = WExited) \<and> \<not> wp_monitor p))"

lemma wait_invI:
  assumes "wp_stop p = (wp_stopper p \<noteq> SIdle)" "q_closed (wp_queue p) = (wp_stopper p \<in> {SBroadcast, SWait, SReturned})"
    and "distinct (q_waiters (wp_queue p))"
    and "\<And>i. i \<in> set (q_waiters (wp_queue p)) \<Longrightarrow> i < length (wp_workers p) \<and> wp_workers p ! i = WDequeue"
    and "wp_stopper p \<in> {SWait, SReturned} \<Longrightarrow> q_waiters (wp_queue p) = []"
    and "q_waiters (wp_queue p) \<noteq> [] \<Longrightarrow> length (q_heap (wp_queue p)) + length (q_waiters (wp_queue p)) \<le> dequeuers p"
    and "wp_stopper p = SReturned \<Longrightarrow> (\<forall>ws\<in>set (wp_workers p). ws = WExited) \<and> \<not> wp_monitor p"
  shows "wait_inv p"
  unfolding wait_inv_def Let_def using assms by blast

lemma wait_invD:
  assumes "wait_inv p"
  shows "wp_stop p = (wp_stopper p \<noteq> SIdle)" "q_closed (wp_queue p) = (wp_stopper p \<in> {SBroadcast, SWait, SReturned})"
    "distinct (q_waiters (wp_queue p))"
    "i \<in> set (q_waiters (wp_queue p)) \<Longrightarrow> i < length (wp_workers p) \<and> wp_workers p ! i = WDequeue"
    "wp_stopper p \<in> {SWait, SReturned} \<Longrightarrow> q_waiters (wp_queue p) = []"
    "q_waiters (wp_queue p) \<noteq> [] \<Longrightarrow> length (q_heap (wp_queue p)) + length (q_waiters (wp_queue p)) \<le> dequeuers p"
    "wp_stopper p = SReturned \<Longrightarrow> ws \<in> set (wp_workers p) \<Longrightarrow> ws = WExited"
    "wp_stopper p = SReturned \<Longrightarrow> \<not> wp_monitor p"
  using assms unfolding wait_inv_def Let_def by blast+

lemma sleepers_counted:
  assumes "distinct is" "\<forall>i\<in>set is. i < length ws \<and> ws ! i = WDequeue"
  shows "length is \<le> length (filter (\<lambda>w. w = WDequeue) ws)"
proof -
  have "length is = card (set is)" using assms(1) by (simp add: distinct_card)
  also have "\<dots> \<le> card {i. i < length ws \<and> ws ! i = WDequeue}"
    by (rule card_mono) (use assms(2) in auto)
  finally show ?thesis by (simp add: length_filter_conv_card)
qed

text \<open>A worker that is not in \<open>WDequeue\<close> moves, and the queue stays as it is.\<close>

lemma wait_move:
  assumes "wait_inv p" "i < length (wp_workers p)" "wp_workers p ! i \<noteq> WDequeue" "wp_workers p ! i \<noteq> WExited"
    and "wp_workers p' = (wp_workers p)[i := ws]" "wp_queue p' = wp_queue p" "wp_stop p' = wp_stop p" "wp_stopper p' = wp_stopper p"
  shows "wait_inv p'"
proof -
  have "dequeuers p \<le> dequeuers p'"
    using worker_count_set [OF assms(2), of "\<lambda>ws. ws = WDequeue" ws] assms(3,5)
    by (auto simp: dequeuers_def worker_count_def split: if_splits)
  moreover have "wp_stopper p \<noteq> SReturned"
    using wait_invD(7) [OF assms(1) _ nth_mem [OF assms(2)]] assms(4) by blast
  moreover have "j < length (wp_workers p) \<and> (wp_workers p)[i := ws] ! j = WDequeue" if "j \<in> set (q_waiters (wp_queue p))" for j
    using wait_invD(4) [OF assms(1) that] assms(3) by (cases "j = i") auto
  ultimately show ?thesis
    using wait_invD(1-3) [OF assms(1)] wait_invD(5,6) [OF assms(1)] assms(5-) by (intro wait_invI) auto
qed

text \<open>The workers stay as they are and the queue's heap grows only if a sleeper is woken.\<close>

lemma wait_still:
  assumes "wait_inv p" "wp_workers p' = wp_workers p" "wp_stop p' = wp_stop p" "wp_stopper p' = wp_stopper p"
    and "q_closed (wp_queue p') = q_closed (wp_queue p)"
    and "q_waiters (wp_queue p') = q_waiters (wp_queue p) \<and> length (q_heap (wp_queue p')) \<le> length (q_heap (wp_queue p)) \<or>
      q_waiters (wp_queue p') = drop 1 (q_waiters (wp_queue p)) \<and> length (q_heap (wp_queue p')) \<le> Suc (length (q_heap (wp_queue p)))"
    and "wp_monitor p' \<longrightarrow> wp_monitor p"
  shows "wait_inv p'"
proof -
  have d: "dequeuers p' = dequeuers p" using assms(2) by (simp add: dequeuers_def worker_count_def)
  from assms(6) have "q_waiters (wp_queue p') \<noteq> [] \<Longrightarrow>
      length (q_heap (wp_queue p')) + length (q_waiters (wp_queue p')) \<le> length (q_heap (wp_queue p)) + length (q_waiters (wp_queue p))"
    by (cases "q_waiters (wp_queue p)") auto
  moreover have "set (q_waiters (wp_queue p')) \<subseteq> set (q_waiters (wp_queue p))" "distinct (q_waiters (wp_queue p'))"
      "q_waiters (wp_queue p) = [] \<Longrightarrow> q_waiters (wp_queue p') = []"
    using wait_invD(3) [OF assms(1)] assms(6) set_drop_subset [of 1 "q_waiters (wp_queue p)"] by auto
  ultimately show ?thesis
    using wait_invD [OF assms(1)] assms(2-5,7) d by (intro wait_invI) (auto dest: le_trans)
qed

lemma enqueue_wakes:
  "q_waiters (snd (queue_Enqueue q r)) = q_waiters q \<and> length (q_heap (snd (queue_Enqueue q r))) \<le> length (q_heap q) \<or>
   q_waiters (snd (queue_Enqueue q r)) = drop 1 (q_waiters q) \<and> length (q_heap (snd (queue_Enqueue q r))) \<le> Suc (length (q_heap q))"
  using size_mset_mono [OF enqueue_adds(1) [of q r]]
  by (simp add: queue_Enqueue_def cond_Signal_def Let_def)

lemma wait_dequeue:
  assumes p: "pool_inv p" and w: "wait_inv p" and i: "i < length (wp_workers p)" "wp_workers p ! i = WDequeue"
    and a: "i \<notin> set (q_waiters (wp_queue p))"
  shows "wait_inv (worker_dequeue i p)"
proof -
  obtain out q where d: "queue_DequeueBlocking (\<lambda>c. c \<in> wp_done p) i (wp_queue p) = (out, q)" by fastforce
  note inv = pool_invD [OF p]
  note s = dequeue_outcome_spec [OF inv(1) d]
  have nr: "wp_stopper p \<noteq> SReturned" using wait_invD(7) [OF w _ nth_mem [OF i(1)]] i(2) by auto
  have dq: "dequeuers p = length (filter (\<lambda>ws. ws = WDequeue) (wp_workers p))" by (simp add: dequeuers_def worker_count_def)
  have others: "\<forall>j\<in>set (q_waiters (wp_queue p)). j < length (wp_workers p) \<and> j \<noteq> i \<and> wp_workers p ! j = WDequeue"
    using wait_invD(4) [OF w] a by blast
  have f: "wp_stop (worker_dequeue i p) = wp_stop p" "wp_stopper (worker_dequeue i p) = wp_stopper p" "wp_queue (worker_dequeue i p) = q"
    by (simp_all add: worker_dequeue_def d Let_def split: dequeue_outcome.split)
  have st: "j < length ((wp_workers p)[i := ws]) \<and> (wp_workers p)[i := ws] ! j = WDequeue" if "j \<in> set (q_waiters (wp_queue p))" for j ws
    using others that by auto
  show ?thesis
  proof (cases out)
    case Waiting
    then have q: "q_heap q = []" "q_waiters q = q_waiters (wp_queue p) @ [i]" "\<not> q_closed (wp_queue p)" "q_closed q = q_closed (wp_queue p)"
      using s by (auto simp: dequeue_spec_def)
    have ws: "wp_workers (worker_dequeue i p) = wp_workers p" by (simp add: worker_dequeue_def d Waiting)
    have "length (q_waiters q) \<le> dequeuers p"
      unfolding dq q by (rule sleepers_counted) (use wait_invD(3) [OF w] others a i in auto)
    then show ?thesis
      using wait_invD(1-3) [OF w] wait_invD(4,5) [OF w] a i q nr
      by (intro wait_invI) (auto simp: f ws dequeuers_def worker_count_def)
  next
    case ClosedNil
    then have q: "q_heap q = []" "q_waiters q = q_waiters (wp_queue p)" "q_closed q = q_closed (wp_queue p)"
      using s by (auto simp: dequeue_spec_def)
    have ws: "wp_workers (worker_dequeue i p) = (wp_workers p)[i := WExited]" by (simp add: worker_dequeue_def d ClosedNil)
    have "length (q_waiters q) \<le> length (filter (\<lambda>ws. ws = WDequeue) ((wp_workers p)[i := WExited]))"
      unfolding q by (rule sleepers_counted) (use wait_invD(3) [OF w] others in auto)
    then show ?thesis
      using wait_invD(1-3) [OF w] wait_invD(5) [OF w] st q nr unfolding dequeuers_def worker_count_def
      by (intro wait_invI) (simp_all add: f ws dequeuers_def worker_count_def)
  next
    case (Dequeued r)
    then have q: "q_waiters q = q_waiters (wp_queue p)" "q_closed q = q_closed (wp_queue p)" using s by auto
    have ws: "wp_workers (worker_dequeue i p) = (wp_workers p)[i := WCheck r]" by (simp add: worker_dequeue_def d Dequeued)
    have "Suc (length (q_heap q)) \<le> length (q_heap (wp_queue p))"
      using size_mset_mono [OF dequeue_removes [OF inv(1) d]] Dequeued by simp
    moreover have "int (length (filter (\<lambda>ws. ws = WDequeue) ((wp_workers p)[i := WCheck r]))) = int (dequeuers p) - 1"
      using worker_count_set [OF i(1), of "\<lambda>ws. ws = WDequeue" "WCheck r"] i(2) by (simp add: dequeuers_def)
    ultimately show ?thesis
      using wait_invD(1-3) [OF w] wait_invD(5,6) [OF w] st q nr unfolding dequeuers_def worker_count_def
      by (intro wait_invI) (simp_all add: f ws dequeuers_def worker_count_def)
  next
    case DequeuePanic
    then show ?thesis using s by (simp add: dequeue_spec_def)
  qed
qed

lemma wait_stop_next: "wait_inv p \<Longrightarrow> pool_Stop_next p = Some p' \<Longrightarrow> wait_inv p'"
  by (auto simp: pool_Stop_next_def wait_inv_def Let_def queue_close_locked_def cond_Broadcast_def dequeuers_def worker_count_def
      split: stopper_state.splits if_splits)

lemma wait_stop: "wait_inv p \<Longrightarrow> wait_inv (pool_Stop p)"
  by (auto simp: pool_Stop_def wait_inv_def Let_def dequeuers_def worker_count_def)

text \<open>How many steps a worker is at most away from its return.\<close>

fun worker_rank :: "worker_state \<Rightarrow> nat" where
  "worker_rank WDequeue = 5"
| "worker_rank (WCheck req) = 4"
| "worker_rank (WForward req) = 3"
| "worker_rank (WSend req res) = 2"
| "worker_rank WTop = 1"
| "worker_rank WExited = 0"

lemma worker_fields:
  "wp_stop (worker_top i p) = wp_stop p" "wp_stopper (worker_top i p) = wp_stopper p"
  "wp_stop (worker_check env now i req p) = wp_stop p" "wp_stopper (worker_check env now i req p) = wp_stopper p"
  "wp_stop (worker_forward env re i req p) = wp_stop p" "wp_stopper (worker_forward env re i req p) = wp_stopper p"
  "wp_queue (worker_top i p) = wp_queue p" "wp_queue (worker_check env now i req p) = wp_queue p"
  "wp_queue (worker_forward env re i req p) = wp_queue p"
  by (simp_all add: worker_top_def worker_check_def worker_forward_def Let_def split: prod.split option.split)

lemma worker_moves:
  "\<exists>ws. wp_workers (worker_check env now i req p) = (wp_workers p)[i := ws] \<and> worker_rank ws < 4"
  "wp_crashed (worker_forward env re i req p) \<or>
    (\<exists>res. wp_workers (worker_forward env re i req p) = (wp_workers p)[i := WSend req res])"
  by (auto simp: worker_check_def worker_forward_def Let_def split: prod.split option.split
      intro: exI [of _ WTop] exI [of _ "WForward req"])

lemma send_fields:
  assumes "worker_send i req res p = Some p' \<or> worker_abandon i req p = Some p'"
  shows "wp_workers p' = (wp_workers p)[i := WTop]" "wp_stop p' = wp_stop p" "wp_stopper p' = wp_stopper p"
    "wp_queue p' = wp_queue p"
  using assms by (auto simp: worker_send_def worker_abandon_def split: if_splits)

lemma wake_fields:
  assumes "pool_wake j p = Some p'"
  shows "wp_workers p' = wp_workers p" "wp_stop p' = wp_stop p" "wp_stopper p' = wp_stopper p" "wp_monitor p' = wp_monitor p"
    "wp_crashed p' = wp_crashed p" "wp_queue p' = wp_queue p \<or> (\<exists>r. wp_queue p' = snd (queue_Enqueue (wp_queue p) r))"
  using assms by (auto simp: pool_wake_def Let_def split: if_splits)

lemma submit_fields:
  "wp_workers (pool_submit r p) = wp_workers p" "wp_stop (pool_submit r p) = wp_stop p"
  "wp_stopper (pool_submit r p) = wp_stopper p" "wp_monitor (pool_submit r p) = wp_monitor p"
  "wp_crashed (pool_submit r p) = wp_crashed p" "wp_queue (pool_submit r p) = snd (queue_Enqueue (wp_queue p) r)"
  by (auto simp: pool_submit_def split: prod.split)

lemma crash_same_wait:
  assumes "wait_inv p" "wp_workers p' = wp_workers p" "wp_queue p' = wp_queue p" "wp_stop p' = wp_stop p"
    "wp_stopper p' = wp_stopper p" "wp_monitor p' \<longrightarrow> wp_monitor p"
  shows "wait_inv p'"
  by (rule wait_still [OF assms(1,2,4,5)]) (use assms in auto)

lemma wait_enqueue:
  assumes "wait_inv p" "wp_workers p' = wp_workers p" "wp_queue p' = snd (queue_Enqueue (wp_queue p) r)" "wp_stop p' = wp_stop p"
    "wp_stopper p' = wp_stopper p" "wp_monitor p' = wp_monitor p"
  shows "wait_inv p'"
  by (rule wait_still [OF assms(1,2,4,5)]) (use assms(3,6) enqueue_wakes [of "wp_queue p" r] in \<open>simp_all add: enqueue_adds(3)\<close>)

lemma wait_forward:
  assumes "wait_inv p" "i < length (wp_workers p)" "wp_workers p ! i = WForward req"
  shows "wait_inv (worker_forward env re i req p)"
proof (cases "forwardWithRetry re (pe_config env) (pe_router env) req (wp_writers p (p_ResponseWriter req))")
  case None
  then show ?thesis by (intro crash_same_wait [OF assms(1)]) (simp_all add: worker_forward_def)
next
  case (Some rw)
  then show ?thesis using assms
    by (cases rw) (intro wait_move [OF assms(1,2)], simp_all add: worker_forward_def)
qed

lemma wait_event:
  assumes p: "pool_inv p" and w: "wait_inv p" and st: "pool_event_step env ev p = Some p'"
  shows "wait_inv p'"
proof (cases ev)
  case (ETop i)
  then have "i < length (wp_workers p)" "wp_workers p ! i = WTop" "p' = worker_top i p"
    using st by (auto simp: at_worker_Some split: if_splits)
  then show ?thesis by (intro wait_move [OF w, of i]) (simp_all add: worker_top_def)
next
  case (EDequeue i)
  then show ?thesis using st wait_dequeue [OF p w] by (auto simp: at_worker_Some split: if_splits)
next
  case (ECheck i now)
  then obtain req where i: "i < length (wp_workers p)" "wp_workers p ! i = WCheck req" "p' = worker_check env now i req p"
    using st by (auto simp: at_worker_Some split: worker_state.splits)
  then obtain ws where "wp_workers p' = (wp_workers p)[i := ws]" using worker_moves(1) by blast
  then show ?thesis using i by (intro wait_move [OF w i(1)]) (simp_all add: worker_fields)
next
  case (EForward i re)
  then show ?thesis using st wait_forward [OF w] by (auto simp: at_worker_Some split: worker_state.splits)
next
  case (ESend i)
  then obtain req res where i: "i < length (wp_workers p)" "wp_workers p ! i = WSend req res" "worker_send i req res p = Some p'"
    using st by (auto simp: at_worker_Some split: worker_state.splits)
  then show ?thesis using send_fields [OF disjI1 [OF i(3)]] by (intro wait_move [OF w i(1)]) simp_all
next
  case (EAbandon i)
  then obtain req res where i: "i < length (wp_workers p)" "wp_workers p ! i = WSend req res" "worker_abandon i req p = Some p'"
    using st by (auto simp: at_worker_Some split: worker_state.splits)
  then show ?thesis using send_fields [OF disjI2 [OF i(3)]] by (intro wait_move [OF w i(1)]) simp_all
next
  case (EWake j)
  note f = wake_fields [OF st [unfolded EWake pool_event_step.simps]]
  from f(6) show ?thesis
    using wait_enqueue [OF w f(1) _ f(2-4)] crash_same_wait [OF w f(1) _ f(2,3)] f(4) by auto
next
  case (ESubmit r)
  then have "p' = pool_submit r p" using st by simp
  then show ?thesis by (intro wait_enqueue [OF w]) (simp_all add: submit_fields)
next
  case EStop
  then show ?thesis using st wait_stop [OF w] by simp
next
  case EStopNext
  then show ?thesis using st wait_stop_next [OF w] by simp
qed (use st in \<open>auto intro!: crash_same_wait [OF w] simp: monitor_tick_def split: if_splits list.splits\<close>)

lemma pool_reach_wait: "pool_reach env n p \<Longrightarrow> wait_inv p"
proof (induction rule: pool_reach.induct)
  case (start l cw cl ws p)
  then have p: "p = (NewWorkerPool (NewRequestQueue n) l cw cl ws)
      \<lparr>wp_workers := replicate (nat (wc_WorkerCount (pe_config env))) WTop, wp_monitor := True\<rparr>"
    by (simp add: pool_Start_def split: if_splits)
  show ?case by (simp add: p wait_inv_def NewWorkerPool_def NewRequestQueue_def)
next
  case (step p ev p')
  then show ?case using pool_reach_inv by (auto simp: pool_step_def intro: wait_event split: if_splits)
qed

section \<open>Stopping\<close>

text \<open>The worker an event belongs to, and the event that a worker's next step is.\<close>

fun event_of :: "nat \<Rightarrow> pool_event \<Rightarrow> bool" where
  "event_of i (ETop j) = (j = i)"
| "event_of i (EDequeue j) = (j = i)"
| "event_of i (ECheck j now) = (j = i)"
| "event_of i (EForward j re) = (j = i)"
| "event_of i (ESend j) = (j = i)"
| "event_of i (EAbandon j) = (j = i)"
| "event_of i _ = False"

fun next_event :: "nat \<Rightarrow> gotime \<Rightarrow> retry_env \<Rightarrow> worker_state \<Rightarrow> pool_event" where
  "next_event i now re WDequeue = EDequeue i"
| "next_event i now re (WCheck req) = ECheck i now"
| "next_event i now re (WForward req) = EForward i re"
| "next_event i now re (WSend req res) = ESend i"
| "next_event i now re _ = ETop i"

fun pool_run :: "'c pool_env \<Rightarrow> pool_event list \<Rightarrow> 'c WorkerPool \<Rightarrow> 'c WorkerPool option" where
  "pool_run env [] p = Some p"
| "pool_run env (ev # evs) p = (case pool_step env ev p of None \<Rightarrow> None | Some p' \<Rightarrow> pool_run env evs p')"

text \<open>Once the queue is closed, every step of a worker takes it nearer to its end, and moves no other one.\<close>

definition nearer :: "nat \<Rightarrow> 'c WorkerPool \<Rightarrow> 'c WorkerPool \<Rightarrow> bool" where
  "nearer i p p' \<longleftrightarrow>
     i < length (wp_workers p) \<and> (\<exists>ws. wp_workers p' = (wp_workers p)[i := ws] \<and> worker_rank ws < worker_rank (wp_workers p ! i))"

lemma dequeue_closed:
  assumes "pool_inv p" "q_closed (wp_queue p)" "i < length (wp_workers p)" "wp_workers p ! i = WDequeue"
  shows "nearer i p (worker_dequeue i p) \<and> q_closed (wp_queue (worker_dequeue i p))"
proof -
  obtain out q where d: "queue_DequeueBlocking (\<lambda>c. c \<in> wp_done p) i (wp_queue p) = (out, q)" by fastforce
  note s = dequeue_outcome_spec [OF pool_invD(1) [OF assms(1)] d]
  then consider "out = ClosedNil" | r where "out = Dequeued r" using assms(2) by (cases out) (auto simp: dequeue_spec_def)
  then show ?thesis
  proof cases
    case 1
    then show ?thesis using s assms unfolding nearer_def by (simp add: worker_dequeue_def d) (metis worker_rank.simps(6) zero_less_numeral)
  next
    case 2
    then have "wp_workers (worker_dequeue i p) = (wp_workers p)[i := WCheck r]" "wp_queue (worker_dequeue i p) = q"
      by (simp_all add: worker_dequeue_def d)
    then show ?thesis using s assms unfolding nearer_def by (auto intro: exI [of _ "WCheck r"])
  qed
qed

lemma closed_step:
  assumes inv: "pool_inv p" and w: "wait_inv p" and cl: "q_closed (wp_queue p)" and st: "pool_event_step env ev p = Some p'"
    and c: "\<not> wp_crashed p'"
  shows "q_closed (wp_queue p') \<and> ((\<exists>i. nearer i p p' \<and> (\<forall>j. event_of j ev = (j = i))) \<or>
    wp_workers p' = wp_workers p \<and> (\<forall>j. \<not> event_of j ev))"
proof (cases ev)
  case (ETop i)
  then have i: "i < length (wp_workers p)" "wp_workers p ! i = WTop" "p' = worker_top i p"
    using st by (auto simp: at_worker_Some split: if_splits)
  moreover have "wp_stop p" using cl wait_invD(1,2) [OF w] by auto
  ultimately have "nearer i p p'" by (auto simp: nearer_def worker_top_def)
  then show ?thesis using i ETop cl by (auto simp: worker_fields)
next
  case (EDequeue i)
  then have i: "i < length (wp_workers p)" "wp_workers p ! i = WDequeue" "p' = worker_dequeue i p"
    using st by (auto simp: at_worker_Some split: if_splits)
  then show ?thesis using dequeue_closed [OF inv cl i(1,2)] EDequeue by auto
next
  case (ECheck i now)
  then obtain req where i: "i < length (wp_workers p)" "wp_workers p ! i = WCheck req" "p' = worker_check env now i req p"
    using st by (auto simp: at_worker_Some split: worker_state.splits)
  then have "nearer i p p'" using worker_moves(1) [of env now i req p] by (auto simp: nearer_def)
  then show ?thesis using i ECheck cl by (auto simp: worker_fields)
next
  case (EForward i re)
  then obtain req where i: "i < length (wp_workers p)" "wp_workers p ! i = WForward req" "p' = worker_forward env re i req p"
    using st by (auto simp: at_worker_Some split: worker_state.splits)
  then have "nearer i p p'" using worker_moves(2) [of env re i req p] c by (auto simp: nearer_def intro: exI [of _ "WSend req _"])
  then show ?thesis using i EForward cl by (auto simp: worker_fields)
next
  case (ESend i)
  then obtain req res where i: "i < length (wp_workers p)" "wp_workers p ! i = WSend req res" "worker_send i req res p = Some p'"
    using st by (auto simp: at_worker_Some split: worker_state.splits)
  then have "nearer i p p'" using send_fields(1) [OF disjI1 [OF i(3)]] by (auto simp: nearer_def)
  then show ?thesis using send_fields(4) [OF disjI1 [OF i(3)]] ESend cl by auto
next
  case (EAbandon i)
  then obtain req res where i: "i < length (wp_workers p)" "wp_workers p ! i = WSend req res" "worker_abandon i req p = Some p'"
    using st by (auto simp: at_worker_Some split: worker_state.splits)
  then have "nearer i p p'" using send_fields(1) [OF disjI2 [OF i(3)]] by (auto simp: nearer_def)
  then show ?thesis using send_fields(4) [OF disjI2 [OF i(3)]] EAbandon cl by auto
next
  case (EWake j)
  note f = wake_fields [OF st [unfolded EWake pool_event_step.simps]]
  from f(1,6) show ?thesis using cl EWake by (auto simp: enqueue_adds(3))
next
  case (ESubmit r)
  then have "p' = pool_submit r p" using st by simp
  then show ?thesis using ESubmit cl by (simp add: submit_fields enqueue_adds(3))
next
  case EStopNext
  then show ?thesis using st cl
    by (auto simp: pool_Stop_next_def queue_close_locked_def cond_Broadcast_def split: stopper_state.splits if_splits)
qed (use st cl in \<open>auto simp: pool_Stop_def monitor_tick_def split: if_splits list.splits\<close>)

definition rank_of :: "nat \<Rightarrow> 'c WorkerPool \<Rightarrow> nat" where
  "rank_of i p = (if i < length (wp_workers p) then worker_rank (wp_workers p ! i) else 0)"

lemma nearer_rank:
  assumes "nearer i p p'"
  shows "Suc (rank_of i p') \<le> rank_of i p" "j \<noteq> i \<Longrightarrow> rank_of j p' = rank_of j p"
  using assms by (auto simp: nearer_def rank_of_def)

lemma run_inv:
  "pool_inv p \<Longrightarrow> wait_inv p \<Longrightarrow> pool_run env evs p = Some p' \<Longrightarrow> pool_inv p' \<and> wait_inv p'"
proof (induction evs arbitrary: p)
  case (Cons ev evs)
  then obtain p1 where "pool_event_step env ev p = Some p1" "pool_run env evs p1 = Some p'"
    by (auto simp: pool_step_def split: option.splits if_splits)
  then show ?case using Cons.IH [of p1] pool_event_inv wait_event Cons.prems(1,2) by blast
qed simp

lemma crashed_run: "wp_crashed p \<Longrightarrow> pool_run env evs p = Some p' \<Longrightarrow> p' = p"
  by (cases evs) (simp_all add: pool_step_def)

lemma closed_run:
  assumes "pool_inv p" "wait_inv p" "q_closed (wp_queue p)" "pool_run env evs p = Some p'" "\<not> wp_crashed p'"
  shows "length (filter (event_of i) evs) + rank_of i p' \<le> rank_of i p"
  using assms
proof (induction evs arbitrary: p)
  case (Cons ev evs)
  then obtain p1 where e: "pool_event_step env ev p = Some p1" and r: "pool_run env evs p1 = Some p'"
    by (auto simp: pool_step_def split: option.splits if_splits)
  have c: "\<not> wp_crashed p1" using crashed_run r Cons.prems(5) by metis
  note s = closed_step [OF Cons.prems(1-3) e c]
  have "length (filter (event_of i) evs) + rank_of i p' \<le> rank_of i p1"
    using s pool_event_inv [OF Cons.prems(1) e] wait_event [OF Cons.prems(1,2) e] r Cons.prems(5) by (intro Cons.IH) auto
  moreover from s consider k where "nearer k p p1" "\<forall>j. event_of j ev = (j = k)"
    | "wp_workers p1 = wp_workers p" "\<forall>j. \<not> event_of j ev" by blast
  then have "rank_of i p1 + (if event_of i ev then 1 else 0) \<le> rank_of i p"
    using nearer_rank by cases (fastforce, simp add: rank_of_def)
  ultimately show ?case by (auto split: if_splits)
qed simp

lemma rank_of_le: "rank_of i p \<le> 5"
  by (cases "wp_workers p ! i") (simp_all add: rank_of_def)

lemma awake_enabled:
  assumes inv: "pool_inv p" and "distinct (map p_ResultChan (wp_accepted p))" "\<not> wp_crashed p"
    and i: "i < length (wp_workers p)" "wp_workers p ! i \<noteq> WExited" "i \<notin> set (q_waiters (wp_queue p))"
  shows "pool_step env (next_event i now re (wp_workers p ! i)) p \<noteq> None"
proof (cases "wp_workers p ! i")
  case (WSend req res)
  then show ?thesis using send_free [OF inv assms(2) i(1) WSend] assms(3) i by (simp add: pool_step_def at_worker_def worker_send_def)
qed (use assms in \<open>simp_all add: pool_step_def at_worker_def\<close>)

lemma stopped_step: "wp_stop p \<Longrightarrow> pool_event_step env ev p = Some p' \<Longrightarrow> wp_stop p'"
  by (cases ev)
     (auto simp: at_worker_Some worker_fields pool_Stop_def pool_Stop_next_def monitor_tick_def submit_fields wake_fields(2)
        worker_send_def worker_abandon_def worker_dequeue_def Let_def split: if_splits worker_state.splits stopper_state.splits list.splits prod.splits dequeue_outcome.splits)

lemma stopped_run: "wp_stop p \<Longrightarrow> pool_run env evs p = Some p' \<Longrightarrow> wp_stop p'"
proof (induction evs arbitrary: p)
  case (Cons ev evs)
  then show ?case using stopped_step by (fastforce simp: pool_step_def split: option.splits if_splits)
qed simp

section \<open>Properties\<close>

text \<open>C39. In every reachable state of the pool, however its goroutines interleave, the requests in the
  queue, with the workers, in their pause and already answered are requests the queue accepted, each
  at most as often as it was accepted; the counter of active workers and the gauge of busy workers
  are the numbers of workers that are checking or forwarding, and forwarding.  If the accepted
  requests have different result channels, no request is with two workers, and a worker that has
  a result finds the request's channel empty, so that it can always send it.\<close>

theorem pool_requests_safe:
  assumes "pool_reach env n p"
  shows "mset (q_heap (wp_queue p)) + mset (concat (map held (wp_workers p))) + mset (wp_sleeping p) + mset (wp_finished p)
      \<subseteq># mset (wp_accepted p) \<and>
    wp_active p = of_nat (length (filter working (wp_workers p))) \<and>
    workerBusyCount (wp_metrics p) = i64 (int (length (filter forwarding (wp_workers p)))) \<and>
    (distinct (map p_ResultChan (wp_accepted p)) \<longrightarrow>
       distinct (map p_ResultChan (concat (map held (wp_workers p)))) \<and>
       (\<forall>i req res. i < length (wp_workers p) \<and> wp_workers p ! i = WSend req res \<longrightarrow> wp_results p (p_ResultChan req) = []))"
proof -
  note inv = pool_reach_inv [OF assms]
  have "distinct (map p_ResultChan (concat (map held (wp_workers p)))) \<and>
      (\<forall>i req res. i < length (wp_workers p) \<and> wp_workers p ! i = WSend req res \<longrightarrow> wp_results p (p_ResultChan req) = [])"
    if d: "distinct (map p_ResultChan (wp_accepted p))"
    using pool_distinct [OF inv d] send_free [OF inv d] by (simp only: map_append distinct_append) blast
  then show ?thesis using inv by (simp add: pool_inv_def in_pool_def worker_count_def)
qed

text \<open>C99. No wake-up is lost: in every reachable state in which a request is queued, either no worker
  sleeps, or some worker that is about to take a request is awake, and its step is possible unless the program has panicked.  So
  a request never waits in the queue while every idle worker sleeps.\<close>

theorem no_lost_wakeup:
  assumes "pool_reach env n p" "q_heap (wp_queue p) \<noteq> []" "\<not> wp_crashed p"
  shows "q_waiters (wp_queue p) = [] \<or>
    (\<exists>i < length (wp_workers p). wp_workers p ! i = WDequeue \<and> pool_step env (EDequeue i) p \<noteq> None)"
proof (rule disjCI)
  note w = wait_invD [OF pool_reach_wait [OF assms(1)]]
  assume no: "\<not> (\<exists>i < length (wp_workers p). wp_workers p ! i = WDequeue \<and> pool_step env (EDequeue i) p \<noteq> None)"
  have "i \<in> set (q_waiters (wp_queue p))" if "i < length (wp_workers p)" "wp_workers p ! i = WDequeue" for i
    using no [simplified not_ex, rule_format, of i] that assms(3) by (simp add: pool_step_def at_worker_def split: if_splits)
  then have "card {i. i < length (wp_workers p) \<and> wp_workers p ! i = WDequeue} \<le> card (set (q_waiters (wp_queue p)))"
    by (intro card_mono) auto
  then have "dequeuers p \<le> length (q_waiters (wp_queue p))"
    using w(3) by (simp add: dequeuers_def worker_count_def length_filter_conv_card distinct_card)
  moreover have "0 < length (q_heap (wp_queue p))" using assms(2) by simp
  ultimately show "q_waiters (wp_queue p) = []" using w(6) by linarith
qed

text \<open>C40. \<^verbatim>\<open>Stop\<close> ends.  Take any run from a reachable state in which the stop channel is closed to a state in which the
  program has not panicked.  If the queue was closed at its start, no worker has taken more than five steps
  in it, whatever the other goroutines did.  In its last state the goroutine that called \<^verbatim>\<open>Stop\<close> can go on until it waits;
  while it waits, no worker sleeps, the next step of every worker that has not returned is possible, and
  so is that of the monitor; when they all have returned \<^verbatim>\<open>Stop\<close> can return, and it has returned only if they have.\<close>

theorem stop_ends:
  assumes "pool_reach env n p" "wp_stop p" "pool_run env evs p = Some p'" "\<not> wp_crashed p'"
    and "distinct (map p_ResultChan (wp_accepted p'))"
  shows "(q_closed (wp_queue p) \<longrightarrow> length (filter (event_of i) evs) \<le> 5) \<and>
    (case wp_stopper p' of
       SIdle \<Rightarrow> False
     | SClose \<Rightarrow> pool_step env EStopNext p' \<noteq> None
     | SBroadcast \<Rightarrow> pool_step env EStopNext p' \<noteq> None
     | SWait \<Rightarrow> q_waiters (wp_queue p') = [] \<and>
         (\<forall>i < length (wp_workers p'). wp_workers p' ! i \<noteq> WExited \<longrightarrow>
            pool_step env (next_event i now re (wp_workers p' ! i)) p' \<noteq> None) \<and>
         (wp_monitor p' \<longrightarrow> pool_step env EMonitorStop p' \<noteq> None) \<and>
         ((\<forall>ws\<in>set (wp_workers p'). ws = WExited) \<and> \<not> wp_monitor p' \<longrightarrow>
            (\<exists>p''. pool_step env EStopNext p' = Some p'' \<and> wp_stopper p'' = SReturned))
     | SReturned \<Rightarrow> (\<forall>ws\<in>set (wp_workers p'). ws = WExited) \<and> \<not> wp_monitor p')"
proof -
  note i0 = pool_reach_inv [OF assms(1)] pool_reach_wait [OF assms(1)]
  note i1 = run_inv [OF i0 assms(3), THEN conjunct1] run_inv [OF i0 assms(3), THEN conjunct2]
  note w = wait_invD [OF i1(2)]
  have s: "wp_stop p'" using stopped_run assms(2,3) by blast
  have "length (filter (event_of i) evs) \<le> 5" if "q_closed (wp_queue p)"
    using closed_run [OF i0 that assms(3,4), of i] rank_of_le [of i p] by linarith
  moreover have "pool_step env (next_event i now re (wp_workers p' ! i)) p' \<noteq> None"
    if "wp_stopper p' = SWait" "i < length (wp_workers p')" "wp_workers p' ! i \<noteq> WExited" for i
    using that w(5) by (intro awake_enabled [OF i1(1) assms(5,4)]) auto
  moreover have "wp_stopper p' \<noteq> SIdle" using w(1) s by simp
  ultimately show ?thesis
    using w(5,7,8) s assms(4) by (auto simp: pool_step_def pool_Stop_next_def split: stopper_state.split)
qed

text \<open>Witnesses: a pool with one worker and one request submitted.\<close>

definition sample_pool_env :: "MemoryCache pool_env" where
  "sample_pool_env =
     \<lparr>pe_ops = memory_ops, pe_clock = (\<lambda>_. 0), pe_router = router_New,
      pe_config = \<lparr>wc_WorkerCount = 1, wc_MaxRetryAttempts = 1, wc_RetryDelayMs = 0, wc_MaxWaitTime = 0\<rparr>\<rparr>"

definition started_pool :: "MemoryCache WorkerPool" where
  "started_pool =
     (NewWorkerPool (NewRequestQueue 3) (lim_New \<lparr>rl_TPM = 0, rl_RPM = 0, rl_MaxRetries = 0\<rparr> None None) (NewMemoryCache, 0)
        NewChainLogger (\<lambda>_. fresh_writer))\<lparr>wp_workers := [WTop], wp_monitor := True\<rparr>"

definition submitted_pool :: "MemoryCache WorkerPool" where
  "submitted_pool = worker_dequeue 0 (worker_top 0 (pool_submit (sample_request ''r'' 1 10 0) started_pool))"

lemma started_pool_reach: "pool_reach sample_pool_env 3 started_pool"
  unfolding started_pool_def
  by (rule pool_reach.start) (simp add: pool_Start_def sample_pool_env_def)

lemma started_queue: "wp_queue started_pool = \<lparr>q_heap = [], q_max = 3, q_closed = False, q_waiters = []\<rparr>"
  by (simp add: started_pool_def NewWorkerPool_def NewRequestQueue_def heap_Init_def)

lemma submitted_steps:
  "pool_run sample_pool_env [ESubmit (sample_request ''r'' 1 10 0), ETop 0, EDequeue 0] started_pool = Some submitted_pool"
  "wp_workers submitted_pool = [WCheck (sample_request ''r'' 1 10 0)]"
  "wp_accepted submitted_pool = [sample_request ''r'' 1 10 0]"
proof -
  let ?r = "sample_request ''r'' 1 10 0"
  have e: "queue_Enqueue (wp_queue started_pool) ?r = ((0, 1), \<lparr>q_heap = [?r], q_max = 3, q_closed = False, q_waiters = []\<rparr>)"
    by (simp add: started_queue queue_Enqueue_def cond_Signal_def heap_Push_def heap_up.simps [of req_Less "[_]" 0] Let_def)
  have s: "pool_submit ?r started_pool = started_pool\<lparr>wp_queue := \<lparr>q_heap = [?r], q_max = 3, q_closed = False, q_waiters = []\<rparr>, wp_accepted := [?r]\<rparr>"
    by (simp add: pool_submit_def e) (simp add: started_pool_def NewWorkerPool_def)
  have f: "wp_workers started_pool = [WTop]" "wp_stop started_pool = False" "wp_crashed started_pool = False" "wp_done started_pool = {}"
    by (simp_all add: started_pool_def NewWorkerPool_def)
  have d: "queue_DequeueBlocking (\<lambda>c. c \<in> {}) 0 \<lparr>q_heap = [?r], q_max = 3, q_closed = False, q_waiters = []\<rparr> =
      (Dequeued ?r, \<lparr>q_heap = [], q_max = 3, q_closed = False, q_waiters = []\<rparr>)"
    by (simp add: queue_DequeueBlocking_def dequeue_heap.simps heap_Pop_def swap_at_def heap_down.simps)
  show "pool_run sample_pool_env [ESubmit ?r, ETop 0, EDequeue 0] started_pool = Some submitted_pool"
    by (simp add: submitted_pool_def s f pool_step_def at_worker_def worker_top_def set_worker_def)
  show "wp_workers submitted_pool = [WCheck ?r]"
    using d by (simp add: submitted_pool_def s f worker_top_def worker_dequeue_def Let_def)
  show "wp_accepted submitted_pool = [?r]"
    using d by (simp add: submitted_pool_def s f worker_top_def worker_dequeue_def Let_def)
qed

lemma started_run_reach: "pool_reach env n p \<Longrightarrow> pool_run env evs p = Some p' \<Longrightarrow> pool_reach env n p'"
proof (induction evs arbitrary: p)
  case (Cons ev evs)
  then show ?case by (auto intro: pool_reach.step split: option.splits)
qed simp

lemma submitted_pool_reach: "pool_reach sample_pool_env 3 submitted_pool"
  by (rule started_run_reach [OF started_pool_reach submitted_steps(1)])

theorem pool_requests_safe_witness:
  "wp_active submitted_pool = 1 \<and> wp_workers submitted_pool = [WCheck (sample_request ''r'' 1 10 0)]"
  using pool_requests_safe [OF submitted_pool_reach] submitted_steps(2) by simp

text \<open>The witness of the last property: \<^verbatim>\<open>Stop\<close> while the only worker sleeps, which is woken by the broadcast and returns.\<close>

definition asleep_pool :: "MemoryCache WorkerPool" where
  "asleep_pool = worker_dequeue 0 (worker_top 0 started_pool)"

definition stopping_pool :: "MemoryCache WorkerPool" where
  "stopping_pool = the (pool_Stop_next (pool_Stop asleep_pool))"

definition broadcast_pool :: "MemoryCache WorkerPool" where
  "broadcast_pool = the (pool_Stop_next stopping_pool)"

lemma asleep_fields:
  "wp_workers asleep_pool = [WDequeue]" "wp_queue asleep_pool = \<lparr>q_heap = [], q_max = 3, q_closed = False, q_waiters = [0]\<rparr>"
  "wp_stop asleep_pool = False" "wp_crashed asleep_pool = False" "wp_accepted asleep_pool = []" "wp_monitor asleep_pool"
  "pool_run sample_pool_env [ETop 0, EDequeue 0] started_pool = Some asleep_pool"
proof -
  have f: "wp_workers started_pool = [WTop]" "wp_stop started_pool = False" "wp_crashed started_pool = False" "wp_done started_pool = {}"
      "wp_accepted started_pool = []" "wp_monitor started_pool"
    by (simp_all add: started_pool_def NewWorkerPool_def)
  have d: "queue_DequeueBlocking (\<lambda>c. c \<in> {}) 0 \<lparr>q_heap = [], q_max = 3, q_closed = False, q_waiters = []\<rparr> =
      (Waiting, \<lparr>q_heap = [], q_max = 3, q_closed = False, q_waiters = [0]\<rparr>)"
    by (simp add: queue_DequeueBlocking_def dequeue_heap.simps cond_Wait_def)
  show "wp_workers asleep_pool = [WDequeue]" "wp_queue asleep_pool = \<lparr>q_heap = [], q_max = 3, q_closed = False, q_waiters = [0]\<rparr>"
    "wp_stop asleep_pool = False" "wp_crashed asleep_pool = False" "wp_accepted asleep_pool = []" "wp_monitor asleep_pool"
    using d by (simp_all add: asleep_pool_def worker_top_def worker_dequeue_def started_queue f Let_def)
  show "pool_run sample_pool_env [ETop 0, EDequeue 0] started_pool = Some asleep_pool"
    by (simp add: asleep_pool_def f pool_step_def at_worker_def worker_top_def set_worker_def started_queue)
qed

theorem stop_ends_witness:
  "wp_stopper broadcast_pool = SWait \<and> wp_workers broadcast_pool = [WDequeue] \<and> q_waiters (wp_queue stopping_pool) = [0] \<and>
   q_waiters (wp_queue broadcast_pool) = [] \<and> pool_step sample_pool_env (EDequeue 0) broadcast_pool \<noteq> None"
proof -
  let ?s = "pool_Stop asleep_pool"
  have s: "pool_run sample_pool_env [EStop, EStopNext] asleep_pool = Some stopping_pool"
    "wp_stopper stopping_pool = SBroadcast" "wp_workers stopping_pool = [WDequeue]" "q_waiters (wp_queue stopping_pool) = [0]"
    "wp_stop stopping_pool" "wp_crashed stopping_pool = False" "wp_accepted stopping_pool = []" "q_closed (wp_queue stopping_pool)"
    by (simp_all add: stopping_pool_def pool_step_def pool_Stop_def pool_Stop_next_def asleep_fields queue_close_locked_def)
  have b: "pool_run sample_pool_env [EStopNext] stopping_pool = Some broadcast_pool"
    "wp_stopper broadcast_pool = SWait" "wp_workers broadcast_pool = [WDequeue]" "\<not> wp_crashed broadcast_pool" "wp_accepted broadcast_pool = []"
    by (simp_all add: broadcast_pool_def pool_step_def pool_Stop_next_def s)
  have r: "pool_reach sample_pool_env 3 stopping_pool"
    by (rule started_run_reach [OF started_run_reach [OF started_pool_reach asleep_fields(7)] s(1)])
  have d: "distinct (map p_ResultChan (wp_accepted broadcast_pool))" by (simp add: b(5))
  show ?thesis
    using stop_ends [OF r s(5) b(1) b(4) d, where i = 0] b(2,3) s(4) by simp
qed

theorem no_lost_wakeup_witness:
  "q_waiters (wp_queue (pool_submit (sample_request ''r'' 1 10 0) asleep_pool)) = [] \<or>
   pool_step sample_pool_env (EDequeue 0) (pool_submit (sample_request ''r'' 1 10 0) asleep_pool) \<noteq> None"
proof -
  let ?r = "sample_request ''r'' 1 10 0"
  let ?p = "pool_submit ?r asleep_pool"
  have e: "queue_Enqueue (wp_queue asleep_pool) ?r = ((0, 1), \<lparr>q_heap = [?r], q_max = 3, q_closed = False, q_waiters = []\<rparr>)"
    by (simp add: asleep_fields queue_Enqueue_def cond_Signal_def heap_Push_def heap_up.simps [of req_Less "[_]" 0] Let_def)
  have st: "pool_step sample_pool_env (ESubmit ?r) asleep_pool = Some ?p" by (simp add: pool_step_def asleep_fields)
  have r: "pool_reach sample_pool_env 3 ?p"
    by (rule pool_reach.step [OF started_run_reach [OF started_pool_reach asleep_fields(7)] st])
  have "q_heap (wp_queue ?p) \<noteq> []" "\<not> wp_crashed ?p" by (simp_all add: submit_fields e) (simp add: asleep_fields)
  from no_lost_wakeup [OF r this] show ?thesis by (auto simp: submit_fields asleep_fields)
qed

end
