(* ===== verification/Spec2Isabelle.thy ===== *)
theory Spec2Isabelle
  imports Request_Queue Rate_Limiter Router Go_Time Startup Retention Worker_Pool
begin

text \<open>
  Verification of the proxy.
\<close>

end
